(* ===== verification/LeKV_Prelude.thy ===== *)
theory LeKV_Prelude
  imports Main "HOL-Library.Word" "HOL-Library.List_Lexorder" "HOL-Library.Monad_Syntax"
begin

text \<open>
  Shared vocabulary of the development: the machine types of the C++ sources, byte strings,
  bounds-checked reads of a buffer, the big-endian integer codec that
  \<open>htons\<close>/\<open>htonl\<close>/\<open>ntohs\<close>/\<open>ntohl\<close> amount to, and the generic
  lemmas the components share. \<open>std::string\<close> and \<open>std::vector<uint8_t>\<close> are both byte
  lists; \<open>std::string\<close> comparison is the lexicographic order on unsigned bytes, which is
  the list order of \<open>HOL-Library.List_Lexorder\<close> over \<open>8 word\<close>. An access of the source
  that leaves the buffer (undefined behaviour in C++) is the value \<open>None\<close> of an option.
\<close>

section \<open>Machine types and collections\<close>

named_theorems wire \<open>facts about encoded integers and frames\<close>
named_theorems in_bounds \<open>facts that discharge the bounds checks of a buffer read\<close>

type_synonym u8 = "8 word"
type_synonym u16 = "16 word"
type_synonym u32 = "32 word"
type_synonym u64 = "64 word"
type_synonym bytes = "8 word list"
type_synonym str = "8 word list"

definition lit :: "string \<Rightarrow> str" where
  "lit s = map of_char s"

lemma lit_simps [simp]:
  "lit [] = []" "lit (c # cs) = of_char c # lit cs"
  by (simp_all add: lit_def)

lemma Nil_le_list [simp]: "([] :: 'a :: linorder list) \<le> xs"
  by (cases xs) auto

section \<open>Bounds-checked buffer access\<close>

definition subbuf :: "'a list \<Rightarrow> nat \<Rightarrow> nat \<Rightarrow> 'a list option" where
  "subbuf b i n = (if i + n \<le> length b then Some (take n (drop i b)) else None)"

definition rd8 :: "bytes \<Rightarrow> nat \<Rightarrow> u8 option" where
  "rd8 b i = (if i < length b then Some (b ! i) else None)"

lemma subbuf_SomeD: "subbuf b i n = Some s \<Longrightarrow> length s = n \<and> i + n \<le> length b \<and> s = take n (drop i b)"
  by (auto simp: subbuf_def split: if_splits)

lemma subbuf_None_iff: "subbuf b i n = None \<longleftrightarrow> length b < i + n"
  by (auto simp: subbuf_def)

lemma subbuf_append [in_bounds]:
  "length a = i \<Longrightarrow> length s = n \<Longrightarrow> subbuf (a @ s @ r) i n = Some s"
  by (simp add: subbuf_def)

lemma subbuf_append_end [in_bounds]:
  "length a = i \<Longrightarrow> length s = n \<Longrightarrow> subbuf (a @ s) i n = Some s"
  by (simp add: subbuf_def)

lemma subbuf_prefix: "subbuf b i n = Some s \<Longrightarrow> subbuf (b @ r) i n = Some s"
  by (auto simp: subbuf_def split: if_splits)

lemma subbuf_0 [simp]: "subbuf b 0 n = (if n \<le> length b then Some (take n b) else None)"
  by (simp add: subbuf_def)

lemma subbuf_Cons [simp]: "subbuf (x # b) (Suc i) n = subbuf b i n"
  by (simp add: subbuf_def)

section \<open>Big-endian integers\<close>

definition be16 :: "u16 \<Rightarrow> bytes" where
  "be16 w = [ucast (drop_bit 8 w), ucast w]"

definition be32 :: "u32 \<Rightarrow> bytes" where
  "be32 w = [ucast (drop_bit 24 w), ucast (drop_bit 16 w), ucast (drop_bit 8 w), ucast w]"

definition join16 :: "u8 \<Rightarrow> u8 \<Rightarrow> u16" where
  "join16 a b = or (push_bit 8 (ucast a)) (ucast b)"

definition join32 :: "u8 \<Rightarrow> u8 \<Rightarrow> u8 \<Rightarrow> u8 \<Rightarrow> u32" where
  "join32 a b c d =
     or (push_bit 24 (ucast a)) (or (push_bit 16 (ucast b)) (or (push_bit 8 (ucast c)) (ucast d)))"

definition rd16 :: "bytes \<Rightarrow> nat \<Rightarrow> u16 option" where
  "rd16 b i = (case subbuf b i 2 of Some [x, y] \<Rightarrow> Some (join16 x y) | _ \<Rightarrow> None)"

definition rd32 :: "bytes \<Rightarrow> nat \<Rightarrow> u32 option" where
  "rd32 b i = (case subbuf b i 4 of Some [w, x, y, z] \<Rightarrow> Some (join32 w x y z) | _ \<Rightarrow> None)"

lemma length_be16 [simp]: "length (be16 w) = 2"
  by (simp add: be16_def)

lemma length_be32 [simp]: "length (be32 w) = 4"
  by (simp add: be32_def)

lemma join16_split: "join16 (ucast (drop_bit 8 w)) (ucast w) = w"
  unfolding join16_def by (rule bit_word_eqI) (auto simp: bit_simps)

lemma join32_split:
  "join32 (ucast (drop_bit 24 w)) (ucast (drop_bit 16 w)) (ucast (drop_bit 8 w)) (ucast w) = w"
  (is "?l = w")
proof (rule bit_word_eqI)
  fix n :: nat
  assume "n < LENGTH(32)"
  then consider "n < 8" | "8 \<le> n" "n < 16" | "16 \<le> n" "n < 24" | "24 \<le> n" "n < 32"
    by fastforce
  then show "bit ?l n = bit w n"
    by cases (auto simp: join32_def bit_simps)
qed

lemma no_high_bit: "8 \<le> n \<Longrightarrow> \<not> bit (x :: u8) n"
  using bit_imp_le_length [of x n] by auto

lemma be16_join16: "be16 (join16 a b) = [a, b]"
  unfolding be16_def join16_def
  by (auto intro!: bit_word_eqI simp: bit_simps no_high_bit)

lemma be32_join32: "be32 (join32 a b c d) = [a, b, c, d]"
  unfolding be32_def join32_def
  by (auto intro!: bit_word_eqI simp: bit_simps no_high_bit)

lemma length2_conv: "length xs = 2 \<longleftrightarrow> (\<exists>a b. xs = [a, b])"
  by (auto simp: length_Suc_conv numeral_2_eq_2)

lemma length4_conv: "length xs = 4 \<longleftrightarrow> (\<exists>a b c d. xs = [a, b, c, d])"
  by (auto simp: length_Suc_conv eval_nat_numeral)

lemma rd16_Some_iff: "rd16 b i = Some w \<longleftrightarrow> subbuf b i 2 = Some (be16 w)"
proof
  assume "rd16 b i = Some w"
  then show "subbuf b i 2 = Some (be16 w)"
    by (auto simp: rd16_def be16_join16 split: option.splits list.splits)
next
  assume "subbuf b i 2 = Some (be16 w)"
  then show "rd16 b i = Some w"
    by (simp add: rd16_def be16_def join16_split)
qed

lemma rd32_Some_iff: "rd32 b i = Some w \<longleftrightarrow> subbuf b i 4 = Some (be32 w)"
proof
  assume "rd32 b i = Some w"
  then show "subbuf b i 4 = Some (be32 w)"
    by (auto simp: rd32_def be32_join32 split: option.splits list.splits)
next
  assume "subbuf b i 4 = Some (be32 w)"
  then show "rd32 b i = Some w"
    by (simp add: rd32_def be32_def join32_split)
qed

lemma rd16_None_iff: "rd16 b i = None \<longleftrightarrow> length b < i + 2"
proof (cases "subbuf b i 2")
  case None
  with subbuf_None_iff [of b i 2] show ?thesis by (simp add: rd16_def)
next
  case (Some s)
  from subbuf_SomeD [OF this] have "length s = 2" "i + 2 \<le> length b" by blast+
  moreover from this obtain x y where "s = [x, y]" by (auto simp: length2_conv)
  ultimately show ?thesis using Some by (simp add: rd16_def)
qed

lemma rd32_None_iff: "rd32 b i = None \<longleftrightarrow> length b < i + 4"
proof (cases "subbuf b i 4")
  case None
  with subbuf_None_iff [of b i 4] show ?thesis by (simp add: rd32_def)
next
  case (Some s)
  from subbuf_SomeD [OF this] have "length s = 4" "i + 4 \<le> length b" by blast+
  moreover from this obtain w x y z where "s = [w, x, y, z]" by (auto simp: length4_conv)
  ultimately show ?thesis using Some by (simp add: rd32_def)
qed

lemma rd16_be16 [wire]: "length a = i \<Longrightarrow> rd16 (a @ be16 w @ r) i = Some w"
  by (simp add: rd16_Some_iff subbuf_append)

lemma rd32_be32 [wire]: "length a = i \<Longrightarrow> rd32 (a @ be32 w @ r) i = Some w"
  by (simp add: rd32_Some_iff subbuf_append)

lemma rd16_Cons [simp]: "rd16 (x # b) (Suc i) = rd16 b i"
  by (simp add: rd16_def)

lemma rd32_Cons [simp]: "rd32 (x # b) (Suc i) = rd32 b i"
  by (simp add: rd32_def)

lemma rd16_0 [wire]: "rd16 (be16 w @ r) 0 = Some w"
  using rd16_be16 [of "[]"] by simp

lemma rd32_0 [wire]: "rd32 (be32 w @ r) 0 = Some w"
  using rd32_be32 [of "[]"] by simp

lemma rd32_prefix: "rd32 b i = Some w \<Longrightarrow> rd32 (b @ r) i = Some w"
  by (auto simp: rd32_Some_iff intro: subbuf_prefix)

lemma rd16_prefix: "rd16 b i = Some w \<Longrightarrow> rd16 (b @ r) i = Some w"
  by (auto simp: rd16_Some_iff intro: subbuf_prefix)

section \<open>Sizes as machine words\<close>

lemma unat_of_nat16 [in_bounds]: "n < 2 ^ 16 \<Longrightarrow> unat (of_nat n :: u16) = n"
  by (simp add: unat_of_nat)

lemma unat_of_nat32 [in_bounds]: "n < 2 ^ 32 \<Longrightarrow> unat (of_nat n :: u32) = n"
  by (simp add: unat_of_nat)

lemma unat_u16_bound: "unat (k :: u16) < 65536"
  using unsigned_less [of k, where 'a = nat] by simp

lemma unat_u32_bound: "unat (k :: u32) < 4294967296"
  using unsigned_less [of k, where 'a = nat] by simp

lemma unat_ucast_up [simp]: "unat (ucast (k :: u16) :: u32) = unat k"
  using unat_u16_bound [of k] by (simp add: unsigned_ucast_eq take_bit_nat_eq_self)

lemma unat_plus_u32:
  "unat (a :: u32) + unat b < 4294967296 \<Longrightarrow> unat (a + b) = unat a + unat b"
  by (simp add: unat_word_ariths)

end
