(* ===== verification/KV_Interface.thy ===== *)
theory KV_Interface
  imports LeKV_Prelude
begin

text \<open>
  The interface between the storage engine and the database under it: an ordered key/value
  store whose writes report success and whose scan yields the pairs from a key on in
  increasing key order. The locale's lemmas are what the storage engine needs of any such
  store; the theory \<open>LevelDB\<close> interprets it on the model of the vendored database.
\<close>

section \<open>Key ranges\<close>

text \<open>\<open>[start, end)\<close> with an empty \<open>end\<close> for plus infinity, as everywhere in the code.\<close>

definition in_range :: "str \<Rightarrow> str \<Rightarrow> str \<Rightarrow> bool" where
  "in_range start end k \<longleftrightarrow> start \<le> k \<and> (end = [] \<or> k < end)"

definition before_end :: "str \<Rightarrow> str \<Rightarrow> bool" where
  "before_end end k \<longleftrightarrow> end = [] \<or> k < end"

lemma in_range_iff: "in_range start end k \<longleftrightarrow> start \<le> k \<and> before_end end k"
  by (simp add: in_range_def before_end_def)

lemma before_end_antimono: "before_end e k' \<Longrightarrow> k \<le> k' \<Longrightarrow> before_end e k"
  by (auto simp: before_end_def)

section \<open>Sorted association lists\<close>

abbreviation sorted_keys :: "(str \<times> 'a) list \<Rightarrow> bool" where
  "sorted_keys ps \<equiv> sorted_wrt (<) (map fst ps)"

lemma sorted_keys_distinct: "sorted_keys ps \<Longrightarrow> distinct (map fst ps)"
  by (simp add: strict_sorted_iff)

lemma map_of_filter_key:
  "map_of (filter (\<lambda>p. P (fst p)) ps) k = (if P k then map_of ps k else None)"
  by (induction ps) auto

lemma takeWhile_filter_sorted:
  assumes "sorted_keys ps" "\<And>k k'. P k' \<Longrightarrow> k \<le> k' \<Longrightarrow> P k"
  shows "takeWhile (\<lambda>p. P (fst p)) ps = filter (\<lambda>p. P (fst p)) ps"
  using assms
proof (induction ps)
  case Nil
  then show ?case by simp
next
  case (Cons p ps)
  show ?case
  proof (cases "P (fst p)")
    case True
    with Cons show ?thesis by simp
  next
    case False
    with Cons.prems have "\<forall>q \<in> set ps. \<not> P (fst q)" by fastforce
    with False show ?thesis by (simp add: filter_empty_conv)
  qed
qed

lemma map_of_rebuild:
  assumes "distinct (map fst ps)"
  shows "ps = map (\<lambda>k. (k, the (map_of ps k))) (map fst ps)"
  using assms by (auto intro!: map_idI [symmetric] simp: comp_def)

lemma sorted_keys_unique:
  assumes "sorted_keys ps" "sorted_keys qs" "map_of ps = map_of qs"
  shows "ps = qs"
proof -
  have d: "distinct (map fst ps)" "distinct (map fst qs)"
    using assms(1,2) by (auto intro: sorted_keys_distinct)
  have "set (map fst ps) = set (map fst qs)"
    using assms(3) by (metis dom_map_of_conv_image_fst set_map)
  then have "map fst ps = map fst qs"
    using assms(1,2) by (intro sorted_distinct_set_unique) (auto simp: strict_sorted_iff)
  then show ?thesis
    using map_of_rebuild [OF d(1)] map_of_rebuild [OF d(2)] assms(3) by metis
qed

section \<open>The interface\<close>

locale ordered_kv =
  fixes put :: "str \<Rightarrow> str \<Rightarrow> 'd \<Rightarrow> bool \<times> 'd"
    and del :: "str \<Rightarrow> 'd \<Rightarrow> bool \<times> 'd"
    and get :: "str \<Rightarrow> 'd \<Rightarrow> str option"
    and scan :: "str \<Rightarrow> 'd \<Rightarrow> (str \<times> str) list"
    and inv :: "'d \<Rightarrow> bool"
    and writable :: "'d \<Rightarrow> bool"
  assumes put_status: "fst (put k v d) = writable d"
    and del_status: "fst (del k d) = writable d"
    and put_inv: "inv d \<Longrightarrow> inv (snd (put k v d))"
    and del_inv: "inv d \<Longrightarrow> inv (snd (del k d))"
    and put_writable: "writable (snd (put k v d)) = writable d"
    and del_writable: "writable (snd (del k d)) = writable d"
    and get_put: "inv d \<Longrightarrow> get k' (snd (put k v d)) = (if k' = k \<and> writable d then Some v else get k' d)"
    and get_del: "inv d \<Longrightarrow> get k' (snd (del k d)) = (if k' = k \<and> writable d then None else get k' d)"
    and scan_sorted: "inv d \<Longrightarrow> sorted_keys (scan start d)"
    and scan_map: "inv d \<Longrightarrow> map_of (scan start d) k = (if start \<le> k then get k d else None)"
begin

definition range_pairs :: "str \<Rightarrow> str \<Rightarrow> 'd \<Rightarrow> (str \<times> str) list" where
  "range_pairs start end d = takeWhile (\<lambda>p. before_end end (fst p)) (scan start d)"

lemma range_pairs_filter:
  "inv d \<Longrightarrow> range_pairs start end d = filter (\<lambda>p. before_end end (fst p)) (scan start d)"
  unfolding range_pairs_def
  by (intro takeWhile_filter_sorted scan_sorted) (auto intro: before_end_antimono)

lemma range_pairs_sorted: "inv d \<Longrightarrow> sorted_keys (range_pairs start end d)"
  using scan_sorted [of d start]
  by (simp add: range_pairs_filter sorted_wrt_map sorted_wrt_filter)

lemma map_of_range_pairs:
  "inv d \<Longrightarrow> map_of (range_pairs start end d) k = (if in_range start end k then get k d else None)"
  by (simp add: range_pairs_filter scan_map in_range_iff map_of_filter_key)

lemma range_keys:
  assumes "inv d"
  shows "set (map fst (range_pairs start end d)) = {k. in_range start end k \<and> get k d \<noteq> None}"
proof -
  have "k \<in> set (map fst (range_pairs start end d)) \<longleftrightarrow> in_range start end k \<and> get k d \<noteq> None" for k
    using map_of_range_pairs [OF assms, of start "end" k] map_of_eq_None_iff [of "range_pairs start end d" k]
    by (auto split: if_splits)
  then show ?thesis by blast
qed

lemma range_pairs_cong:
  assumes "inv d" "inv d'" "\<And>k. in_range start end k \<Longrightarrow> get k d = get k d'"
  shows "range_pairs start end d = range_pairs start end d'"
  using assms
  by (intro sorted_keys_unique range_pairs_sorted ext) (auto simp: map_of_range_pairs)

text \<open>Deleting a list of keys one after the other.\<close>

lemma fold_del:
  assumes "inv d"
  shows "inv (fold (\<lambda>k d. snd (del k d)) ks d)
    \<and> writable (fold (\<lambda>k d. snd (del k d)) ks d) = writable d
    \<and> get k (fold (\<lambda>k d. snd (del k d)) ks d) = (if k \<in> set ks \<and> writable d then None else get k d)"
  using assms
  by (induction ks arbitrary: d) (auto simp: del_inv del_writable get_del)

end

end
