(* ===== verification/Route_Search.thy ===== *)
theory Route_Search
  imports KV_Interface
begin

text \<open>
  The routing lookup that the master (\<open>RaftNode::FindTabletIndex\<close> with
  \<open>GetTabletRoute\<close>) and the command line client (\<open>LekvCli::FindRoute\<close>) both run: a
  binary search for the last entry that starts at or before the key, then a check of that
  entry's end. The two tables differ in their entry type, so the search takes the projection
  to the start key, and its correctness is proved once.
\<close>

section \<open>The binary search\<close>

function upper_bound_loop :: "('a \<Rightarrow> str) \<Rightarrow> 'a list \<Rightarrow> str \<Rightarrow> nat \<Rightarrow> nat \<Rightarrow> nat" where
  "upper_bound_loop start ts key left right =
     (if left < right then
        (let mid = left + (right - left) div 2
         in if start (ts ! mid) \<le> key then upper_bound_loop start ts key (mid + 1) right
            else upper_bound_loop start ts key left mid)
      else left)"
  by pat_completeness auto
termination
  by (relation "measure (\<lambda>(start, ts, key, left, right). right - left)") (auto; linarith)+

declare upper_bound_loop.simps [simp del]

text \<open>The loop stays in its bounds and ends at the border between the entries that start at
  or before the key and those that start after it.\<close>

lemma upper_bound_loop_border:
  assumes "left \<le> right" "right \<le> length ts" "sorted (map start ts)"
    and "\<forall>i < left. start (ts ! i) \<le> key" "\<forall>i. right \<le> i \<and> i < length ts \<longrightarrow> key < start (ts ! i)"
  shows "upper_bound_loop start ts key left right \<le> length ts
    \<and> (\<forall>i < length ts. start (ts ! i) \<le> key \<longleftrightarrow> i < upper_bound_loop start ts key left right)"
  using assms
proof (induction start ts key left right rule: upper_bound_loop.induct)
  case (1 start ts key left right)
  show ?case
  proof (cases "left < right")
    case False
    with "1.prems" show ?thesis
      by (subst (1 2) upper_bound_loop.simps) (auto simp: not_less)
  next
    case True
    define mid where "mid = left + (right - left) div 2"
    have mid: "left \<le> mid" "mid < right" "mid < length ts" "mid < right"
      using True "1.prems"(2) by (auto simp: mid_def)
    have mono: "start (ts ! i) \<le> start (ts ! j)" if "i \<le> j" "j < length ts" for i j
      using "1.prems"(3) that sorted_nth_mono [of "map start ts" i j] by simp
    show ?thesis
    proof (cases "start (ts ! mid) \<le> key")
      case le: True
      have "\<forall>i < mid + 1. start (ts ! i) \<le> key"
        using mono [of _ mid] le mid by (auto simp: less_Suc_eq_le intro: order.trans)
      with "1.IH"(1) [OF True mid_def le] "1.prems" mid have
        "upper_bound_loop start ts key (mid + 1) right \<le> length ts
         \<and> (\<forall>i < length ts. start (ts ! i) \<le> key \<longleftrightarrow> i < upper_bound_loop start ts key (mid + 1) right)"
        by simp
      with True le show ?thesis
        by (simp add: upper_bound_loop.simps [of start ts key left right] Let_def flip: mid_def)
    next
      case gt: False
      have "\<forall>i. mid \<le> i \<and> i < length ts \<longrightarrow> key < start (ts ! i)"
        using mono [of mid] gt by (auto simp: not_le intro: order.strict_trans2)
      with "1.IH"(2) [OF True mid_def gt] "1.prems" mid have
        "upper_bound_loop start ts key left mid \<le> length ts
         \<and> (\<forall>i < length ts. start (ts ! i) \<le> key \<longleftrightarrow> i < upper_bound_loop start ts key left mid)"
        by simp
      with True gt show ?thesis
        by (simp add: upper_bound_loop.simps [of start ts key left right] Let_def flip: mid_def)
    qed
  qed
qed

corollary upper_bound_border:
  assumes "sorted (map start ts)"
  shows "upper_bound_loop start ts key 0 (length ts) \<le> length ts
    \<and> (\<forall>i < length ts. start (ts ! i) \<le> key \<longleftrightarrow> i < upper_bound_loop start ts key 0 (length ts))"
  by (rule upper_bound_loop_border) (use assms in auto)

section \<open>Tables that partition the key space\<close>

text \<open>
  \<open>partitions lo hi s ts\<close>: the entries' ranges follow each other without gap or overlap from
  \<open>s\<close> up to plus infinity (the empty end key).
\<close>

fun partitions :: "('a \<Rightarrow> str) \<Rightarrow> ('a \<Rightarrow> str) \<Rightarrow> str \<Rightarrow> 'a list \<Rightarrow> bool" where
  "partitions lo hi s [] = False"
| "partitions lo hi s [t] = (lo t = s \<and> hi t = [])"
| "partitions lo hi s (t # u # ts) = (lo t = s \<and> s < hi t \<and> partitions lo hi (hi t) (u # ts))"

text \<open>The lookup: \<open>None\<close> where the code returns \<open>false\<close>.\<close>

definition lookup_range ::
  "('a \<Rightarrow> str) \<Rightarrow> ('a \<Rightarrow> str) \<Rightarrow> 'a list \<Rightarrow> str \<Rightarrow> 'a option" where
  "lookup_range lo hi ts key =
     (let left = upper_bound_loop lo ts key 0 (length ts)
      in if left = 0 then None
         else (let t = ts ! (left - 1)
               in if hi t \<noteq> [] \<and> hi t \<le> key then None else Some t))"

lemma partitions_start: "partitions lo hi s (t # ts) \<Longrightarrow> lo t = s"
  by (cases ts) auto

lemma partitions_ge: "partitions lo hi s ts \<Longrightarrow> t \<in> set ts \<Longrightarrow> s \<le> lo t"
proof (induction lo hi s ts rule: partitions.induct)
  case (3 lo hi s t' u ts)
  then show ?case by (auto dest: order.strict_implies_order intro: order.trans)
qed auto

lemma partitions_tail_gt:
  assumes "partitions lo hi s (t # ts)" "u \<in> set ts"
  shows "hi t \<le> lo u" "s < hi t"
  using assms partitions_ge [of lo hi "hi t" ts u] by (cases ts; auto)+

lemma partitions_sorted: "partitions lo hi s ts \<Longrightarrow> sorted_wrt (<) (map lo ts)"
proof (induction lo hi s ts rule: partitions.induct)
  case (3 lo hi s t u ts)
  then show ?case
    using partitions_ge [of lo hi "hi t" "u # ts"] by (auto intro: order.strict_trans2)
qed auto

lemma in_range_disjoint_prefix:
  assumes "partitions lo hi s (t # ts)" "in_range (lo t) (hi t) key" "u \<in> set ts"
  shows "\<not> in_range (lo u) (hi u) key"
  using partitions_tail_gt [OF assms(1,3)] assms(2) by (auto simp: in_range_def)

lemma partitions_cover:
  assumes "partitions lo hi s ts" "s \<le> key"
  shows "\<exists>t \<in> set ts. in_range (lo t) (hi t) key"
  using assms
proof (induction lo hi s ts rule: partitions.induct)
  case (3 lo hi s t u ts)
  show ?case
  proof (cases "hi t \<le> key")
    case True
    with 3 show ?thesis by auto
  next
    case False
    with 3 have "in_range (lo t) (hi t) key" by (auto simp: in_range_def not_le)
    then show ?thesis by simp
  qed
qed (auto simp: in_range_def)

lemma partitions_unique:
  assumes "partitions lo hi s ts" "t \<in> set ts" "u \<in> set ts"
    and "in_range (lo t) (hi t) key" "in_range (lo u) (hi u) key"
  shows "t = u"
  using assms
proof (induction lo hi s ts rule: partitions.induct)
  case (3 lo hi s t' u' ts)
  then show ?case
    using in_range_disjoint_prefix [of lo hi s t' "u' # ts" key] by auto
qed auto

lemma partitions_nth:
  assumes "partitions lo hi s ts" "i < j" "j < length ts"
  shows "hi (ts ! i) \<le> lo (ts ! j) \<and> hi (ts ! i) \<noteq> []"
  using assms
proof (induction lo hi s ts arbitrary: i j rule: partitions.induct)
  case (3 lo hi s t u ts)
  then obtain j' where j: "j = Suc j'" by (cases j) auto
  show ?case
  proof (cases i)
    case 0
    have "(u # ts) ! j' \<in> set (u # ts)" using 3 j by (intro nth_mem) simp
    then have "hi t \<le> lo ((u # ts) ! j')" using 3 partitions_ge by fastforce
    with 0 3 j show ?thesis by auto
  next
    case (Suc i')
    then show ?thesis using 3 j by auto
  qed
qed auto

text \<open>In a table that partitions the key space the lookup finds the entry that owns the key.\<close>

lemma lookup_range_finds:
  assumes "partitions lo hi [] ts"
  shows "\<exists>t \<in> set ts. lookup_range lo hi ts key = Some t \<and> in_range (lo t) (hi t) key"
proof -
  let ?n = "upper_bound_loop lo ts key 0 (length ts)"
  have "sorted (map lo ts)"
    using partitions_sorted [OF assms] by (simp add: strict_sorted_iff)
  then have border: "?n \<le> length ts" "\<And>i. i < length ts \<Longrightarrow> lo (ts ! i) \<le> key \<longleftrightarrow> i < ?n"
    using upper_bound_border by blast+
  obtain j where j: "j < length ts" "in_range (lo (ts ! j)) (hi (ts ! j)) key"
    using partitions_cover [OF assms, of key] by (auto simp: in_set_conv_nth)
  with border have "j < ?n" by (auto simp: in_range_def)
  moreover have "\<not> j < ?n - 1"
  proof
    assume lt: "j < ?n - 1"
    with border have "?n - 1 < length ts" "lo (ts ! (?n - 1)) \<le> key" by auto
    with partitions_nth [OF assms lt] j(2) show False by (auto simp: in_range_def)
  qed
  ultimately have "?n - 1 = j" by simp
  then show ?thesis
    using \<open>j < ?n\<close> j by (auto simp: lookup_range_def Let_def in_range_def)
qed

text \<open>Replacing an entry by two that meet at a key inside its range keeps the partition.\<close>

lemma partitions_split:
  assumes "partitions lo hi s (xs @ t # ys)" "lo l = lo t" "hi l = m" "lo r = m" "hi r = hi t"
    and "lo t < m" "hi t = [] \<or> m < hi t"
  shows "partitions lo hi s (xs @ l # r # ys)"
  using assms
proof (induction xs arbitrary: s)
  case Nil
  then show ?case by (cases ys) auto
next
  case (Cons x xs)
  then show ?case by (cases xs) auto
qed

text \<open>Changing other fields of an entry keeps the partition.\<close>

lemma partitions_replace:
  assumes "partitions lo hi s (xs @ t # ys)" "lo u = lo t" "hi u = hi t"
  shows "partitions lo hi s (xs @ u # ys)"
  using assms
proof (induction xs arbitrary: s)
  case Nil
  then show ?case by (cases ys) auto
next
  case (Cons x xs)
  then show ?case by (cases xs) auto
qed

lemma partitions_map:
  assumes "\<And>t. t \<in> set ts \<Longrightarrow> lo (f t) = lo t \<and> hi (f t) = hi t"
  shows "partitions lo hi s (map f ts) = partitions lo hi s ts"
  using assms
proof (induction lo hi s ts rule: partitions.induct)
  case (3 lo hi s t u ts)
  then show ?case by simp
qed auto

end
