(* ===== verification/LevelDB.thy ===== *)
theory LevelDB
  imports KV_Interface
begin

text \<open>
  The part of the vendored LevelDB (\<open>src/third_party/leveldb/db\<close>) that the storage engine
  runs on: internal keys and their order (\<open>dbformat\<close>), the memtable (\<open>memtable.cc\<close>), a
  single-writer \<open>DBImpl::Write\<close>, \<open>DBImpl::Get\<close> at the latest sequence number, and the
  forward direction of \<open>DBIter\<close>. The memtable's skip list is the sorted list of its entries;
  flushing to table files and compaction, which do not change what a reader sees, are left
  out, so every entry is in the memtable. A failing log append (\<open>log_->AddRecord\<close>) is the
  flag \<open>log_ok\<close>. Sequence numbers are natural numbers: the 56-bit bound is not modelled.
\<close>

section \<open>Internal keys\<close>

datatype value_type = kTypeDeletion | kTypeValue

datatype internal_key = IKey (ik_user: str) (ik_seq: nat) (ik_type: value_type)

fun type_code :: "value_type \<Rightarrow> nat" where
  "type_code kTypeDeletion = 0"
| "type_code kTypeValue = 1"

definition PackSequenceAndType :: "nat \<Rightarrow> value_type \<Rightarrow> nat" where
  "PackSequenceAndType seq t = seq * 256 + type_code t"

abbreviation ik_tag :: "internal_key \<Rightarrow> nat" where
  "ik_tag k \<equiv> PackSequenceAndType (ik_seq k) (ik_type k)"

lemma type_code_le: "type_code t \<le> 1"
  by (cases t) auto

lemma type_code_inj: "type_code t = type_code u \<Longrightarrow> t = u"
  by (cases t; cases u) auto

lemma Pack_inj: "PackSequenceAndType s t = PackSequenceAndType s' t' \<Longrightarrow> s = s' \<and> t = t'"
  by (cases t; cases t') (simp_all add: PackSequenceAndType_def, presburger+)

text \<open>
  \<open>InternalKeyComparator::Compare\<close>, as the sign of its result: by increasing user key, then by
  decreasing sequence number and type.
\<close>

definition InternalKey_Compare :: "internal_key \<Rightarrow> internal_key \<Rightarrow> int" where
  "InternalKey_Compare a b =
     (if ik_user a < ik_user b then -1
      else if ik_user b < ik_user a then 1
      else if ik_tag b < ik_tag a then -1
      else if ik_tag a < ik_tag b then 1
      else 0)"

instantiation internal_key :: linorder
begin

definition less_eq_internal_key :: "internal_key \<Rightarrow> internal_key \<Rightarrow> bool" where
  "a \<le> b \<longleftrightarrow> InternalKey_Compare a b \<le> 0"

definition less_internal_key :: "internal_key \<Rightarrow> internal_key \<Rightarrow> bool" where
  "a < b \<longleftrightarrow> InternalKey_Compare a b < 0"

instance
proof
  fix x y z :: internal_key
  show "x < y \<longleftrightarrow> x \<le> y \<and> \<not> y \<le> x"
    by (auto simp: less_eq_internal_key_def less_internal_key_def InternalKey_Compare_def)
  show "x \<le> x" by (simp add: less_eq_internal_key_def InternalKey_Compare_def)
  show "x \<le> y \<Longrightarrow> y \<le> z \<Longrightarrow> x \<le> z"
    by (auto simp: less_eq_internal_key_def InternalKey_Compare_def split: if_splits)
  show "x \<le> y \<or> y \<le> x" by (auto simp: less_eq_internal_key_def InternalKey_Compare_def)
  show "x \<le> y \<Longrightarrow> y \<le> x \<Longrightarrow> x = y"
    by (cases x; cases y) (auto simp: less_eq_internal_key_def InternalKey_Compare_def dest: Pack_inj split: if_splits)
qed

end

lemma internal_key_order:
  "a \<le> b \<longleftrightarrow> ik_user a < ik_user b \<or> ik_user a = ik_user b \<and> ik_tag b \<le> ik_tag a"
  "a < b \<longleftrightarrow> ik_user a < ik_user b \<or> ik_user a = ik_user b \<and> ik_tag b < ik_tag a"
  by (auto simp: less_eq_internal_key_def less_internal_key_def InternalKey_Compare_def)

section \<open>The memtable\<close>

type_synonym entry = "internal_key \<times> str"

definition MemTable_Add :: "nat \<Rightarrow> value_type \<Rightarrow> str \<Rightarrow> str \<Rightarrow> entry list \<Rightarrow> entry list" where
  "MemTable_Add s t key val mem = insort_key fst (IKey key s t, val) mem"

definition MemTable_Seek :: "internal_key \<Rightarrow> entry list \<Rightarrow> entry list" where
  "MemTable_Seek k mem = dropWhile (\<lambda>e. fst e < k) mem"

text \<open>\<open>None\<close> is \<open>return false\<close>; \<open>Some None\<close> is the status \<open>NotFound\<close>.\<close>

definition MemTable_Get :: "str \<Rightarrow> nat \<Rightarrow> entry list \<Rightarrow> str option option" where
  "MemTable_Get key snapshot mem =
     (case MemTable_Seek (IKey key snapshot kTypeValue) mem of
        [] \<Rightarrow> None
      | (ik, v) # _ \<Rightarrow>
          if ik_user ik = key
          then (case ik_type ik of kTypeValue \<Rightarrow> Some (Some v) | kTypeDeletion \<Rightarrow> Some None)
          else None)"

section \<open>The database\<close>

record db =
  mem :: "entry list"
  last_sequence :: nat
  log_ok :: bool

definition DB_Open :: db where
  "DB_Open = \<lparr>mem = [], last_sequence = 0, log_ok = True\<rparr>"

definition DB_Write :: "value_type \<Rightarrow> str \<Rightarrow> str \<Rightarrow> db \<Rightarrow> bool \<times> db" where
  "DB_Write t key val d =
     (let sequence = last_sequence d + 1;
          status = log_ok d
      in (status,
          d\<lparr>mem := (if status then MemTable_Add sequence t key val (mem d) else mem d),
            last_sequence := sequence\<rparr>))"

definition DB_Put :: "str \<Rightarrow> str \<Rightarrow> db \<Rightarrow> bool \<times> db" where
  "DB_Put key val d = DB_Write kTypeValue key val d"

definition DB_Delete :: "str \<Rightarrow> db \<Rightarrow> bool \<times> db" where
  "DB_Delete key d = DB_Write kTypeDeletion key [] d"

definition DB_Get :: "str \<Rightarrow> db \<Rightarrow> str option" where
  "DB_Get key d =
     (case MemTable_Get key (last_sequence d) (mem d) of
        Some (Some v) \<Rightarrow> Some v
      | _ \<Rightarrow> None)"

section \<open>The forward iterator\<close>

text \<open>
  An iterator is the list of memtable entries from its position on; it is valid when the list
  is not empty, and then its head is the current entry.
\<close>

fun FindNextUserEntry :: "nat \<Rightarrow> bool \<Rightarrow> str \<Rightarrow> entry list \<Rightarrow> entry list" where
  "FindNextUserEntry sequence skipping skip [] = []"
| "FindNextUserEntry sequence skipping skip ((ik, v) # es) =
     (if ik_seq ik \<le> sequence
      then (case ik_type ik of
              kTypeDeletion \<Rightarrow> FindNextUserEntry sequence True (ik_user ik) es
            | kTypeValue \<Rightarrow>
                if skipping \<and> ik_user ik \<le> skip
                then FindNextUserEntry sequence skipping skip es
                else (ik, v) # es)
      else FindNextUserEntry sequence skipping skip es)"

definition DBIter_Seek :: "str \<Rightarrow> db \<Rightarrow> entry list" where
  "DBIter_Seek target d =
     FindNextUserEntry (last_sequence d) False target
       (MemTable_Seek (IKey target (last_sequence d) kTypeValue) (mem d))"

fun DBIter_Next :: "nat \<Rightarrow> entry list \<Rightarrow> entry list" where
  "DBIter_Next sequence [] = []"
| "DBIter_Next sequence ((ik, v) # es) = FindNextUserEntry sequence True (ik_user ik) es"

lemma length_FindNextUserEntry: "length (FindNextUserEntry sq b s es) \<le> length es"
proof (induction sq b s es rule: FindNextUserEntry.induct)
  case (2 sequence skipping skip ik v es)
  then show ?case by (cases "ik_seq ik \<le> sequence") (auto split: value_type.split intro: le_SucI)
qed simp

lemma length_DBIter_Next: "it \<noteq> [] \<Longrightarrow> length (DBIter_Next sq it) < length it"
  by (cases it) (auto simp: less_Suc_eq_le length_FindNextUserEntry)

text \<open>All key/value pairs an iterator yields from its position on.\<close>

function iterate :: "nat \<Rightarrow> entry list \<Rightarrow> (str \<times> str) list" where
  "iterate sequence it =
     (case it of
        [] \<Rightarrow> []
      | (ik, v) # _ \<Rightarrow> (ik_user ik, v) # iterate sequence (DBIter_Next sequence it))"
  by pat_completeness auto
termination
  by (relation "measure (\<lambda>(sq, it). length it)") (auto simp: less_Suc_eq_le length_FindNextUserEntry)

declare iterate.simps [simp del]

lemma iterate_Nil [simp]: "iterate sq [] = []"
  by (simp add: iterate.simps)

lemma iterate_Cons:
  "iterate sq ((ik, v) # es) = (ik_user ik, v) # iterate sq (FindNextUserEntry sq True (ik_user ik) es)"
  by (subst iterate.simps) simp

section \<open>Well-formedness and the map a database denotes\<close>

definition db_inv :: "db \<Rightarrow> bool" where
  "db_inv d \<longleftrightarrow> sorted (map fst (mem d)) \<and> distinct (map fst (mem d))
     \<and> (\<forall>e \<in> set (mem d). ik_seq (fst e) \<le> last_sequence d)"

fun entry_value :: "entry list \<Rightarrow> str option" where
  "entry_value [] = None"
| "entry_value ((ik, v) # _) = (case ik_type ik of kTypeValue \<Rightarrow> Some v | kTypeDeletion \<Rightarrow> None)"

definition newest :: "entry list \<Rightarrow> str \<Rightarrow> str option" where
  "newest es k = entry_value (filter (\<lambda>e. ik_user (fst e) = k) es)"

lemma db_inv_Open [simp]: "db_inv DB_Open"
  by (simp add: db_inv_def DB_Open_def)

lemma ik_less_target:
  assumes "ik_seq ik \<le> sq"
  shows "ik < IKey k sq kTypeValue \<longleftrightarrow> ik_user ik < k"
proof -
  have "ik_tag ik \<le> PackSequenceAndType sq kTypeValue"
    using assms type_code_le [of "ik_type ik"] by (simp add: PackSequenceAndType_def)
  then show ?thesis by (auto simp: internal_key_order(2))
qed

lemma MemTable_Seek_user:
  assumes "\<forall>e \<in> set es. ik_seq (fst e) \<le> sq"
  shows "MemTable_Seek (IKey k sq kTypeValue) es = dropWhile (\<lambda>e. ik_user (fst e) < k) es"
  unfolding MemTable_Seek_def using assms by (intro dropWhile_cong) (auto simp: ik_less_target)

lemma sorted_users:
  assumes "sorted (map fst (es :: entry list))"
  shows "sorted (map (\<lambda>e. ik_user (fst e)) es)"
  using assms by (induction es) (auto simp: internal_key_order(1))

text \<open>In a list sorted by user key, the entries of a key are the head of what is left after
  the smaller ones.\<close>

lemma seek_newest:
  assumes "sorted (map (\<lambda>e. ik_user (fst e)) es)"
  shows "newest es k = (case dropWhile (\<lambda>e. ik_user (fst e) < k) es of
      [] \<Rightarrow> None
    | e # es' \<Rightarrow> if ik_user (fst e) = k then entry_value (e # es') else None)"
  using assms
proof (induction es)
  case Nil
  then show ?case by (simp add: newest_def)
next
  case (Cons e es)
  consider "ik_user (fst e) < k" | "ik_user (fst e) = k" | "k < ik_user (fst e)" by fastforce
  then show ?case
  proof cases
    case 1
    with Cons show ?thesis by (auto simp: newest_def)
  next
    case 2
    then show ?thesis by (cases e) (simp add: newest_def)
  next
    case 3
    with Cons.prems have "filter (\<lambda>e. ik_user (fst e) = k) (e # es) = []"
      by (auto simp: filter_empty_conv)
    with 3 show ?thesis unfolding newest_def by auto
  qed
qed

lemma DB_Get_newest:
  assumes "db_inv d"
  shows "DB_Get k d = newest (mem d) k"
proof -
  have "newest (mem d) k = (case dropWhile (\<lambda>e. ik_user (fst e) < k) (mem d) of
      [] \<Rightarrow> None
    | e # es' \<Rightarrow> if ik_user (fst e) = k then entry_value (e # es') else None)"
    using assms by (intro seek_newest sorted_users) (simp add: db_inv_def)
  moreover have "MemTable_Seek (IKey k (last_sequence d) kTypeValue) (mem d)
      = dropWhile (\<lambda>e. ik_user (fst e) < k) (mem d)"
    using assms by (intro MemTable_Seek_user) (simp add: db_inv_def)
  ultimately show ?thesis
    by (cases "dropWhile (\<lambda>e. ik_user (fst e) < k) (mem d)")
      (auto simp: DB_Get_def MemTable_Get_def split: value_type.split)
qed

section \<open>Writes\<close>

lemma newer_first:
  assumes "ik_user ik = k" "ik_seq ik < s"
  shows "IKey k s t \<le> ik"
  using assms type_code_le [of "ik_type ik"]
  by (simp add: internal_key_order(1) PackSequenceAndType_def)

lemma map_insort_fst: "map fst (insort_key fst x xs) = insort (fst x) (map fst xs)"
  by (induction xs) auto

lemma newest_Add:
  assumes "sorted (map fst es)" "\<forall>e \<in> set es. ik_seq (fst e) < s"
  shows "newest (MemTable_Add s t k v es) k'
    = (if k' = k then entry_value [(IKey k s t, v)] else newest es k')"
proof (cases "k' = k")
  case False
  then show ?thesis by (simp add: newest_def MemTable_Add_def filter_insort_triv)
next
  case True
  let ?x = "(IKey k s t, v)"
  have "\<forall>e \<in> set (filter (\<lambda>e. ik_user (fst e) = k) es). fst ?x \<le> fst e"
    using assms(2) by (auto intro!: newer_first)
  then have "insort_key fst ?x (filter (\<lambda>e. ik_user (fst e) = k) es)
      = ?x # filter (\<lambda>e. ik_user (fst e) = k) es"
    by (intro insort_is_Cons) auto
  then show ?thesis
    using True assms(1) by (simp add: newest_def MemTable_Add_def filter_insort)
qed

lemma db_inv_Write:
  assumes "db_inv d"
  shows "db_inv (snd (DB_Write t k v d))"
proof -
  have "IKey k (Suc (last_sequence d)) t \<notin> set (map fst (mem d))"
    using assms by (fastforce simp: db_inv_def)
  then have "distinct (map fst (insort_key fst (IKey k (Suc (last_sequence d)) t, v) (mem d)))"
    using assms by (simp add: db_inv_def map_insort_fst distinct_insort del: set_map)
  then show ?thesis
    using assms by (auto simp: db_inv_def DB_Write_def Let_def MemTable_Add_def
      sorted_insort_key set_insort_key)
qed

lemma DB_Get_Write:
  assumes "db_inv d"
  shows "DB_Get k' (snd (DB_Write t k v d))
    = (if k' = k \<and> log_ok d then entry_value [(IKey k (last_sequence d + 1) t, v)]
       else DB_Get k' d)"
proof -
  have "newest (MemTable_Add (last_sequence d + 1) t k v (mem d)) k'
      = (if k' = k then entry_value [(IKey k (last_sequence d + 1) t, v)] else newest (mem d) k')"
    using assms by (intro newest_Add) (auto simp: db_inv_def)
  then show ?thesis
    using DB_Get_newest [OF db_inv_Write [OF assms, of t k v]] DB_Get_newest [OF assms]
    by (cases "log_ok d"; cases "k' = k") (simp_all add: DB_Write_def Let_def)
qed

section \<open>What an iterator yields\<close>

text \<open>
  \<open>visible skip es\<close> walks the entries once: a key's newest entry decides, the older ones
  are skipped.
\<close>

fun visible :: "str option \<Rightarrow> entry list \<Rightarrow> (str \<times> str) list" where
  "visible skip [] = []"
| "visible skip ((ik, v) # es) =
     (case ik_type ik of
        kTypeDeletion \<Rightarrow> visible (Some (ik_user ik)) es
      | kTypeValue \<Rightarrow>
          (case skip of
             Some s \<Rightarrow> if ik_user ik \<le> s then visible skip es
                       else (ik_user ik, v) # visible (Some (ik_user ik)) es
           | None \<Rightarrow> (ik_user ik, v) # visible (Some (ik_user ik)) es))"

lemma iterate_FindNext:
  assumes "\<forall>e \<in> set es. ik_seq (fst e) \<le> sq"
  shows "iterate sq (FindNextUserEntry sq skipping skip es)
    = visible (if skipping then Some skip else None) es"
  using assms
proof (induction es arbitrary: skipping skip)
  case Nil
  then show ?case by simp
next
  case (Cons e es)
  obtain ik v where e: "e = (ik, v)" by (cases e)
  have le: "ik_seq ik \<le> sq" using Cons.prems e by simp
  have IH: "iterate sq (FindNextUserEntry sq b s es) = visible (if b then Some s else None) es" for b s
    using Cons by simp
  show ?case
    by (cases "ik_type ik") (auto simp: e le IH iterate_Cons)
qed

definition user_sorted :: "entry list \<Rightarrow> bool" where
  "user_sorted es \<longleftrightarrow> sorted (map (\<lambda>e. ik_user (fst e)) es)"

lemma visible_keys:
  assumes "user_sorted es" "\<forall>s. skip = Some s \<longrightarrow> (\<forall>e \<in> set es. s \<le> ik_user (fst e))"
  shows "sorted_wrt (<) (map fst (visible skip es))
    \<and> (\<forall>k \<in> set (map fst (visible skip es)). (\<forall>s. skip = Some s \<longrightarrow> s < k)
         \<and> k \<in> (\<lambda>e. ik_user (fst e)) ` set es)"
  using assms
proof (induction skip es rule: visible.induct)
  case (1 skip)
  then show ?case by simp
next
  case (2 skip ik v es)
  have tl: "user_sorted es" "\<forall>e \<in> set es. ik_user ik \<le> ik_user (fst e)"
    using "2.prems"(1) by (auto simp: user_sorted_def)
  show ?case
  proof (cases "ik_type ik")
    case kTypeDeletion
    with "2.IH"(1) [OF kTypeDeletion] tl "2.prems"(2) show ?thesis by force
  next
    case val: kTypeValue
    show ?thesis
    proof (cases "\<exists>s. skip = Some s \<and> ik_user ik \<le> s")
      case True
      then obtain s where s: "skip = Some s" "ik_user ik \<le> s" by blast
      with "2.IH"(3) [OF val s] tl "2.prems"(2) val show ?thesis by auto
    next
      case False
      then have eq: "visible skip ((ik, v) # es) = (ik_user ik, v) # visible (Some (ik_user ik)) es"
        using val by (auto split: option.split)
      have "sorted_wrt (<) (map fst (visible (Some (ik_user ik)) es))
        \<and> (\<forall>k \<in> set (map fst (visible (Some (ik_user ik)) es)). ik_user ik < k
             \<and> k \<in> (\<lambda>e. ik_user (fst e)) ` set es)"
      proof (cases skip)
        case None
        with "2.IH"(2) [OF val None] tl show ?thesis by simp
      next
        case (Some s)
        with "2.IH"(4) [OF val Some] False tl show ?thesis by auto
      qed
      with False eq show ?thesis by (auto intro: order.strict_trans)
    qed
  qed
qed

lemma newest_absent:
  assumes "\<forall>e \<in> set es. ik_user (fst e) \<noteq> k"
  shows "newest es k = None"
proof -
  have "filter (\<lambda>e. ik_user (fst e) = k) es = []"
    using assms by (simp add: filter_empty_conv)
  then show ?thesis by (simp add: newest_def)
qed

lemma map_of_visible:
  assumes "user_sorted es" "\<forall>s. skip = Some s \<longrightarrow> (\<forall>e \<in> set es. s \<le> ik_user (fst e))"
  shows "map_of (visible skip es) k = (if skip = Some k then None else newest es k)"
  using assms
proof (induction es arbitrary: skip)
  case Nil
  then show ?case by (simp add: newest_def)
next
  case (Cons e es)
  obtain ik v where e: "e = (ik, v)" by (cases e)
  let ?u = "ik_user ik"
  have tl: "user_sorted es" "\<forall>e \<in> set es. ?u \<le> ik_user (fst e)"
    using Cons.prems(1) e by (auto simp: user_sorted_def)
  have new: "newest (e # es) k = (if ?u = k then entry_value (e # es) else newest es k)"
    by (simp add: newest_def e)
  have IH: "map_of (visible (Some ?u) es) k = (if ?u = k then None else newest es k)"
    using Cons.IH [OF tl(1), of "Some ?u"] tl(2) by simp
  show ?case
  proof (cases "\<exists>s. skip = Some s \<and> ?u \<le> s")
    case True
    then have s: "skip = Some ?u" using Cons.prems(2) e by auto
    then show ?thesis
      using IH new e by (cases "ik_type ik") auto
  next
    case False
    then have lt: "newest es k = None \<and> ?u \<noteq> k" if "skip = Some k"
      using that tl(2) by (fastforce intro: newest_absent)
    have "visible skip (e # es) = (if ik_type ik = kTypeDeletion then visible (Some ?u) es
        else (?u, v) # visible (Some ?u) es)"
      using False e by (auto split: value_type.split option.split)
    then show ?thesis
      using IH new e lt by (cases "ik_type ik") auto
  qed
qed

definition db_scan :: "str \<Rightarrow> db \<Rightarrow> (str \<times> str) list" where
  "db_scan start d = iterate (last_sequence d) (DBIter_Seek start d)"

lemma user_sorted_dropWhile: "user_sorted es \<Longrightarrow> user_sorted (dropWhile P es)"
  by (induction es) (auto simp: user_sorted_def)

lemma newest_dropWhile:
  assumes "\<not> k < s"
  shows "newest (dropWhile (\<lambda>e. ik_user (fst e) < s) es) k = newest es k"
  using assms by (induction es) (auto simp: newest_def)

lemma dropWhile_users:
  assumes "user_sorted es" "e \<in> set (dropWhile (\<lambda>e. ik_user (fst e) < s) es)"
  shows "s \<le> ik_user (fst e)"
  using assms by (induction es) (auto simp: user_sorted_def split: if_splits)

lemma db_scan_visible:
  assumes "db_inv d"
  shows "db_scan start d = visible None (dropWhile (\<lambda>e. ik_user (fst e) < start) (mem d))"
proof -
  have le: "\<forall>e \<in> set (mem d). ik_seq (fst e) \<le> last_sequence d"
    using assms by (simp add: db_inv_def)
  then have "\<forall>e \<in> set (dropWhile (\<lambda>e. ik_user (fst e) < start) (mem d)).
      ik_seq (fst e) \<le> last_sequence d"
    by (auto dest: set_dropWhileD)
  with le show ?thesis
    by (simp add: db_scan_def DBIter_Seek_def MemTable_Seek_user iterate_FindNext)
qed

lemma db_scan_sound:
  assumes "db_inv d"
  shows "sorted_wrt (<) (map fst (db_scan start d))
    \<and> (\<forall>k. map_of (db_scan start d) k = (if start \<le> k then DB_Get k d else None))"
proof -
  let ?es = "dropWhile (\<lambda>e. ik_user (fst e) < start) (mem d)"
  have us: "user_sorted (mem d)"
    using assms by (simp add: user_sorted_def db_inv_def sorted_users)
  then have es: "user_sorted ?es" by (rule user_sorted_dropWhile)
  have "map_of (db_scan start d) k = (if start \<le> k then DB_Get k d else None)" for k
  proof (cases "start \<le> k")
    case True
    then show ?thesis
      using map_of_visible [OF es, of None k] newest_dropWhile [of k start "mem d"]
      by (simp add: db_scan_visible [OF assms] DB_Get_newest [OF assms] not_less)
  next
    case False
    then have "\<forall>e \<in> set ?es. ik_user (fst e) \<noteq> k"
      using dropWhile_users [OF us, of _ start] by blast
    then have "newest ?es k = None" by (rule newest_absent)
    then show ?thesis
      using False map_of_visible [OF es, of None k] by (simp add: db_scan_visible [OF assms])
  qed
  moreover have "sorted_wrt (<) (map fst (db_scan start d))"
    using visible_keys [OF es, of None] unfolding db_scan_visible [OF assms] by blast
  ultimately show ?thesis by blast
qed

section \<open>The store the storage engine sees\<close>

lemma log_ok_Write [simp]: "log_ok (snd (DB_Write t k v d)) = log_ok d"
  by (simp add: DB_Write_def Let_def)

lemma fst_DB_Write [simp]: "fst (DB_Write t k v d) = log_ok d"
  by (simp add: DB_Write_def Let_def)

interpretation ldb: ordered_kv DB_Put DB_Delete DB_Get db_scan db_inv log_ok
proof
  fix d :: db and start k :: str
  assume "db_inv d"
  then show "sorted_keys (db_scan start d)"
    and "map_of (db_scan start d) k = (if start \<le> k then DB_Get k d else None)"
    using db_scan_sound [of d] by blast+
qed (auto simp: DB_Put_def DB_Delete_def db_inv_Write DB_Get_Write)

end
