(* ===== verification/Storage_Engine.thy ===== *)
theory Storage_Engine
  imports LevelDB
begin

text \<open>
  \<open>StorageEngine\<close> of \<open>src/src/storage/storage_engine.{h,cpp}\<close> over the database model.
  The mutex serialises the writers, so each operation is one atomic function of the database.
  A callback of \<open>RangeQuery\<close> is a function on an accumulator that also says whether to go
  on.
\<close>

section \<open>Operations\<close>

definition SE_Put :: "str \<Rightarrow> str \<Rightarrow> db \<Rightarrow> bool \<times> db" where
  "SE_Put key value d = DB_Put key value d"

definition SE_Get :: "str \<Rightarrow> db \<Rightarrow> str option" where
  "SE_Get key d = (case DB_Get key d of Some value \<Rightarrow> Some value | None \<Rightarrow> None)"

definition SE_Delete :: "str \<Rightarrow> db \<Rightarrow> bool \<times> db" where
  "SE_Delete key d = DB_Delete key d"

function range_loop ::
  "str \<Rightarrow> (str \<Rightarrow> str \<Rightarrow> 'a \<Rightarrow> bool \<times> 'a) \<Rightarrow> nat \<Rightarrow> entry list \<Rightarrow> 'a \<Rightarrow> 'a" where
  "range_loop end cb sequence it acc =
     (case it of
        [] \<Rightarrow> acc
      | (ik, v) # _ \<Rightarrow>
          (let k = ik_user ik
           in if end \<noteq> [] \<and> end \<le> k then acc
              else (case cb k v acc of
                      (continue, acc') \<Rightarrow>
                        if \<not> continue then acc'
                        else range_loop end cb sequence (DBIter_Next sequence it) acc')))"
  by pat_completeness auto
termination
  by (relation "measure (\<lambda>(e, cb, sq, it, acc). length it)")
    (auto simp: less_Suc_eq_le length_FindNextUserEntry)

declare range_loop.simps [simp del]

definition RangeQuery ::
  "str \<Rightarrow> str \<Rightarrow> (str \<Rightarrow> str \<Rightarrow> 'a \<Rightarrow> bool \<times> 'a) \<Rightarrow> db \<Rightarrow> 'a \<Rightarrow> 'a" where
  "RangeQuery start end cb d acc = range_loop end cb (last_sequence d) (DBIter_Seek start d) acc"

definition RangeStats :: "str \<Rightarrow> str \<Rightarrow> db \<Rightarrow> bool \<times> nat \<times> str" where
  "RangeStats start end d =
     (let keys = RangeQuery start end (\<lambda>k _ keys. (True, keys @ [k])) d [];
          key_count = length keys
      in if key_count = 0 then (True, key_count, [])
         else (True, key_count, keys ! (key_count div 2)))"

definition SE_DeleteRange :: "str \<Rightarrow> str \<Rightarrow> db \<Rightarrow> bool \<times> db" where
  "SE_DeleteRange start end d =
     (let keys_to_delete = range_loop end (\<lambda>k _ keys. (True, keys @ [k]))
            (last_sequence d) (DBIter_Seek start d) []
      in (True, fold (\<lambda>k d. snd (DB_Delete k d)) keys_to_delete d))"

section \<open>Range queries\<close>

lemma range_loop_iterate:
  "range_loop end cb sq it acc =
     (case iterate sq it of
        [] \<Rightarrow> acc
      | (k, v) # _ \<Rightarrow>
          if \<not> before_end end k then acc
          else (case cb k v acc of (continue, acc') \<Rightarrow>
                 if \<not> continue then acc' else range_loop end cb sq (DBIter_Next sq it) acc'))"
  by (subst range_loop.simps)
    (auto simp: iterate_Cons before_end_def not_less split: list.splits prod.splits)

lemma iterate_tail: "iterate sq it = p # ps \<Longrightarrow> iterate sq (DBIter_Next sq it) = ps"
  by (cases it) (auto simp: iterate_Cons)

text \<open>A callback that never stops sees the pairs of the range in order.\<close>

lemma range_loop_fold:
  "range_loop end (\<lambda>k v acc. (True, f k v acc)) sq it acc
   = fold (\<lambda>p. f (fst p) (snd p)) (takeWhile (\<lambda>p. before_end end (fst p)) (iterate sq it)) acc"
proof (induction "iterate sq it" arbitrary: it acc)
  case Nil
  then show ?case by (subst range_loop_iterate) simp
next
  case (Cons p ps)
  have "iterate sq (DBIter_Next sq it) = ps"
    using Cons.hyps(2) iterate_tail by metis
  with Cons.hyps(1) [of "DBIter_Next sq it"] Cons.hyps(2) [symmetric] show ?case
    by (subst range_loop_iterate) (simp split: prod.split)
qed

lemma RangeQuery_fold:
  "RangeQuery start end (\<lambda>k v acc. (True, f k v acc)) d acc
   = fold (\<lambda>p. f (fst p) (snd p)) (ldb.range_pairs start end d) acc"
  by (simp add: RangeQuery_def range_loop_fold ldb.range_pairs_def db_scan_def)

lemma fold_append_keys: "fold (\<lambda>p acc. acc @ [fst p]) ps acc = acc @ map fst ps"
  by (induction ps arbitrary: acc) auto

lemma RangeQuery_keys:
  "RangeQuery start end (\<lambda>k _ keys. (True, keys @ [k])) d [] = map fst (ldb.range_pairs start end d)"
  using RangeQuery_fold [of start "end" "\<lambda>k _ keys. keys @ [k]" d "[]"]
  by (simp add: fold_append_keys)

lemma SE_Get_DB [simp]: "SE_Get k d = DB_Get k d"
  by (simp add: SE_Get_def split: option.split)

text \<open>The keys of a range that hold a value.\<close>

definition live_keys :: "str \<Rightarrow> str \<Rightarrow> db \<Rightarrow> str set" where
  "live_keys start end d = {k. in_range start end k \<and> SE_Get k d \<noteq> None}"

definition range_keys :: "str \<Rightarrow> str \<Rightarrow> db \<Rightarrow> str list" where
  "range_keys start end d = map fst (ldb.range_pairs start end d)"

lemma sorted_range_keys: "db_inv d \<Longrightarrow> sorted_wrt (<) (range_keys start end d)"
  by (simp add: range_keys_def ldb.range_pairs_sorted)

lemma distinct_range_keys: "db_inv d \<Longrightarrow> distinct (range_keys start end d)"
  using sorted_range_keys by (simp add: strict_sorted_iff)

lemma set_range_keys: "db_inv d \<Longrightarrow> set (range_keys start end d) = live_keys start end d"
  by (simp only: range_keys_def ldb.range_keys live_keys_def SE_Get_DB)

lemma card_live_keys: "db_inv d \<Longrightarrow> card (live_keys start end d) = length (range_keys start end d)"
  using distinct_card [OF distinct_range_keys] by (simp add: set_range_keys)

lemma RangeStats_keys:
  "RangeStats start end d =
     (True, length (range_keys start end d),
      if range_keys start end d = [] then []
      else range_keys start end d ! (length (range_keys start end d) div 2))"
  by (simp add: RangeStats_def RangeQuery_keys Let_def flip: range_keys_def)

lemma sorted_split_at:
  assumes "sorted_wrt (<) (xs @ x # ys :: 'a :: linorder list)"
  shows "{k \<in> set (xs @ x # ys). k < x} = set xs" "{k \<in> set (xs @ x # ys). x \<le> k} = set (x # ys)"
  using assms by (auto simp: sorted_wrt_append dest: order.asym)

lemma sorted_nth_split:
  assumes "sorted_wrt (<) (ks :: 'a :: linorder list)" "i < length ks"
  shows "card {k \<in> set ks. k < ks ! i} = i" "card {k \<in> set ks. ks ! i \<le> k} = length ks - i"
proof -
  obtain xs x ys where ks: "ks = xs @ x # ys" "length xs = i"
    using id_take_nth_drop [OF assms(2)] assms(2) by (metis length_take min.absorb4)
  then have x: "ks ! i = x" by (metis nth_append_length)
  have d: "distinct xs" "distinct (x # ys)"
    using assms(1) ks(1) by (auto simp: strict_sorted_iff)
  show "card {k \<in> set ks. k < ks ! i} = i"
    using sorted_split_at(1) [of xs x ys] assms(1) ks distinct_card [OF d(1)]
    unfolding x unfolding ks(1) by simp
  show "card {k \<in> set ks. ks ! i \<le> k} = length ks - i"
    using sorted_split_at(2) [of xs x ys] assms(1) ks distinct_card [OF d(2)]
    unfolding x unfolding ks(1) by simp
qed

lemma in_range_left: "start \<le> m \<Longrightarrow> m \<noteq> [] \<Longrightarrow> before_end end m \<Longrightarrow>
    in_range start m k \<longleftrightarrow> in_range start end k \<and> k < m"
  by (auto simp: in_range_def before_end_def)

lemma in_range_right: "start \<le> m \<Longrightarrow> in_range m end k \<longleftrightarrow> in_range start end k \<and> m \<le> k"
  by (auto simp: in_range_def)

text \<open>A small database for the witnesses, and the same one with a log that fails.\<close>

definition sample_db :: db where
  "sample_db = snd (DB_Delete [99] (snd (DB_Put [98] [2] (snd (DB_Put [97] [1] DB_Open)))))"

lemma db_inv_sample [simp]: "db_inv sample_db" "db_inv (sample_db\<lparr>log_ok := False\<rparr>)"
proof -
  show "db_inv sample_db"
    by (simp add: sample_db_def ldb.put_inv ldb.del_inv)
  then show "db_inv (sample_db\<lparr>log_ok := False\<rparr>)"
    by (simp add: db_inv_def)
qed

section \<open>Statistics, deletion, reads and writes\<close>

lemma median_splits:
  assumes "db_inv d" "m \<noteq> []" "range_keys start end d \<noteq> []"
    and "m = range_keys start end d ! (length (range_keys start end d) div 2)"
  shows "m \<in> live_keys start end d"
    and "card (live_keys start m d) = length (range_keys start end d) div 2"
    and "card (live_keys m end d) = length (range_keys start end d) - length (range_keys start end d) div 2"
proof -
  let ?ks = "range_keys start end d"
  have i: "length ?ks div 2 < length ?ks" using assms(3) by simp
  show mem: "m \<in> live_keys start end d"
    using nth_mem [OF i] assms(4) set_range_keys [OF assms(1)] by simp
  then have r: "start \<le> m" "before_end end m"
    by (auto simp: live_keys_def in_range_iff)
  have "live_keys start m d = {k \<in> set ?ks. k < m}" "live_keys m end d = {k \<in> set ?ks. m \<le> k}"
    using in_range_left [OF r(1) assms(2) r(2)] in_range_right [OF r(1)]
    by (auto simp: set_range_keys [OF assms(1)] live_keys_def)
  then show "card (live_keys start m d) = length ?ks div 2"
    "card (live_keys m end d) = length ?ks - length ?ks div 2"
    using sorted_nth_split [OF sorted_range_keys [OF assms(1)] i] assms(4) by simp_all
qed

text \<open>Property C22 (statistics split evenly). \<open>RangeStats\<close> succeeds, counts the live keys of
  the range, and for a non-empty median returns a live key of the range that leaves half of
  the keys (rounded down) strictly below it and the rest at or above it.\<close>
theorem RangeStats_split:
  assumes "db_inv d" "RangeStats start end d = (ok, n, m)"
  shows "ok \<and> n = card (live_keys start end d) \<and> (m \<noteq> [] \<longrightarrow>
    m \<in> live_keys start end d
    \<and> card (live_keys start m d) = n div 2 \<and> card (live_keys m end d) = n - n div 2)"
  using assms median_splits [of d m start "end"] card_live_keys [of d start "end"]
  by (auto simp: RangeStats_keys split: if_splits)

theorem RangeStats_split_witness:
  "RangeStats [] [] sample_db = (True, 2, [98])
   \<and> card (live_keys [] [98] sample_db) = 1 \<and> card (live_keys [98] [] sample_db) = 1"
proof
  show stats: "RangeStats [] [] sample_db = (True, 2, [98])" by code_simp
  show "card (live_keys [] [98] sample_db) = 1 \<and> card (live_keys [98] [] sample_db) = 1"
    using RangeStats_split [OF db_inv_sample(1) stats] by simp
qed

lemma SE_DeleteRange_fold:
  "SE_DeleteRange start end d
   = (True, fold (\<lambda>k d. snd (DB_Delete k d)) (range_keys start end d) d)"
  using RangeQuery_keys [of start "end" d]
  by (simp add: SE_DeleteRange_def RangeQuery_def range_keys_def)

lemma SE_DeleteRange_inv:
  "db_inv d \<Longrightarrow> db_inv (snd (SE_DeleteRange start end d))
    \<and> log_ok (snd (SE_DeleteRange start end d)) = log_ok d"
  using ldb.fold_del by (simp add: SE_DeleteRange_fold)

text \<open>Range deletion. On a database that accepts writes \<open>DeleteRange\<close> removes
  exactly the keys of the range. On one that does not, nothing is deleted, and \<open>DeleteRange\<close>
  still reports success: the status of the single deletes is not looked at.\<close>
lemma SE_DeleteRange_correct:
  assumes "db_inv d"
  shows "fst (SE_DeleteRange start end d) \<and> SE_Get k (snd (SE_DeleteRange start end d))
    = (if in_range start end k \<and> log_ok d then None else SE_Get k d)"
proof -
  have "k \<in> set (range_keys start end d) \<longleftrightarrow> in_range start end k \<and> DB_Get k d \<noteq> None"
    by (simp add: set_range_keys [OF assms] live_keys_def)
  then show ?thesis
    using ldb.fold_del [OF assms, of "range_keys start end d" k]
    by (auto simp: SE_DeleteRange_fold)
qed

lemma SE_writes_map:
  assumes "db_inv d"
  shows "db_inv (snd (SE_Put k v d))" "db_inv (snd (SE_Delete k d))"
    and "log_ok (snd (SE_Put k v d)) = log_ok d" "log_ok (snd (SE_Delete k d)) = log_ok d"
    and "DB_Get k' (snd (SE_Put k v d)) = (if k' = k \<and> log_ok d then Some v else DB_Get k' d)"
    and "DB_Get k' (snd (SE_Delete k d)) = (if k' = k \<and> log_ok d then None else DB_Get k' d)"
  using assms ldb.put_inv ldb.del_inv ldb.get_put ldb.get_del ldb.put_writable ldb.del_writable
  by (simp_all add: SE_Put_def SE_Delete_def)

text \<open>Property C15 (the store is a map). \<open>Put\<close> and \<open>Delete\<close> change the value of their own key
  and no other, and change nothing when they report failure; the invariant is kept.\<close>
theorem SE_writes_correct:
  assumes "db_inv d"
  shows "db_inv (snd (SE_Put k v d)) \<and> db_inv (snd (SE_Delete k d))
    \<and> SE_Get k' (snd (SE_Put k v d)) = (if k' = k \<and> fst (SE_Put k v d) then Some v else SE_Get k' d)
    \<and> SE_Get k' (snd (SE_Delete k d)) = (if k' = k \<and> fst (SE_Delete k d) then None else SE_Get k' d)"
  using SE_writes_map [OF assms] ldb.put_status ldb.del_status
  by (simp add: SE_Put_def SE_Delete_def)

theorem SE_writes_correct_witness:
  "SE_Get [97] (snd (SE_Put [97] [7] sample_db)) = Some [7]
   \<and> SE_Get [98] (snd (SE_Delete [97] sample_db)) = Some [2]
   \<and> SE_Get [97] (snd (SE_Put [97] [7] (sample_db\<lparr>log_ok := False\<rparr>))) = Some [1]"
proof -
  have "SE_Get [98] sample_db = Some [2]" "SE_Get [97] (sample_db\<lparr>log_ok := False\<rparr>) = Some [1]"
    "fst (SE_Put [97] [7] sample_db)" "\<not> fst (SE_Put [97] [7] (sample_db\<lparr>log_ok := False\<rparr>))"
    by code_simp+
  then show ?thesis
    using SE_writes_correct [OF db_inv_sample(1), of "[97]" "[7]"]
      SE_writes_correct [OF db_inv_sample(2), of "[97]" "[7]" "[97]"]
    by (simp del: SE_Get_DB)
qed

text \<open>Property C21 (range queries). A \<open>RangeQuery\<close> whose callback collects what it is given
  returns, in strictly increasing key order, exactly the pairs of the half-open range.\<close>
theorem RangeQuery_correct:
  assumes "db_inv d"
  shows "sorted_keys (RangeQuery start end (\<lambda>k v ps. (True, ps @ [(k, v)])) d [])
    \<and> map_of (RangeQuery start end (\<lambda>k v ps. (True, ps @ [(k, v)])) d []) k
      = (if in_range start end k then SE_Get k d else None)"
proof -
  have "fold (\<lambda>p acc. acc @ [(fst p, snd p)]) ps acc = acc @ ps" for ps acc :: "(str \<times> str) list"
    by (induction ps arbitrary: acc) auto
  then have "RangeQuery start end (\<lambda>k v ps. (True, ps @ [(k, v)])) d [] = ldb.range_pairs start end d"
    using RangeQuery_fold [of start "end" "\<lambda>k v ps. ps @ [(k, v)]" d "[]"] by simp
  then show ?thesis
    using ldb.range_pairs_sorted [OF assms] ldb.map_of_range_pairs [OF assms] by simp
qed

theorem RangeQuery_correct_witness:
  "RangeQuery [] [98] (\<lambda>k v ps. (True, ps @ [(k, v)])) sample_db [] = [([97], [1])]
   \<and> map_of [([97], [1])] [97] = SE_Get [97] sample_db"
proof
  show q: "RangeQuery [] [98] (\<lambda>k v ps. (True, ps @ [(k, v)])) sample_db [] = [([97], [1])]"
    by code_simp
  show "map_of [([97], [1])] [97] = SE_Get [97] sample_db"
    using RangeQuery_correct [OF db_inv_sample(1), of "[]" "[98]" "[97]", unfolded q]
    by (simp add: in_range_def)
qed

end
