(* ===== verification/Binary_Protocol.thy ===== *)
theory Binary_Protocol
  imports LeKV_Prelude
begin

text \<open>
  The binary frame codec of \<open>src/src/rpc/binary_protocol.{h,cpp}\<close>. A frame is
  \<open>[4B FrameLen][1B Magic][1B Version][4B RequestID][payload]\<close> with big-endian integers;
  lengths are \<open>static_cast\<close> to their field's width, so they wrap exactly as in the code.
  \<open>TryDecode\<close> returns \<open>None\<close> where the C++ reads outside the buffer and otherwise
  \<open>Some (consumed, result)\<close>, the result being \<open>None\<close> for the boolean \<open>false\<close>.
\<close>

section \<open>Protocol constants\<close>

definition MAGIC :: u8 where "MAGIC = 0x4C"
definition VERSION :: u8 where "VERSION = 0x01"

definition OP_GET_ROUTE :: u8 where "OP_GET_ROUTE = 0x01"
definition OP_GET :: u8 where "OP_GET = 0x02"
definition OP_PUT :: u8 where "OP_PUT = 0x03"
definition OP_DELETE :: u8 where "OP_DELETE = 0x04"
definition OP_PING :: u8 where "OP_PING = 0x05"
definition OP_SHARDS :: u8 where "OP_SHARDS = 0x06"
definition OP_TABLET_STATS :: u8 where "OP_TABLET_STATS = 0x07"
definition OP_SCAN_RANGE :: u8 where "OP_SCAN_RANGE = 0x08"
definition OP_DELETE_RANGE :: u8 where "OP_DELETE_RANGE = 0x09"

definition ST_OK :: u8 where "ST_OK = 0x00"
definition ST_NOT_FOUND :: u8 where "ST_NOT_FOUND = 0x01"
definition ST_NOT_MY_SHARD :: u8 where "ST_NOT_MY_SHARD = 0x02"
definition ST_BAD_REQUEST :: u8 where "ST_BAD_REQUEST = 0x03"
definition ST_TIMEOUT :: u8 where "ST_TIMEOUT = 0x04"
definition ST_NO_SHARD :: u8 where "ST_NO_SHARD = 0x05"
definition ST_KEY_TOO_LONG :: u8 where "ST_KEY_TOO_LONG = 0x06"
definition ST_VALUE_TOO_LONG :: u8 where "ST_VALUE_TOO_LONG = 0x07"

lemmas opcode_defs =
  OP_GET_ROUTE_def OP_GET_def OP_PUT_def OP_DELETE_def OP_PING_def OP_SHARDS_def
  OP_TABLET_STATS_def OP_SCAN_RANGE_def OP_DELETE_RANGE_def

lemmas status_defs =
  ST_OK_def ST_NOT_FOUND_def ST_NOT_MY_SHARD_def ST_BAD_REQUEST_def ST_TIMEOUT_def
  ST_NO_SHARD_def ST_KEY_TOO_LONG_def ST_VALUE_TOO_LONG_def

section \<open>Encoders\<close>

definition EncodeGetRoute :: "u32 \<Rightarrow> str \<Rightarrow> bytes" where
  "EncodeGetRoute req_id key =
     (let key_len = of_nat (length key) :: u16;
          payload_len = 1 + 2 + ucast key_len :: u32;
          frame_len = 10 + payload_len
      in be32 frame_len @ [MAGIC] @ [VERSION] @ be32 req_id
         @ [OP_GET_ROUTE] @ be16 key_len @ key)"

definition EncodeRequest :: "u32 \<Rightarrow> u8 \<Rightarrow> str \<Rightarrow> str \<Rightarrow> bytes" where
  "EncodeRequest req_id opcode key value =
     (let key_len = of_nat (length key) :: u16;
          val_len = of_nat (length value) :: u32;
          payload_len = 1 + 2 + 4 + ucast key_len + val_len :: u32;
          frame_len = 10 + payload_len
      in be32 frame_len @ [MAGIC] @ [VERSION] @ be32 req_id
         @ [opcode] @ be16 key_len @ be32 val_len @ key @ value)"

definition EncodeResponse :: "u32 \<Rightarrow> u8 \<Rightarrow> str \<Rightarrow> bytes" where
  "EncodeResponse req_id status value =
     (let val_len = of_nat (length value) :: u32;
          payload_len = 1 + 4 + val_len :: u32;
          frame_len = 10 + payload_len
      in be32 frame_len @ [MAGIC] @ [VERSION] @ be32 req_id
         @ [status] @ be32 val_len @ value)"

definition EncodeCustomRequest :: "u32 \<Rightarrow> bytes \<Rightarrow> bytes" where
  "EncodeCustomRequest req_id payload =
     (let payload_len = of_nat (length payload) :: u32;
          frame_len = 10 + payload_len
      in be32 frame_len @ [MAGIC] @ [VERSION] @ be32 req_id @ payload)"

section \<open>Decoder\<close>

definition TryDecode :: "bytes \<Rightarrow> (nat \<times> (u32 \<times> bytes) option) option" where
  "TryDecode buf =
     (if length buf < 10 then Some (0, None)
      else do {
        frame_len \<leftarrow> rd32 buf 0;
        if length buf < unat frame_len then Some (0, None)
        else do {
          m \<leftarrow> rd8 buf 4;
          if m \<noteq> MAGIC then Some (1, None)
          else do {
            v \<leftarrow> rd8 buf 5;
            if v \<noteq> VERSION then Some (1, None)
            else do {
              req_id \<leftarrow> rd32 buf 6;
              let payload_len = unat (frame_len - 10);
              payload \<leftarrow> subbuf buf 10 payload_len;
              Some (unat frame_len, Some (req_id, payload))
            }
          }
        }
      })"

section \<open>Frames\<close>

text \<open>
  The three specific encoders are \<open>EncodeCustomRequest\<close> on their own payload as long as
  the lengths fit their fields, so every fact about a frame is proved once.
\<close>

definition get_route_payload :: "str \<Rightarrow> bytes" where
  "get_route_payload key = [OP_GET_ROUTE] @ be16 (of_nat (length key)) @ key"

definition kv_payload :: "u8 \<Rightarrow> str \<Rightarrow> str \<Rightarrow> bytes" where
  "kv_payload opcode key value =
     [opcode] @ be16 (of_nat (length key)) @ be32 (of_nat (length value)) @ key @ value"

definition response_payload :: "u8 \<Rightarrow> str \<Rightarrow> bytes" where
  "response_payload status value = [status] @ be32 (of_nat (length value)) @ value"

lemma length_kv_payload [simp]: "length (kv_payload op key value) = 7 + length key + length value"
  by (simp add: kv_payload_def)

lemma length_response_payload [simp]: "length (response_payload st value) = 5 + length value"
  by (simp add: response_payload_def)

lemma length_get_route_payload [simp]: "length (get_route_payload key) = 3 + length key"
  by (simp add: get_route_payload_def)

lemma length_EncodeCustomRequest [simp]:
  "length (EncodeCustomRequest rid payload) = 10 + length payload"
  by (simp add: EncodeCustomRequest_def Let_def)

lemma ucast_key_len: "n < 2 ^ 16 \<Longrightarrow> (ucast (of_nat n :: u16) :: u32) = of_nat n"
  by (simp add: word_unat_eq_iff unat_of_nat)

lemma EncodeGetRoute_custom:
  "length key < 2 ^ 16 \<Longrightarrow>
   EncodeGetRoute rid key = EncodeCustomRequest rid (get_route_payload key)"
  by (simp add: EncodeGetRoute_def EncodeCustomRequest_def get_route_payload_def Let_def
      ucast_key_len algebra_simps)

lemma EncodeRequest_custom:
  "length key < 2 ^ 16 \<Longrightarrow>
   EncodeRequest rid op key value = EncodeCustomRequest rid (kv_payload op key value)"
  by (simp add: EncodeRequest_def EncodeCustomRequest_def kv_payload_def Let_def
      ucast_key_len algebra_simps)

lemma EncodeResponse_custom:
  "EncodeResponse rid st value = EncodeCustomRequest rid (response_payload st value)"
  by (simp add: EncodeResponse_def EncodeCustomRequest_def response_payload_def Let_def
      algebra_simps)

text \<open>A payload fits a frame when the frame length fits the 32-bit length field.\<close>

definition frame_fits :: "bytes \<Rightarrow> bool" where
  "frame_fits payload \<longleftrightarrow> 10 + length payload < 2 ^ 32"

lemma frame_len_word:
  "frame_fits payload \<Longrightarrow> unat (10 + of_nat (length payload) :: u32) = 10 + length payload"
  using unat_of_nat32 [of "10 + length payload"] by (simp add: frame_fits_def)

lemma frame_rid: "rd32 (be32 fl @ a # b # be32 rid @ r) 6 = Some rid"
  using rd32_be32 [of "be32 fl @ [a, b]" 6 rid r] by simp

lemma frame_rd [wire]:
  "rd32 (EncodeCustomRequest rid payload @ r) 0 = Some (10 + of_nat (length payload))"
  "rd8 (EncodeCustomRequest rid payload @ r) 4 = Some MAGIC"
  "rd8 (EncodeCustomRequest rid payload @ r) 5 = Some VERSION"
  "rd32 (EncodeCustomRequest rid payload @ r) 6 = Some rid"
  by (simp_all add: EncodeCustomRequest_def Let_def rd32_0 frame_rid rd8_def nth_append)

lemma frame_payload:
  "subbuf (EncodeCustomRequest rid payload @ r) 10 (length payload) = Some payload"
  by (simp add: EncodeCustomRequest_def Let_def subbuf_def numeral_eq_Suc)

section \<open>Decoding inverts encoding\<close>

lemma of_nat_unat_id: "of_nat (unat (w :: 'a :: len word)) = w"
  by simp

lemma TryDecode_frame [wire]:
  assumes "frame_fits payload"
  shows "TryDecode (EncodeCustomRequest rid payload @ r)
         = Some (10 + length payload, Some (rid, payload))"
proof -
  let ?fl = "10 + of_nat (length payload) :: u32"
  have "unat ?fl = 10 + length payload"
    using assms by (rule frame_len_word)
  moreover from assms have "unat (?fl - 10) = length payload"
    by (simp add: unat_of_nat32 frame_fits_def)
  ultimately show ?thesis
    by (simp add: TryDecode_def frame_rd frame_payload)
qed

lemma TryDecode_short: "length buf < 10 \<Longrightarrow> TryDecode buf = Some (0, None)"
  by (simp add: TryDecode_def)

text \<open>What a completed header says: the branches of \<open>TryDecode\<close> after the size check.\<close>

lemma header_reads:
  assumes "10 \<le> length buf"
  obtains fl rid where "rd32 buf 0 = Some fl" "rd32 buf 6 = Some rid"
    "rd8 buf 4 = Some (buf ! 4)" "rd8 buf 5 = Some (buf ! 5)"
proof -
  have "rd32 buf 0 \<noteq> None" "rd32 buf 6 \<noteq> None"
    using assms by (simp_all add: rd32_None_iff)
  moreover have "rd8 buf 4 = Some (buf ! 4)" "rd8 buf 5 = Some (buf ! 5)"
    using assms by (simp_all add: rd8_def)
  ultimately show thesis using that by blast
qed

lemma header_split:
  assumes "rd32 buf 0 = Some fl" "rd32 buf 6 = Some rid" "10 \<le> length buf"
  shows "take 10 buf = be32 fl @ [buf ! 4, buf ! 5] @ be32 rid"
proof -
  have "be32 fl = take 4 buf" "be32 rid = take 4 (drop 6 buf)"
    using assms(1,2) by (auto simp: rd32_Some_iff dest: subbuf_SomeD)
  moreover have "take 10 buf = take 4 buf @ take 2 (drop 4 buf) @ take 4 (drop 6 buf)"
    using take_add [of 4 6 buf] take_add [of 2 4 "drop 4 buf"] by simp
  moreover have "take 2 (drop 4 buf) = [buf ! 4, buf ! 5]"
    using assms(3) Cons_nth_drop_Suc [of 4 buf] Cons_nth_drop_Suc [of 5 buf]
    by (simp add: numeral_2_eq_2 flip: Cons_nth_drop_Suc)
  ultimately show ?thesis by simp
qed

lemma payload_len_word:
  "\<not> unat (fl :: u32) < 10 \<Longrightarrow> unat (fl - 10) = unat fl - 10"
  by (simp add: unat_sub_if' )

lemma payload_len_wraps:
  "unat (fl :: u32) < 10 \<Longrightarrow> 4294967296 \<le> 10 + unat (fl - 10)"
  by (simp add: unat_sub_if')

lemma TryDecode_unfold:
  assumes "10 \<le> length buf" "rd32 buf 0 = Some fl" "rd32 buf 6 = Some rid"
  shows "TryDecode buf =
    (if length buf < unat fl then Some (0, None)
     else if buf ! 4 \<noteq> MAGIC \<or> buf ! 5 \<noteq> VERSION then Some (1, None)
     else map_option (\<lambda>p. (unat fl, Some (rid, p))) (subbuf buf 10 (unat (fl - 10))))"
  using assms by (simp add: TryDecode_def rd8_def map_conv_bind_option comp_def)

lemma TryDecode_no_fault:
  assumes "rd32 buf 0 = Some fl" "10 \<le> unat fl"
  shows "TryDecode buf \<noteq> None"
proof (cases "10 \<le> length buf")
  case False
  then show ?thesis by (simp add: TryDecode_short)
next
  case True
  from header_reads [OF True] obtain rid where rd: "rd32 buf 6 = Some rid" by blast
  have "subbuf buf 10 (unat (fl - 10)) = None \<longleftrightarrow> length buf < unat fl"
    using payload_len_word [of fl] assms(2) by (auto simp: subbuf_None_iff)
  then show ?thesis
    by (auto simp: TryDecode_unfold [OF True assms(1) rd])
qed

text \<open>Decoder soundness. Whatever \<open>TryDecode\<close> accepts from a buffer below
  4 GiB is literally a frame: the consumed bytes are the encoding of the request id and
  payload it returns.\<close>
lemma TryDecode_sound:
  assumes "length buf < 2 ^ 32" "TryDecode buf = Some (n, Some (rid, payload))"
  shows "n = 10 + length payload \<and> n \<le> length buf \<and> take n buf = EncodeCustomRequest rid payload"
proof -
  have len: "10 \<le> length buf"
    using assms(2) by (auto simp: TryDecode_def split: if_splits)
  from header_reads [OF len] obtain fl rid' where
    rd: "rd32 buf 0 = Some fl" "rd32 buf 6 = Some rid'" by blast
  note u = TryDecode_unfold [OF len rd]
  have fl: "n = unat fl" "rid' = rid" "buf ! 4 = MAGIC" "buf ! 5 = VERSION"
    and sub: "subbuf buf 10 (unat (fl - 10)) = Some payload"
    using assms(2) unfolding u by (simp_all split: if_splits)
  have "\<not> unat fl < 10"
    using payload_len_wraps [of fl] subbuf_SomeD [OF sub] assms(1) by auto
  then have n: "unat (fl - 10) = n - 10" "10 \<le> n"
    using payload_len_word fl by auto
  from subbuf_SomeD [OF sub] have "length payload = n - 10" "10 + (n - 10) \<le> length buf"
    and p3: "payload = take (n - 10) (drop 10 buf)"
    unfolding n(1) by blast+
  with n(2) have p: "n = 10 + length payload" "n \<le> length buf" by linarith+
  have "fl = 10 + of_nat (length payload)"
    using p(1) of_nat_unat_id [of fl] fl(1) by simp
  moreover have "take n buf = take 10 buf @ payload"
    using take_add [of 10 "n - 10" buf] n(2) unfolding p3 [symmetric] by simp
  ultimately show ?thesis
    using p(1,2) header_split [OF rd len] fl(2-4) by (simp add: EncodeCustomRequest_def Let_def)
qed

text \<open>Decoder faults. On a buffer below 4 GiB \<open>TryDecode\<close> reads outside the
  buffer exactly when a complete header declares a frame shorter than the ten header bytes:
  \<open>frame_len - 10\<close> then wraps around in 32 bits.\<close>
lemma TryDecode_fault_iff:
  assumes "length buf < 2 ^ 32"
  shows "TryDecode buf = None \<longleftrightarrow>
    10 \<le> length buf \<and> buf ! 4 = MAGIC \<and> buf ! 5 = VERSION
    \<and> (\<exists>fl. rd32 buf 0 = Some fl \<and> unat fl < 10)"
proof (cases "10 \<le> length buf")
  case False
  then show ?thesis by (simp add: TryDecode_def)
next
  case True
  from header_reads [OF True] obtain fl rid where
    rd: "rd32 buf 0 = Some fl" "rd32 buf 6 = Some rid" by blast
  have "subbuf buf 10 (unat (fl - 10)) = None \<longleftrightarrow> unat fl < 10" if "unat fl \<le> length buf"
    using payload_len_wraps [of fl] payload_len_word [of fl] that assms
    by (cases "unat fl < 10") (auto simp: subbuf_None_iff)
  with True rd show ?thesis
    by (auto simp: TryDecode_unfold [OF True rd])
qed

lemma frame_prefix_header:
  assumes "10 \<le> n" "n < 10 + length payload"
  shows "rd32 (take n (EncodeCustomRequest rid payload)) 0 = Some (10 + of_nat (length payload))"
proof -
  have "rd32 (EncodeCustomRequest rid payload) 0 = Some (10 + of_nat (length payload))"
    using frame_rd(1) [of rid payload "[]"] by simp
  then show ?thesis
    using assms by (simp add: rd32_def min_def)
qed

text \<open>No early decode. A strict prefix of a frame is never decoded and never
  rejected: \<open>TryDecode\<close> asks for more bytes, consuming nothing.\<close>
lemma TryDecode_incomplete:
  assumes "frame_fits payload" "n < length (EncodeCustomRequest rid payload)"
  shows "TryDecode (take n (EncodeCustomRequest rid payload)) = Some (0, None)"
proof (cases "n < 10")
  case True
  then show ?thesis by (simp add: TryDecode_def)
next
  case False
  let ?b = "take n (EncodeCustomRequest rid payload)"
  have len: "10 \<le> length ?b" "length ?b < 10 + length payload" using False assms(2) by simp_all
  from header_reads [OF len(1)] obtain rid' where rd: "rd32 ?b 6 = Some rid'" by blast
  have "rd32 ?b 0 = Some (10 + of_nat (length payload))"
    using frame_prefix_header False assms(2) by simp
  then show ?thesis
    using TryDecode_unfold [OF len(1) _ rd] len(2) frame_len_word [OF assms(1)] by presburger
qed

text \<open>Property C24 (request round trip). A GET/PUT/DELETE request whose key fits the 16-bit
  length field decodes to its request id and to a payload with the opcode, both lengths, the
  key and the value, whatever follows it in the buffer.\<close>
theorem TryDecode_EncodeRequest:
  assumes "length key < 2 ^ 16" "17 + length key + length value < 2 ^ 32"
  shows "TryDecode (EncodeRequest rid op key value @ r)
    = Some (17 + length key + length value, Some (rid, kv_payload op key value))"
  using TryDecode_frame [of "kv_payload op key value" rid r] assms
  by (simp add: EncodeRequest_custom frame_fits_def)

theorem TryDecode_EncodeRequest_witness:
  "TryDecode (EncodeRequest 7 OP_PUT (lit ''k'') (lit ''vw'') @ [1, 2])
   = Some (20, Some (7, [3, 0, 1, 0, 0, 0, 2, 107, 118, 119]))"
  using TryDecode_EncodeRequest [of "lit ''k''" "lit ''vw''" 7 OP_PUT "[1, 2]"]
  by (simp add: kv_payload_def be16_def be32_def OP_PUT_def)

text \<open>Over-long keys. A key of 64 KiB or more wraps the 16-bit key length, but
  \<open>EncodeRequest\<close> still appends the whole key: the declared frame length is 65536 bytes or
  more short of what is sent.\<close>
lemma EncodeRequest_long_key:
  assumes "2 ^ 16 \<le> length key" "17 + length key + length value < 2 ^ 32"
  shows "\<exists>fl. rd32 (EncodeRequest rid op key value) 0 = Some fl
    \<and> unat fl = 17 + length key mod 2 ^ 16 + length value
    \<and> unat fl + 2 ^ 16 \<le> length (EncodeRequest rid op key value)"
proof -
  let ?k = "of_nat (length key) :: u16"
  let ?fl = "10 + (1 + 2 + 4 + ucast ?k + of_nat (length value)) :: u32"
  have k: "unat ?k = length key mod 2 ^ 16" by (simp add: unat_of_nat)
  have v: "unat (of_nat (length value) :: u32) = length value"
    using assms(2) by (simp add: unat_of_nat32)
  have m: "length key mod 2 ^ 16 + 2 ^ 16 \<le> length key"
    using assms(1) by (metis add.commute le_mod_geq mod_less_eq_dividend le_diff_conv2)
  have fl: "unat ?fl = 17 + length key mod 2 ^ 16 + length value"
    using assms(2) m by (simp add: unat_word_ariths k v)
  have "rd32 (EncodeRequest rid op key value) 0 = Some ?fl"
    by (simp add: EncodeRequest_def Let_def rd32_0)
  moreover have "length (EncodeRequest rid op key value) = 17 + length key + length value"
    by (simp add: EncodeRequest_def Let_def)
  ultimately show ?thesis using fl m by auto
qed

end
