(* ===== verification/Tablets.thy ===== *)
theory Tablets
  imports Route_Search Storage_Engine Binary_Protocol
begin

text \<open>
  The state of a node and the master's routing table: the structures of
  \<open>src/src/common/common.h\<close>, the members of \<open>RaftNode\<close> (\<open>src/src/kv/raft_node.h\<close>) and
  its routing operations (\<open>src/src/kv/raft_node.cpp\<close>). A master and a data node are the
  same record; a data node has the \<open>storage\<close>, a master the \<open>tablets\<close>.
\<close>

section \<open>Decimal numbers\<close>

fun to_string :: "nat \<Rightarrow> str" where
  "to_string n =
     (if n < 10 then [48 + of_nat n] else to_string (n div 10) @ [48 + of_nat (n mod 10)])"

declare to_string.simps [simp del]

definition is_digit :: "u8 \<Rightarrow> bool" where
  "is_digit c \<longleftrightarrow> 48 \<le> c \<and> c \<le> 57"

lemma digit_char: "n < 10 \<Longrightarrow> is_digit (48 + of_nat n) \<and> unat (48 + of_nat n :: u8) = 48 + n"
proof -
  assume n: "n < 10"
  then have "unat (of_nat n :: u8) = n" by (simp add: unat_of_nat)
  with n have "unat (48 + of_nat n :: u8) = 48 + n" by (simp add: unat_word_ariths)
  with n show ?thesis by (simp add: is_digit_def word_le_nat_alt)
qed

lemma to_string_digits: "c \<in> set (to_string n) \<Longrightarrow> is_digit c"
  by (induction n rule: to_string.induct)
    (subst (asm) (2) to_string.simps, auto simp: digit_char split: if_splits)

lemma to_string_nonempty [simp]: "to_string n \<noteq> []"
  by (subst to_string.simps) simp

section \<open>Node state\<close>

record peer_info =
  peer_id :: u64
  peer_ip :: str
  peer_port :: u16

record tablet =
  tablet_id :: u64
  start_key :: str
  end_key :: str
  node_id :: u32
  key_count :: u64

record raft_node =
  self_id :: u64
  port :: u16
  peers :: "peer_info list"
  tablets :: "tablet list"
  next_tablet_id :: u64
  epoch :: u64
  storage :: "db option"
  transfer_count :: u64
  transfer_time_ms :: u64

definition LEADER_PORT :: u16 where "LEADER_PORT = 9001"

definition IsMaster :: "raft_node \<Rightarrow> bool" where
  "IsMaster n \<longleftrightarrow> port n = LEADER_PORT"

definition IsDataNode :: "raft_node \<Rightarrow> bool" where
  "IsDataNode n \<longleftrightarrow> \<not> IsMaster n"

section \<open>Addresses and routing\<close>

definition GetNodeAddr :: "raft_node \<Rightarrow> u32 \<Rightarrow> str" where
  "GetNodeAddr n nid =
     (case find (\<lambda>p. peer_id p = ucast nid) (peers n) of
        Some p \<Rightarrow> peer_ip p @ lit '':'' @ to_string (unat (peer_port p))
      | None \<Rightarrow> [])"

text \<open>\<open>data_nodes[1]\<close> is read without a size check: \<open>None\<close> when there is one data node.\<close>

definition BuildInitialTablets :: "raft_node \<Rightarrow> raft_node option" where
  "BuildInitialTablets n =
     (let data_nodes = map (\<lambda>p. ucast (peer_id p) :: u32)
            (filter (\<lambda>p. peer_port p \<noteq> LEADER_PORT) (peers n))
      in case data_nodes of
           [] \<Rightarrow> Some n
         | [_] \<Rightarrow> None
         | d0 # d1 # _ \<Rightarrow>
             (let t1 = \<lparr>tablet_id = 1, start_key = lit '''', end_key = lit ''m'',
                        node_id = d0, key_count = 0\<rparr>;
                  t2 = \<lparr>tablet_id = 2, start_key = lit ''m'', end_key = lit '''',
                        node_id = d1, key_count = 0\<rparr>
              in Some (n\<lparr>tablets := tablets n @ [t1] @ [t2], next_tablet_id := 3, epoch := 1\<rparr>)))"

definition FindTabletIndex :: "raft_node \<Rightarrow> str \<Rightarrow> nat" where
  "FindTabletIndex n key =
     (let left = upper_bound_loop start_key (tablets n) key 0 (length (tablets n))
      in if left = 0 then length (tablets n) else left - 1)"

definition GetTabletRoute :: "raft_node \<Rightarrow> str \<Rightarrow> tablet option" where
  "GetTabletRoute n key =
     (if tablets n = [] then None
      else (let idx = FindTabletIndex n key
            in if length (tablets n) \<le> idx then None
               else (let t = tablets n ! idx
                     in if end_key t \<noteq> [] \<and> end_key t \<le> key then None else Some t)))"

abbreviation owns :: "tablet \<Rightarrow> str \<Rightarrow> bool" where
  "owns t key \<equiv> in_range (start_key t) (end_key t) key"

abbreviation tablets_partition :: "tablet list \<Rightarrow> bool" where
  "tablets_partition ts \<equiv> partitions start_key end_key [] ts"

lemma GetTabletRoute_lookup:
  assumes "sorted (map start_key (tablets n))"
  shows "GetTabletRoute n key = lookup_range start_key end_key (tablets n) key"
proof (cases "tablets n")
  case Nil
  then show ?thesis
    by (simp add: GetTabletRoute_def lookup_range_def upper_bound_loop.simps)
next
  case (Cons t ts)
  let ?l = "upper_bound_loop start_key (tablets n) key 0 (length (tablets n))"
  have "?l \<le> length (tablets n)" using upper_bound_border [OF assms] by blast
  with Cons show ?thesis
    by (auto simp: GetTabletRoute_def lookup_range_def FindTabletIndex_def Let_def)
qed

lemma GetTabletRoute_finds:
  assumes "tablets_partition (tablets n)"
  shows "\<exists>t \<in> set (tablets n). GetTabletRoute n key = Some t \<and> owns t key"
proof -
  have "sorted (map start_key (tablets n))"
    using partitions_sorted [OF assms] by (simp add: strict_sorted_iff)
  then show ?thesis
    using lookup_range_finds [OF assms, of key] by (simp add: GetTabletRoute_lookup)
qed

text \<open>Property C10 (routing is total and exact). When the table partitions the key space, every
  key is routed, to the one tablet whose half-open range holds it.\<close>
theorem GetTabletRoute_owner:
  assumes "tablets_partition (tablets n)"
  shows "\<exists>t \<in> set (tablets n). GetTabletRoute n key = Some t \<and> owns t key
    \<and> (\<forall>u \<in> set (tablets n). owns u key \<longrightarrow> u = t)"
  using GetTabletRoute_finds [OF assms, of key] partitions_unique [OF assms] by metis

definition sample_master :: raft_node where
  "sample_master = \<lparr>self_id = 1, port = LEADER_PORT,
     peers = [\<lparr>peer_id = 1, peer_ip = lit ''h'', peer_port = LEADER_PORT\<rparr>,
              \<lparr>peer_id = 2, peer_ip = lit ''h'', peer_port = 9002\<rparr>,
              \<lparr>peer_id = 3, peer_ip = lit ''h'', peer_port = 9003\<rparr>],
     tablets = [\<lparr>tablet_id = 1, start_key = [], end_key = lit ''m'', node_id = 2, key_count = 9\<rparr>,
                \<lparr>tablet_id = 2, start_key = lit ''m'', end_key = [], node_id = 3, key_count = 0\<rparr>],
     next_tablet_id = 3, epoch = 1, storage = None, transfer_count = 0, transfer_time_ms = 0\<rparr>"

theorem GetTabletRoute_owner_witness:
  "\<exists>t. GetTabletRoute sample_master (lit ''x'') = Some t \<and> tablet_id t = 2"
proof -
  have "tablets_partition (tablets sample_master)"
    by (simp add: sample_master_def)
  from GetTabletRoute_owner [OF this, of "lit ''x''"] show ?thesis
    by (auto simp: sample_master_def in_range_def)
qed

text \<open>Property C39 (initial table). With at least two data nodes configured and an empty table,
  \<open>BuildInitialTablets\<close> makes a partition of the key space whose two tablets go to the
  first two data nodes; with exactly one it reads past the end of \<open>data_nodes\<close>.\<close>
theorem BuildInitialTablets_partition:
  assumes "tablets n = []"
    and "filter (\<lambda>p. peer_port p \<noteq> LEADER_PORT) (peers n) = p0 # ps"
  shows "(BuildInitialTablets n = None \<longleftrightarrow> ps = [])
    \<and> (\<forall>n'. BuildInitialTablets n = Some n' \<longrightarrow>
         tablets_partition (tablets n')
         \<and> map node_id (tablets n') = map (ucast \<circ> peer_id) [p0, hd ps]
         \<and> next_tablet_id n' = 3 \<and> epoch n' = 1)"
  using assms by (cases ps) (auto simp: BuildInitialTablets_def Let_def)

theorem BuildInitialTablets_partition_witness:
  "BuildInitialTablets (sample_master\<lparr>tablets := [], peers := take 2 (peers sample_master)\<rparr>) = None
   \<and> BuildInitialTablets (sample_master\<lparr>tablets := []\<rparr>) \<noteq> None"
  using BuildInitialTablets_partition
      [of "sample_master\<lparr>tablets := [], peers := take 2 (peers sample_master)\<rparr>"]
    BuildInitialTablets_partition [of "sample_master\<lparr>tablets := []\<rparr>"]
  by (simp add: sample_master_def LEADER_PORT_def)

end
