(* ===== verification/Data_Node.thy ===== *)
theory Data_Node
  imports Tablets
begin

text \<open>
  The request handlers of a data node (\<open>RaftNode::HandleDataNode*\<close> of
  \<open>src/src/kv/raft_node.cpp\<close>). A handler takes the node and the request payload and returns
  the response payload and the node, or \<open>None\<close> where the C++ reads outside the payload. The
  size checks are evaluated at the types of the code: \<open>7 + key_len\<close> is an \<open>int\<close>, adding
  the 32-bit \<open>val_len\<close> makes the sum a \<open>uint32_t\<close> that wraps around.
\<close>

section \<open>Put, Get, Delete\<close>

type_synonym handled = "(bytes \<times> raft_node) option"

definition HandleDataNodePut :: "raft_node \<Rightarrow> bytes \<Rightarrow> handled" where
  "HandleDataNodePut n payload =
     (if length payload < 7 then Some ([ST_BAD_REQUEST], n)
      else do {
        key_len \<leftarrow> rd16 payload 1;
        val_len \<leftarrow> rd32 payload 3;
        if length payload < unat (7 + ucast key_len + val_len :: u32)
        then Some ([ST_BAD_REQUEST], n)
        else do {
          key \<leftarrow> subbuf payload 7 (unat key_len);
          value \<leftarrow> subbuf payload (7 + unat key_len) (unat val_len);
          (case storage n of
             None \<Rightarrow> Some ([ST_TIMEOUT], n)
           | Some d \<Rightarrow>
               (case SE_Put key value d of (ok, d') \<Rightarrow>
                  Some (if ok then [ST_OK] else [ST_TIMEOUT], n\<lparr>storage := Some d'\<rparr>)))
        }
      })"

definition HandleDataNodeGet :: "raft_node \<Rightarrow> bytes \<Rightarrow> handled" where
  "HandleDataNodeGet n payload =
     (if length payload < 7 then Some ([ST_BAD_REQUEST], n)
      else do {
        key_len \<leftarrow> rd16 payload 1;
        val_len \<leftarrow> rd32 payload 3;
        if val_len \<noteq> 0 then Some ([ST_BAD_REQUEST], n)
        else do {
          key \<leftarrow> subbuf payload 7 (unat key_len);
          (case storage n of
             None \<Rightarrow> Some ([ST_TIMEOUT], n)
           | Some d \<Rightarrow>
               (case SE_Get key d of
                  Some val \<Rightarrow> Some ([ST_OK] @ val, n)
                | None \<Rightarrow> Some ([ST_NOT_FOUND], n)))
        }
      })"

definition HandleDataNodeDelete :: "raft_node \<Rightarrow> bytes \<Rightarrow> handled" where
  "HandleDataNodeDelete n payload =
     (if length payload < 7 then Some ([ST_BAD_REQUEST], n)
      else do {
        key_len \<leftarrow> rd16 payload 1;
        val_len \<leftarrow> rd32 payload 3;
        if val_len \<noteq> 0 then Some ([ST_BAD_REQUEST], n)
        else if length payload < 7 + unat key_len then Some ([ST_BAD_REQUEST], n)
        else do {
          key \<leftarrow> subbuf payload 7 (unat key_len);
          (case storage n of
             None \<Rightarrow> Some ([ST_TIMEOUT], n)
           | Some d \<Rightarrow>
               (case SE_Delete key d of (ok, d') \<Rightarrow>
                  Some (if ok then [ST_OK] else [ST_TIMEOUT], n\<lparr>storage := Some d'\<rparr>)))
        }
      })"

section \<open>Range requests\<close>

text \<open>
  The three range handlers parse \<open>[op][2B slen][start][2B elen][end]\<close> with the same code;
  the inner \<open>None\<close> stands for their \<open>ST_BAD_REQUEST\<close> returns.
\<close>

definition parse_range :: "bytes \<Rightarrow> (str \<times> str) option option" where
  "parse_range payload =
     (if length payload < 5 then Some None
      else do {
        sl \<leftarrow> rd16 payload 1;
        if length payload < 1 + 2 + unat sl + 2 then Some None
        else do {
          start \<leftarrow> subbuf payload 3 (unat sl);
          el \<leftarrow> rd16 payload (3 + unat sl);
          if length payload < 1 + 2 + unat sl + 2 + unat el then Some None
          else do {
            end \<leftarrow> subbuf payload (3 + unat sl + 2) (unat el);
            Some (Some (start, end))
          }
        }
      })"

definition DataNodeGetTabletStats :: "raft_node \<Rightarrow> str \<Rightarrow> str \<Rightarrow> bool \<times> nat \<times> str" where
  "DataNodeGetTabletStats n start end =
     (case storage n of
        None \<Rightarrow> (False, 0, [])
      | Some d \<Rightarrow> RangeStats start end d)"

definition HandleDataNodeTabletStats :: "raft_node \<Rightarrow> bytes \<Rightarrow> handled" where
  "HandleDataNodeTabletStats n payload = do {
     range \<leftarrow> parse_range payload;
     (case range of
        None \<Rightarrow> Some ([ST_BAD_REQUEST], n)
      | Some (start, end) \<Rightarrow>
          (case DataNodeGetTabletStats n start end of (_, kc, median_key) \<Rightarrow>
             Some ([ST_OK] @ be32 (of_nat kc) @ be16 (of_nat (length median_key)) @ median_key, n)))
   }"

text \<open>The scan callback appends one encoded pair to the body and counts it.\<close>

definition scan_entry :: "str \<Rightarrow> str \<Rightarrow> bytes" where
  "scan_entry k v = be16 (of_nat (length k)) @ k @ be32 (of_nat (length v)) @ v"

definition HandleDataNodeScanRange :: "raft_node \<Rightarrow> bytes \<Rightarrow> handled" where
  "HandleDataNodeScanRange n payload = do {
     range \<leftarrow> parse_range payload;
     (case range of
        None \<Rightarrow> Some ([ST_BAD_REQUEST], n)
      | Some (start, end) \<Rightarrow>
          (case storage n of
             None \<Rightarrow> Some ([ST_TIMEOUT], n)
           | Some d \<Rightarrow>
               (case RangeQuery start end
                       (\<lambda>k v (body, count). (True, (body @ scan_entry k v, count + 1)))
                       d ([], 0 :: u32) of
                  (body, count) \<Rightarrow> Some ([ST_OK] @ be32 count @ body, n))))
   }"

definition HandleDataNodeDeleteRange :: "raft_node \<Rightarrow> bytes \<Rightarrow> handled" where
  "HandleDataNodeDeleteRange n payload = do {
     range \<leftarrow> parse_range payload;
     (case range of
        None \<Rightarrow> Some ([ST_BAD_REQUEST], n)
      | Some (start, end) \<Rightarrow>
          (case storage n of
             None \<Rightarrow> Some ([ST_TIMEOUT], n)
           | Some d \<Rightarrow>
               (case SE_DeleteRange start end d of (ok, d') \<Rightarrow>
                  Some (if ok then [ST_OK] else [ST_TIMEOUT], n\<lparr>storage := Some d'\<rparr>))))
   }"

lemma SE_status: "fst (SE_Put k v d) = log_ok d" "fst (SE_Delete k d) = log_ok d"
  by (simp_all add: SE_Put_def SE_Delete_def ldb.put_status ldb.del_status)

section \<open>Reading request payloads\<close>

lemma kv_payload_reads [wire]:
  "rd16 (kv_payload op key value) (Suc 0) = Some (of_nat (length key))"
  "rd32 (kv_payload op key value) 3 = Some (of_nat (length value))"
  using rd16_be16 [of "[op]" 1] rd32_be32 [of "[op] @ be16 (of_nat (length key))" 3]
  by (simp_all add: kv_payload_def)

lemma kv_payload_parts [wire]:
  "subbuf (kv_payload op key value) 7 (length key) = Some key"
  "subbuf (kv_payload op key value) (7 + length key) (length value) = Some value"
  using subbuf_append [of "[op] @ be16 (of_nat (length key)) @ be32 (of_nat (length value))" 7 key _ "value"]
    subbuf_append_end [of "[op] @ be16 (of_nat (length key)) @ be32 (of_nat (length value)) @ key"
      "7 + length key" "value"]
  by (simp_all add: kv_payload_def)

definition range_payload :: "u8 \<Rightarrow> str \<Rightarrow> str \<Rightarrow> bytes" where
  "range_payload op start end =
     [op] @ be16 (of_nat (length start)) @ start @ be16 (of_nat (length end)) @ end"

lemma parse_range_payload [wire]:
  assumes "length start < 2 ^ 16" "length end < 2 ^ 16"
  shows "parse_range (range_payload op start end) = Some (Some (start, end))"
proof -
  let ?p = "range_payload op start end"
  have l: "unat (of_nat (length start) :: u16) = length start"
    "unat (of_nat (length end) :: u16) = length end"
    using assms by (simp_all add: unat_of_nat16)
  have "rd16 ?p 1 = Some (of_nat (length start))"
    "subbuf ?p 3 (length start) = Some start"
    "rd16 ?p (3 + length start) = Some (of_nat (length end))"
    "subbuf ?p (3 + length start + 2) (length end) = Some end"
    using rd16_be16 [of "[op]" 1]
      subbuf_append [of "[op] @ be16 (of_nat (length start))" 3 start]
      rd16_be16 [of "[op] @ be16 (of_nat (length start)) @ start" "3 + length start"]
      subbuf_append_end [of "[op] @ be16 (of_nat (length start)) @ start @ be16 (of_nat (length end))"
        "3 + length start + 2" "end"]
    by (simp_all add: range_payload_def)
  then show ?thesis
    using l by (simp add: parse_range_def range_payload_def)
qed

lemma parse_range_no_fault: "parse_range payload \<noteq> None"
proof (cases "length payload < 5")
  case True
  then show ?thesis by (simp add: parse_range_def)
next
  case False
  then obtain sl where sl: "rd16 payload 1 = Some sl"
    using rd16_None_iff [of payload 1] by fastforce
  show ?thesis
  proof (cases "length payload < 1 + 2 + unat sl + 2")
    case True
    with False sl show ?thesis by (simp add: parse_range_def)
  next
    case ok: False
    then obtain st el where "subbuf payload 3 (unat sl) = Some st" "rd16 payload (3 + unat sl) = Some el"
      using rd16_None_iff [of payload "3 + unat sl"] subbuf_None_iff [of payload 3 "unat sl"]
      by fastforce
    moreover have "subbuf payload (3 + unat sl + 2) (unat el) \<noteq> None"
      if "\<not> length payload < 1 + 2 + unat sl + 2 + unat el"
      using that by (simp add: subbuf_None_iff)
    ultimately show ?thesis
      using False ok sl by (auto simp: parse_range_def)
  qed
qed

section \<open>The handlers on well-formed requests\<close>

text \<open>A data node seen from outside is a map from keys to values, and a flag for whether its
  database accepts writes.\<close>

definition node_get :: "raft_node \<Rightarrow> str \<Rightarrow> str option" where
  "node_get n k = (case storage n of None \<Rightarrow> None | Some d \<Rightarrow> SE_Get k d)"

definition node_inv :: "raft_node \<Rightarrow> bool" where
  "node_inv n \<longleftrightarrow> (case storage n of None \<Rightarrow> True | Some d \<Rightarrow> db_inv d)"

definition node_writable :: "raft_node \<Rightarrow> bool" where
  "node_writable n \<longleftrightarrow> (case storage n of None \<Rightarrow> False | Some d \<Rightarrow> log_ok d)"

lemma HandleDataNodePut_kv:
  assumes "length k < 2 ^ 16" "7 + length k + length v < 2 ^ 32"
  shows "HandleDataNodePut n (kv_payload op k v) =
    (case storage n of
       None \<Rightarrow> Some ([ST_TIMEOUT], n)
     | Some d \<Rightarrow> Some (if log_ok d then [ST_OK] else [ST_TIMEOUT],
                       n\<lparr>storage := Some (snd (SE_Put k v d))\<rparr>))"
proof -
  have l: "unat (of_nat (length k) :: u16) = length k" "unat (of_nat (length v) :: u32) = length v"
    using assms by (simp_all add: unat_of_nat16 unat_of_nat32)
  have "unat (7 + ucast (of_nat (length k) :: u16) + of_nat (length v) :: u32) = 7 + length k + length v"
    using assms by (simp add: unat_word_ariths l)
  then show ?thesis
    using l by (simp add: HandleDataNodePut_def kv_payload_reads kv_payload_parts
        SE_status case_prod_beta split: option.split)
qed

lemma HandleDataNodeGet_kv:
  assumes "length k < 2 ^ 16"
  shows "HandleDataNodeGet n (kv_payload op k []) =
    (case storage n of
       None \<Rightarrow> Some ([ST_TIMEOUT], n)
     | Some d \<Rightarrow> Some (case SE_Get k d of Some v \<Rightarrow> ST_OK # v | None \<Rightarrow> [ST_NOT_FOUND], n))"
  using assms kv_payload_reads [of op k "[]"] kv_payload_parts [of op k "[]"]
  by (simp add: HandleDataNodeGet_def unat_of_nat16 split: option.split)

lemma HandleDataNodeDelete_kv:
  assumes "length k < 2 ^ 16"
  shows "HandleDataNodeDelete n (kv_payload op k []) =
    (case storage n of
       None \<Rightarrow> Some ([ST_TIMEOUT], n)
     | Some d \<Rightarrow> Some (if log_ok d then [ST_OK] else [ST_TIMEOUT],
                       n\<lparr>storage := Some (snd (SE_Delete k d))\<rparr>))"
  using assms kv_payload_reads [of op k "[]"] kv_payload_parts [of op k "[]"]
  by (simp add: HandleDataNodeDelete_def unat_of_nat16 SE_status case_prod_beta split: option.split)

lemma HandleDataNodePut_outcome:
  assumes "node_inv n" "storage n = Some d" "length k < 2 ^ 16" "7 + length k + length v < 2 ^ 32"
  shows "\<exists>n'. HandleDataNodePut n (kv_payload op k v)
      = Some (if node_writable n then [ST_OK] else [ST_TIMEOUT], n')
    \<and> node_inv n' \<and> node_writable n' = node_writable n \<and> storage n' \<noteq> None
    \<and> node_get n' = (if node_writable n then (node_get n)(k \<mapsto> v) else node_get n)"
proof -
  have d: "db_inv d" using assms by (simp add: node_inv_def)
  show ?thesis
    using assms SE_writes_map(1,3) [OF d] SE_writes_map(5) [OF d, of _ k v]
    by (auto simp: HandleDataNodePut_kv node_inv_def node_writable_def node_get_def)
qed

lemma HandleDataNodeDelete_outcome:
  assumes "node_inv n" "storage n = Some d" "length k < 2 ^ 16"
  shows "\<exists>n'. HandleDataNodeDelete n (kv_payload op k [])
      = Some (if node_writable n then [ST_OK] else [ST_TIMEOUT], n')
    \<and> node_inv n' \<and> node_writable n' = node_writable n \<and> storage n' \<noteq> None
    \<and> node_get n' = (if node_writable n then (node_get n)(k := None) else node_get n)"
proof -
  have d: "db_inv d" using assms by (simp add: node_inv_def)
  show ?thesis
    using assms SE_writes_map(2,4) [OF d] SE_writes_map(6) [OF d, of _ k]
    by (auto simp: HandleDataNodeDelete_kv node_inv_def node_writable_def node_get_def)
qed

lemma HandleDataNodeGet_outcome:
  assumes "storage n = Some d" "length k < 2 ^ 16"
  shows "HandleDataNodeGet n (kv_payload op k [])
    = Some (case node_get n k of Some v \<Rightarrow> ST_OK # v | None \<Rightarrow> [ST_NOT_FOUND], n)"
  using assms by (simp add: HandleDataNodeGet_kv node_get_def)

text \<open>Property C9 (data requests). On a node with an open database a well-formed PUT is answered
  with \<open>ST_OK\<close> and binds the key to the value, a well-formed DELETE removes the key, each leaving
  every other key alone; when the database refuses the write the answer is \<open>ST_TIMEOUT\<close> and
  nothing changes. A well-formed GET returns the value bound to the key behind an \<open>ST_OK\<close>
  byte, or \<open>ST_NOT_FOUND\<close>, and does not change the node.\<close>
theorem HandleDataNode_correct:
  assumes "node_inv n" "storage n = Some d" "length k < 2 ^ 16" "7 + length k + length v < 2 ^ 32"
  shows "(\<exists>n'. HandleDataNodePut n (kv_payload OP_PUT k v)
        = Some (if node_writable n then [ST_OK] else [ST_TIMEOUT], n')
      \<and> node_inv n' \<and> node_get n' = (if node_writable n then (node_get n)(k \<mapsto> v) else node_get n))
    \<and> (\<exists>n'. HandleDataNodeDelete n (kv_payload OP_DELETE k [])
        = Some (if node_writable n then [ST_OK] else [ST_TIMEOUT], n')
      \<and> node_inv n' \<and> node_get n' = (if node_writable n then (node_get n)(k := None) else node_get n))
    \<and> HandleDataNodeGet n (kv_payload OP_GET k [])
        = Some (case node_get n k of Some v \<Rightarrow> ST_OK # v | None \<Rightarrow> [ST_NOT_FOUND], n)"
  using HandleDataNodePut_outcome [OF assms] HandleDataNodeDelete_outcome [OF assms(1-3)]
    HandleDataNodeGet_outcome [OF assms(2,3)]
  by blast

definition sample_node :: raft_node where
  "sample_node = sample_master\<lparr>self_id := 2, port := 9002, tablets := [], storage := Some sample_db\<rparr>"

lemma sample_node_simps [simp]:
  "node_inv sample_node" "storage sample_node = Some sample_db"
  by (simp_all add: sample_node_def node_inv_def)

theorem HandleDataNode_correct_witness:
  "\<exists>n'. HandleDataNodePut sample_node (kv_payload OP_PUT [97] [7]) = Some ([ST_OK], n')
    \<and> node_get n' [97] = Some [7] \<and> node_get n' [98] = Some [2]"
proof -
  have "node_writable sample_node" "node_get sample_node [98] = Some [2]"
    by code_simp+
  then show ?thesis
    using HandleDataNode_correct [OF sample_node_simps, of "[97]" "[7]"] by auto
qed

section \<open>The range handlers on well-formed requests\<close>

definition node_pairs :: "raft_node \<Rightarrow> str \<Rightarrow> str \<Rightarrow> (str \<times> str) list" where
  "node_pairs n start end = (case storage n of None \<Rightarrow> [] | Some d \<Rightarrow> ldb.range_pairs start end d)"

definition node_median :: "raft_node \<Rightarrow> str \<Rightarrow> str \<Rightarrow> str" where
  "node_median n start end =
     (let ks = map fst (node_pairs n start end) in if ks = [] then [] else ks ! (length ks div 2))"

lemma node_pairs_map:
  "node_inv n \<Longrightarrow> map_of (node_pairs n start end) k = (if in_range start end k then node_get n k else None)"
  by (auto simp: node_pairs_def node_get_def node_inv_def ldb.map_of_range_pairs split: option.splits)

lemma node_pairs_sorted: "node_inv n \<Longrightarrow> sorted_keys (node_pairs n start end)"
  using ldb.range_pairs_sorted
  by (auto simp: node_pairs_def node_inv_def split: option.splits)

lemma node_pairs_cong:
  assumes "node_inv n" "node_inv n'" "\<And>k. in_range start end k \<Longrightarrow> node_get n k = node_get n' k"
  shows "node_pairs n start end = node_pairs n' start end"
  using assms by (intro sorted_keys_unique node_pairs_sorted ext) (auto simp: node_pairs_map)

text \<open>The body of a scan response: the number of pairs, then the pairs.\<close>

definition scan_body :: "(str \<times> str) list \<Rightarrow> bytes" where
  "scan_body ps = be32 (of_nat (length ps)) @ concat (map (\<lambda>(k, v). scan_entry k v) ps)"

lemma scan_fold:
  "fold (\<lambda>p (body, count). (body @ scan_entry (fst p) (snd p), count + 1)) ps (b, c :: u32)
   = (b @ concat (map (\<lambda>(k, v). scan_entry k v) ps), c + of_nat (length ps))"
  by (induction ps arbitrary: b c) (auto simp: algebra_simps)

lemma HandleDataNodeScanRange_range:
  assumes "storage n \<noteq> None" "length start < 2 ^ 16" "length end < 2 ^ 16"
  shows "HandleDataNodeScanRange n (range_payload op start end)
    = Some (ST_OK # scan_body (node_pairs n start end), n)"
proof -
  obtain d where d: "storage n = Some d" using assms(1) by blast
  have "RangeQuery start end (\<lambda>k v (body, count). (True, (body @ scan_entry k v, count + 1))) d ([], 0 :: u32)
    = (concat (map (\<lambda>(k, v). scan_entry k v) (ldb.range_pairs start end d)),
       of_nat (length (ldb.range_pairs start end d)))"
    using RangeQuery_fold [of start "end" "\<lambda>k v (body, count). (body @ scan_entry k v, count + 1)" d
        "([], 0 :: u32)"]
    by (simp add: scan_fold [unfolded split_def] split_def)
  then show ?thesis
    using d assms(2,3)
    by (simp add: HandleDataNodeScanRange_def parse_range_payload scan_body_def node_pairs_def)
qed

lemma HandleDataNodeTabletStats_range:
  assumes "storage n \<noteq> None" "length start < 2 ^ 16" "length end < 2 ^ 16"
  shows "HandleDataNodeTabletStats n (range_payload op start end)
    = Some (ST_OK # be32 (of_nat (length (node_pairs n start end)))
        @ be16 (of_nat (length (node_median n start end))) @ node_median n start end, n)"
  using assms
  by (auto simp: HandleDataNodeTabletStats_def parse_range_payload DataNodeGetTabletStats_def
      RangeStats_keys node_pairs_def node_median_def range_keys_def Let_def)

lemma HandleDataNodeDeleteRange_outcome:
  assumes "node_inv n" "storage n \<noteq> None" "length start < 2 ^ 16" "length end < 2 ^ 16"
  shows "\<exists>n'. HandleDataNodeDeleteRange n (range_payload op start end) = Some ([ST_OK], n')
    \<and> (\<forall>k. node_get n' k = (if in_range start end k \<and> node_writable n then None else node_get n k))"
proof -
  obtain d where d: "storage n = Some d" using assms(2) by blast
  then have inv: "db_inv d" using assms(1) by (simp add: node_inv_def)
  have k: "k \<in> set (range_keys start end d) \<longleftrightarrow> in_range start end k \<and> DB_Get k d \<noteq> None" for k
    by (simp add: set_range_keys [OF inv] live_keys_def)
  have g: "DB_Get k (fold (\<lambda>k d. snd (DB_Delete k d)) (range_keys start end d) d)
      = (if in_range start end k \<and> log_ok d then None else DB_Get k d)" for k
    using ldb.fold_del [OF inv, of "range_keys start end d" k] k [of k] by auto
  let ?n' = "n\<lparr>storage := Some (snd (SE_DeleteRange start end d))\<rparr>"
  have "HandleDataNodeDeleteRange n (range_payload op start end) = Some ([ST_OK], ?n')"
    using d assms(3,4)
    by (simp add: HandleDataNodeDeleteRange_def parse_range_payload SE_DeleteRange_fold)
  then show ?thesis
    using d g by (intro exI [of _ ?n']) (simp add: node_get_def node_writable_def SE_DeleteRange_fold)
qed

text \<open>Property C16 (range requests). On a node with an open database SCAN\_RANGE answers with the
  sorted pairs of the range, TABLET\_STATS with their number and their median key, and
  DELETE\_RANGE with \<open>ST_OK\<close>, after which the range is empty and every other key as before; but
  when the database refuses writes it answers \<open>ST_OK\<close> too, and the range keeps its pairs.\<close>
theorem range_handlers_correct:
  assumes "node_inv n" "storage n \<noteq> None" "length start < 2 ^ 16" "length end < 2 ^ 16"
  shows "\<exists>ps n'. sorted_keys ps
    \<and> (\<forall>k. map_of ps k = (if in_range start end k then node_get n k else None))
    \<and> HandleDataNodeScanRange n (range_payload OP_SCAN_RANGE start end) = Some (ST_OK # scan_body ps, n)
    \<and> (let m = (if ps = [] then [] else fst (ps ! (length ps div 2)))
       in HandleDataNodeTabletStats n (range_payload OP_TABLET_STATS start end)
          = Some (ST_OK # be32 (of_nat (length ps)) @ be16 (of_nat (length m)) @ m, n))
    \<and> HandleDataNodeDeleteRange n (range_payload OP_DELETE_RANGE start end) = Some ([ST_OK], n')
    \<and> (\<forall>k. node_get n' k = (if in_range start end k \<and> node_writable n then None else node_get n k))"
proof -
  have med: "node_median n start end
      = (let ps = node_pairs n start end in if ps = [] then [] else fst (ps ! (length ps div 2)))"
    by (simp add: node_median_def Let_def)
  show ?thesis
    using HandleDataNodeScanRange_range [OF assms(2-4)] HandleDataNodeTabletStats_range [OF assms(2-4)]
      HandleDataNodeDeleteRange_outcome [OF assms] node_pairs_sorted [OF assms(1)]
      node_pairs_map [OF assms(1)] med
    by (intro exI [of _ "node_pairs n start end"]) (auto simp: Let_def)
qed

theorem range_handlers_correct_witness:
  "\<exists>n'. HandleDataNodeDeleteRange sample_node (range_payload OP_DELETE_RANGE [98] []) = Some ([ST_OK], n')
    \<and> node_get n' [98] = None \<and> node_get n' [97] = Some [1]"
proof -
  have "node_writable sample_node" "node_get sample_node [97] = Some [1]"
    by code_simp+
  then show ?thesis
    using range_handlers_correct [of sample_node "[98]" "[]"]
    by (auto simp: in_range_def)
qed

section \<open>Requests that break a handler\<close>

text \<open>The key length of a GET is not checked against the payload; the size check of PUT is a
  32-bit sum that wraps around.\<close>

definition get_overread :: "bytes \<Rightarrow> bool" where
  "get_overread payload \<longleftrightarrow>
     (case (rd16 payload 1, rd32 payload 3) of
        (Some kl, Some vl) \<Rightarrow> vl = 0 \<and> length payload < 7 + unat kl
      | _ \<Rightarrow> False)"

definition put_overread :: "bytes \<Rightarrow> bool" where
  "put_overread payload \<longleftrightarrow>
     (case (rd16 payload 1, rd32 payload 3) of
        (Some kl, Some vl) \<Rightarrow>
          2 ^ 32 \<le> 7 + unat kl + unat vl \<and> 7 + unat kl + unat vl - 2 ^ 32 \<le> length payload
      | _ \<Rightarrow> False)"

lemma kv_header:
  obtains (short) "length payload < 7" "rd32 payload 3 = None"
  | (header) kl vl where "7 \<le> length payload" "rd16 payload 1 = Some kl" "rd32 payload 3 = Some vl"
  using rd16_None_iff [of payload 1] rd32_None_iff [of payload 3] by fastforce

lemma HandleDataNodeGet_None_iff: "HandleDataNodeGet n payload = None \<longleftrightarrow> get_overread payload"
proof (cases payload rule: kv_header)
  case short
  then show ?thesis by (simp add: HandleDataNodeGet_def get_overread_def split: option.split)
next
  case (header kl vl)
  have "subbuf payload 7 (unat kl) = None \<longleftrightarrow> length payload < 7 + unat kl"
    by (rule subbuf_None_iff)
  with header show ?thesis by (cases "subbuf payload 7 (unat kl)")
      (auto simp: HandleDataNodeGet_def get_overread_def split: option.splits)
qed

lemma HandleDataNodeDelete_total: "HandleDataNodeDelete n payload \<noteq> None"
proof (cases payload rule: kv_header)
  case (header kl vl)
  then show ?thesis using subbuf_None_iff [of payload 7 "unat kl"]
    by (cases "subbuf payload 7 (unat kl)")
      (auto simp: HandleDataNodeDelete_def split: option.splits prod.splits)
qed (simp add: HandleDataNodeDelete_def)

lemma wrapped_sum:
  "unat (7 + ucast (kl :: u16) + vl :: u32) = (7 + unat kl + unat vl) mod 4294967296"
  by (simp add: unat_word_ariths mod_simps)

lemma HandleDataNodePut_None_iff:
  assumes small: "length payload < 2 ^ 32"
  shows "HandleDataNodePut n payload = None \<longleftrightarrow> put_overread payload"
proof (cases payload rule: kv_header)
  case short
  then show ?thesis by (simp add: HandleDataNodePut_def put_overread_def split: option.split)
next
  case rd: (header kl vl)
  let ?sum = "7 + unat kl + unat vl"
  have bound: "?sum < 2 * 2 ^ 32"
    using unat_u16_bound [of kl] unat_u32_bound [of vl] by simp
  have wrap: "?sum mod 4294967296 = (if 2 ^ 32 \<le> ?sum then ?sum - 2 ^ 32 else ?sum)"
    using bound by (simp add: mod_if le_mod_geq)
  show ?thesis
  proof (cases "length payload < ?sum mod 4294967296")
    case True
    then show ?thesis
      using rd wrap by (auto simp: HandleDataNodePut_def put_overread_def wrapped_sum split: if_splits)
  next
    case fits: False
    have "subbuf payload (7 + unat kl) (unat vl) = None \<longleftrightarrow> length payload < ?sum"
      by (simp add: subbuf_None_iff)
    moreover have "subbuf payload 7 (unat kl) = None \<Longrightarrow> length payload < ?sum"
      by (simp add: subbuf_None_iff)
    moreover have "length payload < ?sum \<longleftrightarrow> 2 ^ 32 \<le> ?sum"
      using fits wrap assms by (auto split: if_splits)
    ultimately show ?thesis
      using rd wrap fits
      by (cases "subbuf payload 7 (unat kl)"; cases "subbuf payload (7 + unat kl) (unat vl)")
        (auto simp: HandleDataNodePut_def put_overread_def wrapped_sum
          split: option.splits prod.splits if_splits)
  qed
qed

lemma range_handlers_total:
  "HandleDataNodeTabletStats n payload \<noteq> None"
  "HandleDataNodeScanRange n payload \<noteq> None"
  "HandleDataNodeDeleteRange n payload \<noteq> None"
  using parse_range_no_fault [of payload]
  by (auto simp: HandleDataNodeTabletStats_def HandleDataNodeScanRange_def
      HandleDataNodeDeleteRange_def split: option.splits prod.splits)

end
