(* ===== verification/Rpc_Client.thy ===== *)
theory Rpc_Client
  imports Binary_Protocol "HOL-Library.Sublist"
begin

text \<open>
  The stream layer of \<open>src/src/rpc/rpc_client.{h,cpp}\<close>. The kernel's socket is outside the
  sources: a connection is given by the list of results its successive \<open>::recv\<close> calls
  return (\<open>recv_event\<close>) and by the script of what its \<open>::send\<close> calls accept
  (\<open>send_event\<close>; an exhausted script means that the kernel takes everything). A
  \<open>recv\<close> list that runs out stands for a socket on which nothing more arrives: the caller
  is then \<open>Starved\<close>, which the client turns into a timeout (its sockets carry
  \<open>SO_RCVTIMEO\<close>) and the server into a blocked thread.
\<close>

section \<open>Socket events\<close>

datatype recv_event = Data bytes | Eof | Again | RecvErr

text \<open>Every \<open>::send\<close> of the program has flags 0, and nothing in it ignores \<open>SIGPIPE\<close>: a send on a
  connection that the peer has reset (\<open>SendPipe\<close>) does not return an error, the signal ends the
  process. \<open>SendErr\<close> stands for the other errors, which raise no signal.\<close>

datatype send_event = Sent nat | SendAgain | SendErr | SendPipe

datatype send_result =
    SendDone    \<comment> \<open>the kernel took all bytes\<close>
  | SendFailed  \<comment> \<open>the loop gave up\<close>
  | SendKilled  \<comment> \<open>\<open>SIGPIPE\<close> ended the process\<close>

datatype recv_status = Got | Failed | Starved

fun stream :: "recv_event list \<Rightarrow> bytes" where
  "stream [] = []"
| "stream (Data bs # es) = bs @ stream es"
| "stream (e # es) = stream es"

fun agains :: "recv_event list \<Rightarrow> nat" where
  "agains [] = 0"
| "agains (Again # es) = Suc (agains es)"
| "agains (e # es) = agains es"

text \<open>A quiet connection: non-empty chunks and fewer \<open>EAGAIN\<close>s than the timeout allows.\<close>

definition quiet_event :: "recv_event \<Rightarrow> bool" where
  "quiet_event e \<longleftrightarrow> e = Again \<or> (\<exists>b bs. e = Data (b # bs))"

definition calm :: "int \<Rightarrow> recv_event list \<Rightarrow> bool" where
  "calm timeout_ms es \<longleftrightarrow> (\<forall>e \<in> set es. quiet_event e) \<and> 10 * int (agains es) < timeout_ms"

lemma stream_append [simp]: "stream (es @ fs) = stream es @ stream fs"
  by (induction es rule: stream.induct) auto

section \<open>The receive loop\<close>

fun recv_loop :: "nat \<Rightarrow> int \<Rightarrow> bytes \<Rightarrow> recv_event list \<Rightarrow> recv_status \<times> bytes \<times> recv_event list" where
  "recv_loop need timeout_ms buf [] = (if length buf < need then Starved else Got, buf, [])"
| "recv_loop need timeout_ms buf (e # es) =
     (if length buf < need then
        (case e of
           Data tmp \<Rightarrow> if tmp = [] then (Failed, buf, es)
                       else recv_loop need timeout_ms (buf @ tmp) es
         | Eof \<Rightarrow> (Failed, buf, es)
         | Again \<Rightarrow> if timeout_ms - 10 \<le> 0 then (Failed, buf, es)
                    else recv_loop need (timeout_ms - 10) buf es
         | RecvErr \<Rightarrow> (Failed, buf, es))
      else (Got, buf, e # es))"

lemma recv_loop_enough [simp]: "need \<le> length buf \<Longrightarrow> recv_loop need t buf es = (Got, buf, es)"
  by (cases es) auto

lemma recv_loop_conserves:
  "fst (snd (recv_loop need t buf es)) @ stream (snd (snd (recv_loop need t buf es)))
   = buf @ stream es"
  by (induction need t buf es rule: recv_loop.induct) (simp_all split: recv_event.split)

lemma recv_loop_bytes:
  "recv_loop need t buf es = (st, buf', es') \<Longrightarrow> buf' @ stream es' = buf @ stream es"
  using recv_loop_conserves [of need t buf es] by simp

lemma recv_loop_status:
  "case recv_loop need t buf es of (st, buf', es') \<Rightarrow>
     (st = Got \<longrightarrow> need \<le> length buf') \<and> (st = Starved \<longrightarrow> es' = [] \<and> length buf' < need)"
  by (induction need t buf es rule: recv_loop.induct) (simp_all split: recv_event.split)

lemma recv_loop_Got: "recv_loop need t buf es = (Got, buf', es') \<Longrightarrow> need \<le> length buf'"
  using recv_loop_status [of need t buf es] by simp

lemma recv_loop_Starved:
  "recv_loop need t buf es = (Starved, buf', es') \<Longrightarrow> es' = [] \<and> length buf' < need"
  using recv_loop_status [of need t buf es] by simp

lemma calm_tail: "calm t (e # es) \<Longrightarrow> calm t es"
  by (cases e) (auto simp: calm_def)

lemma recv_loop_calm:
  assumes "calm t es"
  shows "\<exists>buf' es'. recv_loop need t buf es
      = (if length (buf @ stream es) < need then Starved else Got, buf', es')
    \<and> (\<forall>t'. calm t' es \<longrightarrow> calm t' es')"
  using assms
proof (induction need t buf es rule: recv_loop.induct)
  case (1 need t buf)
  then show ?case by simp
next
  case (2 need t buf e es)
  show ?case
  proof (cases "length buf < need")
    case False
    then show ?thesis by simp
  next
    case short: True
    show ?thesis
    proof (cases e)
      case (Data tmp)
      with "2.prems" have "tmp \<noteq> []" by (auto simp: calm_def quiet_event_def)
      with "2.IH"(1) [OF short Data] "2.prems" short Data show ?thesis
        by (fastforce dest: calm_tail)
    next
      case Again
      with "2.prems" have "calm (t - 10) es" "\<not> t - 10 \<le> 0" by (auto simp: calm_def)
      with "2.IH"(2) [OF short Again] short Again show ?thesis
        by (fastforce dest: calm_tail)
    qed (use "2.prems" in \<open>auto simp: calm_def quiet_event_def\<close>)
  qed
qed

lemma recv_loop_calm_Got:
  assumes "calm t es" "need \<le> length (buf @ stream es)"
  obtains buf' es' where "recv_loop need t buf es = (Got, buf', es')"
    "buf' @ stream es' = buf @ stream es" "need \<le> length buf'" "\<And>t'. calm t' es \<Longrightarrow> calm t' es'"
  using recv_loop_calm [OF assms(1), of need buf] assms(2)
  by (auto dest: recv_loop_bytes recv_loop_Got)

lemma recv_loop_calm_Starved:
  assumes "calm t es" "length (buf @ stream es) < need"
  shows "recv_loop need t buf es = (Starved, buf @ stream es, [])"
proof -
  from recv_loop_calm [OF assms(1), of need buf] assms(2) obtain buf' es' where
    r: "recv_loop need t buf es = (Starved, buf', es')" by auto
  with recv_loop_Starved [OF r] recv_loop_bytes [OF r] show ?thesis by simp
qed

lemma take_drop_frame:
  assumes "buf @ xs = frame @ rest" "length frame = n" "n \<le> length buf"
  shows "take n buf = frame" "drop n buf @ xs = rest"
proof -
  have "take n (buf @ xs) = frame" "drop n (buf @ xs) = rest"
    using assms(1,2) by simp_all
  then show "take n buf = frame" "drop n buf @ xs = rest"
    using assms(3) by simp_all
qed

section \<open>The client connection\<close>

record rpc_client =
  client_fd :: int
  client_buf :: bytes

definition new_client :: rpc_client where
  "new_client = \<lparr>client_fd = -1, client_buf = []\<rparr>"

definition IsConnected :: "rpc_client \<Rightarrow> bool" where
  "IsConnected c \<longleftrightarrow> client_fd c \<ge> 0"

definition Close :: "rpc_client \<Rightarrow> rpc_client" where
  "Close c = (if client_fd c \<ge> 0 then c\<lparr>client_fd := -1\<rparr> else c)"

text \<open>\<open>sock\<close> is what \<open>socket()\<close> returned, \<open>accepted\<close> whether \<open>connect()\<close> returned 0.\<close>

definition Connect :: "int \<Rightarrow> bool \<Rightarrow> rpc_client \<Rightarrow> bool \<times> rpc_client" where
  "Connect sock accepted c =
     (let c = (Close c)\<lparr>client_fd := sock\<rparr>
      in if client_fd c < 0 then (False, c) else (accepted, c))"

fun send_loop :: "bytes \<Rightarrow> send_event list \<Rightarrow> send_result \<times> bytes \<times> send_event list" where
  "send_loop data [] = (SendDone, data, [])"
| "send_loop data (e # ss) =
     (if data = [] then (SendDone, [], e # ss)
      else (case e of
          SendAgain \<Rightarrow> send_loop data ss
        | SendErr \<Rightarrow> (SendFailed, [], ss)
        | SendPipe \<Rightarrow> (SendKilled, [], ss)
        | Sent n \<Rightarrow>
            (if n = 0 then (SendFailed, [], ss)
             else (case send_loop (drop n data) ss of
                     (ok, wire, ss') \<Rightarrow> (ok, take n data @ wire, ss')))))"

definition Send :: "rpc_client \<Rightarrow> bytes \<Rightarrow> send_event list \<Rightarrow> send_result \<times> bytes \<times> send_event list" where
  "Send c data ss = (if client_fd c < 0 then (SendFailed, [], ss) else send_loop data ss)"

definition RecvAll ::
  "nat \<Rightarrow> int \<Rightarrow> rpc_client \<Rightarrow> recv_event list \<Rightarrow> bool \<times> rpc_client \<times> recv_event list" where
  "RecvAll total_needed timeout_ms c es =
     (if client_fd c < 0 then (False, c, es)
      else case recv_loop total_needed timeout_ms (client_buf c) es of
        (st, buf, es') \<Rightarrow> (st = Got, c\<lparr>client_buf := buf\<rparr>, es'))"

definition RecvFrame ::
  "int \<Rightarrow> rpc_client \<Rightarrow> recv_event list \<Rightarrow> bytes option \<times> rpc_client \<times> recv_event list" where
  "RecvFrame timeout_ms c es =
     (case RecvAll 4 timeout_ms c es of
        (False, c1, es1) \<Rightarrow> (None, c1, es1)
      | (True, c1, es1) \<Rightarrow>
          (case rd32 (client_buf c1) 0 of
             None \<Rightarrow> (None, c1, es1) \<comment> \<open>not reached: four bytes are there\<close>
           | Some frame_len \<Rightarrow>
               if unat frame_len < 10 then (None, c1, es1)
               else (case RecvAll (unat frame_len) timeout_ms c1 es1 of
                       (False, c2, es2) \<Rightarrow> (None, c2, es2)
                     | (True, c2, es2) \<Rightarrow>
                         (Some (take (unat frame_len) (client_buf c2)),
                          c2\<lparr>client_buf := drop (unat frame_len) (client_buf c2)\<rparr>, es2))))"

section \<open>Sending\<close>

lemma prefix_take_append: "prefix wire (drop n data) \<Longrightarrow> prefix (take n data @ wire) data"
  by (metis append_take_drop_id same_prefix_prefix)

lemma send_loop_prefix:
  "case send_loop data ss of (ok, wire, ss') \<Rightarrow> prefix wire data \<and> (ok = SendDone \<longrightarrow> wire = data)"
proof (induction data ss rule: send_loop.induct)
  case (1 data)
  then show ?case by simp
next
  case (2 data e ss)
  show ?case
  proof (cases "data \<noteq> [] \<and> (\<exists>n. e = Sent (Suc n))")
    case True
    then obtain n where e: "data \<noteq> []" "e = Sent (Suc n)" by blast
    obtain ok wire ss' where r: "send_loop (drop (Suc n) data) ss = (ok, wire, ss')"
      by (cases "send_loop (drop (Suc n) data) ss") auto
    with "2.IH"(1) [OF e] have "prefix wire (drop (Suc n) data)" "ok = SendDone \<longrightarrow> wire = drop (Suc n) data"
      by simp_all
    with e r show ?thesis by (auto intro: prefix_take_append)
  next
    case False
    with "2.IH"(2) show ?thesis
      by (cases e) (auto simp: gr0_conv_Suc)
  qed
qed

text \<open>Partial writes. However the kernel splits or interrupts the writes, what
  \<open>Send\<close> puts on the wire is a prefix of the request, and it is the whole request when
  \<open>Send\<close> reports success.\<close>
lemma Send_prefix:
  "case Send c data ss of (ok, wire, ss') \<Rightarrow> prefix wire data \<and> (ok = SendDone \<longrightarrow> wire = data)"
  using send_loop_prefix [of data ss] by (simp add: Send_def)

section \<open>Receiving frames\<close>

lemma RecvAll_calm:
  assumes "client_fd c \<ge> 0" "calm t es" "need \<le> length (client_buf c @ stream es)"
  obtains c' es' where "RecvAll need t c es = (True, c', es')" "client_fd c' = client_fd c"
    "client_buf c' @ stream es' = client_buf c @ stream es" "need \<le> length (client_buf c')"
    "\<And>t'. calm t' es \<Longrightarrow> calm t' es'"
proof -
  from recv_loop_calm_Got [OF assms(2,3)] obtain buf' es' where
    "recv_loop need t (client_buf c) es = (Got, buf', es')"
    "buf' @ stream es' = client_buf c @ stream es" "need \<le> length buf'"
    "\<And>t'. calm t' es \<Longrightarrow> calm t' es'" by metis
  then show thesis
    using that [of "c\<lparr>client_buf := buf'\<rparr>" es'] assms(1) by (simp add: RecvAll_def)
qed

lemma rd32_stream:
  assumes "buf @ xs = EncodeCustomRequest rid payload @ rest" "4 \<le> length buf"
  shows "rd32 buf 0 = Some (10 + of_nat (length payload))"
proof -
  have "rd32 (buf @ xs) 0 = Some (10 + of_nat (length payload))"
    using assms(1) frame_rd(1) by simp
  moreover have "rd32 buf 0 \<noteq> None"
    using assms(2) by (simp add: rd32_None_iff)
  ultimately show ?thesis
    using rd32_prefix [of buf 0 _ xs] by auto
qed

lemma RecvFrame_run:
  assumes "client_fd c \<ge> 0" "calm t es" "frame_fits payload"
    and "client_buf c @ stream es = EncodeCustomRequest rid payload @ rest"
  shows "\<exists>c' es'. RecvFrame t c es = (Some (EncodeCustomRequest rid payload), c', es')
    \<and> client_fd c' = client_fd c \<and> client_buf c' @ stream es' = rest \<and> calm t es'"
proof -
  let ?f = "EncodeCustomRequest rid payload"
  have "4 \<le> length (client_buf c @ stream es)" using assms(4) by simp
  then obtain c1 es1 where r1: "RecvAll 4 t c es = (True, c1, es1)" "client_fd c1 = client_fd c"
    "client_buf c1 @ stream es1 = ?f @ rest" "4 \<le> length (client_buf c1)" "calm t es1"
    using RecvAll_calm [OF assms(1,2)] assms(2,4) by metis
  have fl: "rd32 (client_buf c1) 0 = Some (10 + of_nat (length payload))"
    "unat (10 + of_nat (length payload) :: u32) = length ?f"
    using rd32_stream [OF r1(3,4)] frame_len_word [OF assms(3)] by simp_all
  have "length ?f \<le> length (client_buf c1 @ stream es1)" unfolding r1(3) by simp
  then obtain c2 es2 where r2: "RecvAll (length ?f) t c1 es1 = (True, c2, es2)"
    "client_fd c2 = client_fd c" "client_buf c2 @ stream es2 = ?f @ rest"
    "length ?f \<le> length (client_buf c2)" "calm t es2"
    using RecvAll_calm [of c1 t es1 "length ?f"] assms(1) r1 by metis
  from take_drop_frame [OF r2(3) refl r2(4)] r1 r2 fl show ?thesis
    by (simp add: RecvFrame_def)
qed

text \<open>Property C23 (reassembly). If the bytes buffered and still to arrive begin with a frame,
  \<open>RecvFrame\<close> returns exactly that frame however the stream is cut into chunks, as long as
  the \<open>EAGAIN\<close>s stay under the timeout; the bytes after the frame stay available.\<close>
theorem RecvFrame_reassembles:
  assumes "client_fd c \<ge> 0" "calm t es" "frame_fits payload"
    and "client_buf c @ stream es = EncodeCustomRequest rid payload @ rest"
  shows "\<exists>c' es'. RecvFrame t c es = (Some (EncodeCustomRequest rid payload), c', es')
    \<and> client_fd c' = client_fd c \<and> client_buf c' @ stream es' = rest \<and> calm t es'"
  by (rule RecvFrame_run [OF assms])

theorem RecvFrame_reassembles_witness:
  "\<exists>c' es'. RecvFrame 3000 \<lparr>client_fd = 3, client_buf = [0, 0]\<rparr>
       [Data [0, 11, 76], Again, Data [1, 0, 0, 0, 7, 9, 99]]
     = (Some [0, 0, 0, 11, 76, 1, 0, 0, 0, 7, 9], c', es') \<and> client_buf c' @ stream es' = [99]"
proof -
  have f: "EncodeCustomRequest 7 [9] = [0, 0, 0, 11, 76, 1, 0, 0, 0, 7, 9]"
    by (simp add: EncodeCustomRequest_def be32_def MAGIC_def VERSION_def)
  show ?thesis
    using RecvFrame_reassembles [of "\<lparr>client_fd = 3, client_buf = [0, 0]\<rparr>" 3000
        "[Data [0, 11, 76], Again, Data [1, 0, 0, 0, 7, 9, 99]]" "[9]" 7 "[99]"]
    by (auto simp: calm_def quiet_event_def frame_fits_def f)
qed

text \<open>Property C40 (a poisoned connection). Once four buffered bytes declare a frame shorter
  than a header, \<open>RecvFrame\<close> fails without consuming anything, and so does every later
  call, also after \<open>Close\<close> and a successful \<open>Connect\<close>, which keep the receive buffer.\<close>
theorem RecvFrame_poisoned:
  assumes "4 \<le> length (client_buf c)" "rd32 (client_buf c) 0 = Some fl" "unat fl < 10"
    and "sock \<ge> 0"
  shows "RecvFrame t c es = (None, c, es)
    \<and> RecvFrame t' (snd (Connect sock True (Close c))) es'
        = (None, snd (Connect sock True (Close c)), es')"
proof -
  have "RecvFrame t d es = (None, d, es)" if "client_buf d = client_buf c" for d t es
    using assms that by (simp add: RecvFrame_def RecvAll_def)
  moreover have "client_buf (snd (Connect sock True (Close c))) = client_buf c"
    by (simp add: Connect_def Close_def Let_def)
  ultimately show ?thesis by blast
qed

theorem RecvFrame_poisoned_witness:
  "RecvFrame 3000 \<lparr>client_fd = 3, client_buf = [0, 0, 0, 9]\<rparr> [Data [1]]
     = (None, \<lparr>client_fd = 3, client_buf = [0, 0, 0, 9]\<rparr>, [Data [1]])
   \<and> RecvFrame 3000 \<lparr>client_fd = 4, client_buf = [0, 0, 0, 9]\<rparr> [Data [2]]
     = (None, \<lparr>client_fd = 4, client_buf = [0, 0, 0, 9]\<rparr>, [Data [2]])"
proof -
  have "rd32 (client_buf \<lparr>client_fd = 3, client_buf = [0, 0, 0, 9]\<rparr>) 0 = Some 9" by code_simp
  from RecvFrame_poisoned [OF _ this, of 4 3000 "[Data [1]]" 3000 "[Data [2]]"]
  show ?thesis by (simp add: Connect_def Close_def Let_def)
qed

end
