(* ===== verification/Rpc_Server.thy ===== *)
theory Rpc_Server
  imports Rpc_Client
begin

text \<open>
  The request loop of a server connection, \<open>BinaryRpcServer::HandleClient\<close> of
  \<open>src/src/rpc/rpc_server.cpp\<close>. The handler is the parameter \<open>binary_handler\<close>: it takes
  the server's state, the request id and the payload and returns the response payload and the
  new state, or \<open>None\<close> where it has undefined behaviour. The loop returns the bytes put on
  the wire, how it ended, the unread buffer and the state.
\<close>

section \<open>The connection loop\<close>

type_synonym 's binary_handler = "'s \<Rightarrow> u32 \<Rightarrow> bytes \<Rightarrow> (bytes \<times> 's) option"

datatype conn_end =
    Closed   \<comment> \<open>the loop was left and the descriptor closed\<close>
  | Waiting  \<comment> \<open>the thread is blocked in \<open>::recv\<close>\<close>
  | Killed   \<comment> \<open>\<open>SIGPIPE\<close> ended the whole process\<close>

text \<open>Any result of \<open>::send\<close> that is not positive ends the loop, \<open>EAGAIN\<close> included; a reset connection
  ends the process.\<close>

fun send_response :: "bytes \<Rightarrow> send_event list \<Rightarrow> send_result \<times> bytes \<times> send_event list" where
  "send_response data [] = (SendDone, data, [])"
| "send_response data (e # ss) =
     (if data = [] then (SendDone, [], e # ss)
      else (case e of
          Sent n \<Rightarrow>
            (if n = 0 then (SendFailed, [], ss)
             else (case send_response (drop n data) ss of
                     (ok, wire, ss') \<Rightarrow> (ok, take n data @ wire, ss')))
        | SendPipe \<Rightarrow> (SendKilled, [], ss)
        | _ \<Rightarrow> (SendFailed, [], ss)))"

definition server_recv_all ::
  "nat \<Rightarrow> int \<Rightarrow> bytes \<Rightarrow> recv_event list \<Rightarrow> recv_status \<times> bytes \<times> recv_event list" where
  "server_recv_all need timeout_ms buf es = recv_loop need timeout_ms buf es"

text \<open>How the connection ends after an answer that could not be sent.\<close>

definition send_end :: "send_result \<Rightarrow> conn_end" where
  "send_end ok = (if ok = SendKilled then Killed else Closed)"

definition conn_end_of :: "recv_status \<Rightarrow> conn_end" where
  "conn_end_of st = (if st = Starved then Waiting else Closed)"

function HandleClient ::
  "'s binary_handler \<Rightarrow> bytes \<Rightarrow> recv_event list \<Rightarrow> send_event list \<Rightarrow> 's
   \<Rightarrow> (bytes \<times> conn_end \<times> bytes \<times> 's) option" where
  "HandleClient binary_handler buf es ss s =
     (case server_recv_all 4 5000 buf es of (st1, buf1, es1) \<Rightarrow>
        if st1 \<noteq> Got then Some ([], conn_end_of st1, buf1, s)
        else do {
          frame_len \<leftarrow> rd32 buf1 0;
          if unat frame_len < 10 then Some ([], Closed, buf1, s)
          else (case server_recv_all (unat frame_len) 5000 buf1 es1 of (st2, buf2, es2) \<Rightarrow>
            if st2 \<noteq> Got then Some ([], conn_end_of st2, buf2, s)
            else do {
              let frame = take (unat frame_len) buf2;
              let buf3 = drop (unat frame_len) buf2;
              (consumed, decoded) \<leftarrow> TryDecode frame;
              (case decoded of
                 None \<Rightarrow> HandleClient binary_handler buf3 es2 ss s
               | Some (req_id, payload) \<Rightarrow> do {
                   (resp, s') \<leftarrow> binary_handler s req_id payload;
                   let resp_payload = (if resp = [] then [ST_BAD_REQUEST] else resp);
                   let resp_frame = EncodeResponse req_id (hd resp_payload) (tl resp_payload);
                   (case send_response resp_frame ss of (ok, wire, ss') \<Rightarrow>
                     if ok \<noteq> SendDone then Some (wire, send_end ok, buf3, s')
                     else do {
                       (out, rest) \<leftarrow> HandleClient binary_handler buf3 es2 ss' s';
                       Some (wire @ out, rest)
                     })
                 })
            })
        })"
  by pat_completeness auto

lemma HandleClient_measure:
  assumes "(Got, buf1, es1) = server_recv_all 4 5000 buf es"
    and "\<not> unat fl < 10"
    and "(Got, buf2, es2) = server_recv_all (unat fl) 5000 buf1 es1"
  shows "length (drop (unat fl) buf2) + length (stream es2) < length buf + length (stream es)"
proof -
  have "buf1 @ stream es1 = buf @ stream es" "buf2 @ stream es2 = buf1 @ stream es1"
    and fl: "unat fl \<le> length buf2"
    using assms(1,3) recv_loop_bytes recv_loop_Got unfolding server_recv_all_def by metis+
  then have "length buf2 + length (stream es2) = length buf + length (stream es)"
    by (metis length_append)
  with assms(2) fl show ?thesis by simp
qed

lemma HandleClient_decreases:
  assumes "(x, y) = server_recv_all 4 5000 buf es" "(xa, ya) = y" "\<not> x \<noteq> Got" "\<not> unat fl < 10"
    and "(xb, yb) = server_recv_all (unat fl) 5000 xa ya" "(xc, yc) = yb" "\<not> xb \<noteq> Got"
    and "rest = drop (unat fl) xc"
  shows "((h', rest, yc, ss', s'), (h, buf, es, ss, s))
    \<in> measure (\<lambda>(h, buf, es, ss, s). length buf + length (stream es))"
proof -
  have "(Got, xa, ya) = server_recv_all 4 5000 buf es"
    "(Got, xc, yc) = server_recv_all (unat fl) 5000 xa ya"
    using assms(1-3,5-7) by auto
  from HandleClient_measure [OF this(1) assms(4) this(2)] show ?thesis
    unfolding assms(8) by simp
qed

termination HandleClient
  by (relation "measure (\<lambda>(h, buf, es, ss, s). length buf + length (stream es))",
      rule wf_measure, (rule HandleClient_decreases, assumption+)+)

declare HandleClient.simps [simp del]

section \<open>What a connection computes\<close>

text \<open>
  The abstract view of a connection: a list of requests answered one by one, each response
  carrying its request's id. An empty response payload of the handler becomes
  \<open>ST_BAD_REQUEST\<close>.
\<close>

definition respond :: "u32 \<Rightarrow> bytes \<Rightarrow> bytes" where
  "respond rid resp =
     (let r = (if resp = [] then [ST_BAD_REQUEST] else resp)
      in EncodeResponse rid (hd r) (tl r))"

fun serve :: "'s binary_handler \<Rightarrow> 's \<Rightarrow> (u32 \<times> bytes) list \<Rightarrow> (bytes \<times> 's) option" where
  "serve h s [] = Some ([], s)"
| "serve h s ((rid, payload) # reqs) = do {
     (resp, s') \<leftarrow> h s rid payload;
     (out, s'') \<leftarrow> serve h s' reqs;
     Some (respond rid resp @ out, s'')
   }"

abbreviation frames :: "(u32 \<times> bytes) list \<Rightarrow> bytes" where
  "frames reqs \<equiv> concat (map (\<lambda>(rid, payload). EncodeCustomRequest rid payload) reqs)"

lemma HandleClient_starved:
  assumes "calm 5000 es" "length (buf @ stream es) < 4"
  shows "HandleClient h buf es ss s = Some ([], Waiting, buf @ stream es, s)"
  using recv_loop_calm_Starved [OF assms]
  by (simp add: HandleClient.simps server_recv_all_def conn_end_of_def)

text \<open>One whole frame at the front of the stream: the two receive loops, and what is left.\<close>

lemma server_reads_frame:
  assumes "calm 5000 es" "frame_fits payload"
    and "buf @ stream es = EncodeCustomRequest rid payload @ rest"
  obtains buf1 es1 buf2 es2 where
    "server_recv_all 4 5000 buf es = (Got, buf1, es1)"
    "rd32 buf1 0 = Some (10 + of_nat (length payload))"
    "server_recv_all (10 + length payload) 5000 buf1 es1 = (Got, buf2, es2)"
    "take (10 + length payload) buf2 = EncodeCustomRequest rid payload"
    "drop (10 + length payload) buf2 @ stream es2 = rest" "calm 5000 es2"
proof -
  let ?f = "EncodeCustomRequest rid payload"
  have "4 \<le> length (buf @ stream es)" unfolding assms(3) by simp
  then obtain buf1 es1 where r1: "recv_loop 4 5000 buf es = (Got, buf1, es1)"
    "buf1 @ stream es1 = ?f @ rest" "4 \<le> length buf1" "calm 5000 es1"
    using recv_loop_calm_Got [OF assms(1)] assms(1,3) by metis
  have "10 + length payload \<le> length (buf1 @ stream es1)" unfolding r1(2) by simp
  then obtain buf2 es2 where r2: "recv_loop (10 + length payload) 5000 buf1 es1 = (Got, buf2, es2)"
    "buf2 @ stream es2 = ?f @ rest" "10 + length payload \<le> length buf2" "calm 5000 es2"
    using recv_loop_calm_Got [OF r1(4)] r1(2,4) by metis
  show thesis
    using that r1 r2 rd32_stream [OF r1(2,3)] take_drop_frame [OF r2(2) _ r2(3)]
    by (simp add: server_recv_all_def)
qed

lemma HandleClient_request:
  assumes "calm 5000 es" "frame_fits payload"
    and "buf @ stream es = EncodeCustomRequest rid payload @ rest"
  obtains buf' es' where "calm 5000 es'" "buf' @ stream es' = rest"
    "HandleClient h buf es [] s = do {
       (resp, s') \<leftarrow> h s rid payload;
       (out, r) \<leftarrow> HandleClient h buf' es' [] s';
       Some (respond rid resp @ out, r) }"
proof -
  from server_reads_frame [OF assms] obtain buf1 es1 buf2 es2 where r:
    "server_recv_all 4 5000 buf es = (Got, buf1, es1)"
    "rd32 buf1 0 = Some (10 + of_nat (length payload))"
    "server_recv_all (10 + length payload) 5000 buf1 es1 = (Got, buf2, es2)"
    "take (10 + length payload) buf2 = EncodeCustomRequest rid payload"
    "drop (10 + length payload) buf2 @ stream es2 = rest" "calm 5000 es2" by metis
  have "TryDecode (EncodeCustomRequest rid payload) = Some (10 + length payload, Some (rid, payload))"
    using TryDecode_frame [OF assms(2), of rid "[]"] by simp
  with r frame_len_word [OF assms(2)]
  have "HandleClient h buf es [] s = do {
       (resp, s') \<leftarrow> h s rid payload;
       (out, r) \<leftarrow> HandleClient h (drop (10 + length payload) buf2) es2 [] s';
       Some (respond rid resp @ out, r) }"
    by (subst HandleClient.simps) (simp add: respond_def Let_def split_def)
  with r(5,6) that show thesis by blast
qed

lemma HandleClient_run:
  assumes "calm 5000 es" "\<forall>(rid, payload) \<in> set reqs. frame_fits payload"
    and "buf @ stream es = frames reqs"
  shows "HandleClient h buf es [] s
         = map_option (\<lambda>(out, s'). (out, Waiting, [], s')) (serve h s reqs)"
  using assms
proof (induction reqs arbitrary: buf es s)
  case Nil
  then show ?case using HandleClient_starved [of es buf h "[]" s] by simp
next
  case (Cons r reqs)
  obtain rid payload where r: "r = (rid, payload)" by (cases r)
  have fits: "frame_fits payload" using Cons.prems(2) r by simp
  have front: "buf @ stream es = EncodeCustomRequest rid payload @ frames reqs"
    using Cons.prems(3) r by simp
  obtain buf' es' where step: "calm 5000 es'" "buf' @ stream es' = frames reqs"
    "HandleClient h buf es [] s = do {
       (resp, s') \<leftarrow> h s rid payload;
       (out, r) \<leftarrow> HandleClient h buf' es' [] s';
       Some (respond rid resp @ out, r) }"
    by (rule HandleClient_request [OF Cons.prems(1) fits front])
  have "HandleClient h buf' es' [] s'
      = map_option (\<lambda>(out, s''). (out, Waiting, [], s'')) (serve h s' reqs)" for s'
    using Cons.IH [OF step(1) _ step(2)] Cons.prems(2) by simp
  with step(3) r show ?case
    by (cases "h s rid payload") (auto split: option.splits prod.splits bind_splits)
qed

text \<open>Property C11 (request pipelining). A stream of well-formed request frames, cut into chunks
  in any way, is answered request by request in order: the connection puts exactly the
  responses of \<open>serve\<close> on the wire, ends blocked with an empty buffer, and the handler's
  state is the one after all requests.\<close>
theorem HandleClient_serves:
  assumes "calm 5000 es" "\<forall>(rid, payload) \<in> set reqs. frame_fits payload"
    and "buf @ stream es = frames reqs"
  shows "HandleClient h buf es [] s
         = map_option (\<lambda>(out, s'). (out, Waiting, [], s')) (serve h s reqs)"
  by (rule HandleClient_run [OF assms])

theorem HandleClient_serves_witness:
  "HandleClient (\<lambda>s rid p. Some (ST_OK # p, s + rid)) [0, 0]
     [Data [0, 11, 76], Again, Data [1, 0, 0, 0, 7, 9]] [] 5
   = Some ([0, 0, 0, 16, 76, 1, 0, 0, 0, 7, 0, 0, 0, 0, 1, 9], Waiting, [], 12)"
proof -
  have "[0, 0] @ stream [Data [0, 11, 76], Again, Data [1, 0, 0, 0, 7, 9]] = frames [(7, [9])]"
    by (simp add: EncodeCustomRequest_def be32_def MAGIC_def VERSION_def)
  moreover have "respond 7 (ST_OK # [9]) = [0, 0, 0, 16, 76, 1, 0, 0, 0, 7, 0, 0, 0, 0, 1, 9]"
    by code_simp
  ultimately show ?thesis
    using HandleClient_serves [of "[Data [0, 11, 76], Again, Data [1, 0, 0, 0, 7, 9]]"
        "[(7, [9])]" "[0, 0]" "\<lambda>s rid p. Some (ST_OK # p, s + rid)" 5]
    by (simp add: calm_def quiet_event_def frame_fits_def)
qed

section \<open>Malformed input\<close>

lemma recv_loop_header:
  assumes "recv_loop need t buf es = (st, buf', es')" "rd32 buf 0 = Some fl"
  shows "rd32 buf' 0 = Some fl"
proof -
  have "prefix buf (fst (snd (recv_loop need t buf es)))"
    by (induction need t buf es rule: recv_loop.induct)
      (auto split: recv_event.split dest: append_prefixD)
  then obtain xs where "buf' = buf @ xs" using assms(1) by (auto elim: prefixE)
  then show ?thesis using assms(2) by (simp add: rd32_prefix)
qed

lemma TryDecode_whole_frame:
  assumes "rd32 buf 0 = Some fl" "unat fl \<le> length buf" "\<not> unat fl < 10"
  shows "TryDecode (take (unat fl) buf) \<noteq> None"
  using assms by (intro TryDecode_no_fault [of _ fl]) (auto simp: rd32_def min_def)

text \<open>One iteration of the loop: it stops, skips an undecodable frame, or serves a request.\<close>

lemma HandleClient_step:
  obtains (stop) e b where "e \<noteq> Killed" "\<And>ss. HandleClient h buf es ss s = Some ([], e, b, s)"
  | (skip) buf' es' where
      "length buf' + length (stream es') < length buf + length (stream es)"
      "\<And>ss. HandleClient h buf es ss s = HandleClient h buf' es' ss s"
  | (request) buf' es' rid payload where
      "length buf' + length (stream es') < length buf + length (stream es)"
      "\<And>ss. HandleClient h buf es ss s = do {
         (resp, s') \<leftarrow> h s rid payload;
         (case send_response (respond rid resp) ss of (ok, wire, ss') \<Rightarrow>
            if ok \<noteq> SendDone then Some (wire, send_end ok, buf', s')
            else do {
              (out, r) \<leftarrow> HandleClient h buf' es' ss' s';
              Some (wire @ out, r)
            })
       }"
proof (cases "server_recv_all 4 5000 buf es")
  case r1: (fields st1 buf1 es1)
  show thesis
  proof (cases "st1 = Got")
    case False
    with r1 stop [of "conn_end_of st1" buf1] show thesis
      by (simp add: HandleClient.simps [of h buf] conn_end_of_def)
  next
    case got1: True
    with r1 have "4 \<le> length buf1" by (auto simp: server_recv_all_def dest: recv_loop_Got)
    then obtain fl where fl: "rd32 buf1 0 = Some fl"
      using rd32_None_iff [of buf1 0] by fastforce
    obtain st2 buf2 es2 where r2: "server_recv_all (unat fl) 5000 buf1 es1 = (st2, buf2, es2)"
      by (cases "server_recv_all (unat fl) 5000 buf1 es1") auto
    show thesis
    proof (cases "unat fl < 10 \<or> st2 \<noteq> Got")
      case True
      with r1 got1 fl r2 show thesis
        by (intro stop [of "if unat fl < 10 then Closed else conn_end_of st2"
            "if unat fl < 10 then buf1 else buf2"]) (auto simp: HandleClient.simps [of h buf] conn_end_of_def)
    next
      case False
      then have got2: "st2 = Got" "\<not> unat fl < 10" by auto
      have "rd32 buf2 0 = Some fl" "unat fl \<le> length buf2"
        using fl r2 got2 by (auto simp: server_recv_all_def dest: recv_loop_Got recv_loop_header)
      then obtain n d where dec: "TryDecode (take (unat fl) buf2) = Some (n, d)"
        using TryDecode_whole_frame got2 by fastforce
      note less = HandleClient_measure [of buf1 es1 buf es fl buf2 es2]
      show thesis
      proof (cases d)
        case None
        with r1 got1 fl got2 r2 dec less show thesis
          by (intro skip [of "drop (unat fl) buf2" es2]) (simp_all add: HandleClient.simps [of h buf])
      next
        case (Some rp)
        obtain rid payload where "rp = (rid, payload)" by (cases rp)
        with Some r1 got1 fl got2 r2 dec less show thesis
          by (intro request [of "drop (unat fl) buf2" es2 rid payload])
            (simp_all add: HandleClient.simps [of h buf] respond_def Let_def)
      qed
    qed
  qed
qed

text \<open>Memory safety of the connection loop. For any bytes a peer can send, cut
  in any way, and any behaviour of the socket, the loop itself never reads outside a buffer:
  if the handler has no undefined behaviour, neither has the connection.\<close>
lemma HandleClient_no_fault:
  assumes "\<And>s rid payload. h s rid payload \<noteq> None"
  shows "HandleClient h buf es ss s \<noteq> None"
proof (induction "length buf + length (stream es)" arbitrary: buf es ss s rule: less_induct)
  case less
  show ?case
  proof (cases rule: HandleClient_step [of h buf es s])
    case (skip buf' es')
    with less show ?thesis by simp
  next
    case (request buf' es' rid payload)
    obtain resp s' where "h s rid payload = Some (resp, s')"
      using assms [of s rid payload] by auto
    moreover obtain ok wire ss' where "send_response (respond rid resp) ss = (ok, wire, ss')"
      by (cases "send_response (respond rid resp) ss") auto
    moreover obtain out r where "HandleClient h buf' es' ss' s' = Some (out, r)"
      using less [OF request(1), of ss' s'] by fastforce
    ultimately show ?thesis using request(2) by (cases r) simp
  qed simp
qed

section \<open>A peer that resets the connection\<close>

text \<open>What the kernel would report if the program ignored \<open>SIGPIPE\<close>: the error \<open>EPIPE\<close>.\<close>

definition sigpipe_ignored :: "send_event \<Rightarrow> send_event" where
  "sigpipe_ignored e = (if e = SendPipe then SendErr else e)"

definition survived :: "conn_end \<Rightarrow> conn_end" where
  "survived e = (if e = Killed then Closed else e)"

lemma send_response_ignored:
  "send_response data (map sigpipe_ignored ss) = (case send_response data ss of
     (ok, wire, ss') \<Rightarrow> (if ok = SendKilled then SendFailed else ok, wire, map sigpipe_ignored ss'))"
  by (induction data ss rule: send_response.induct)
    (auto simp: sigpipe_ignored_def split: send_event.split prod.splits)

lemma send_response_pipe:
  "send_response data ss = (SendKilled, wire, ss') \<Longrightarrow> SendPipe \<in> set ss"
  by (induction data ss arbitrary: wire rule: send_response.induct)
    (auto split: send_event.splits prod.splits if_splits)

lemma send_response_rest: "send_response data ss = (ok, wire, ss') \<Longrightarrow> set ss' \<subseteq> set ss"
  by (induction data ss arbitrary: ok wire rule: send_response.induct)
    (force split: send_event.splits prod.splits if_splits)+

lemma HandleClient_ignored:
  "HandleClient h buf es (map sigpipe_ignored ss) s
     = map_option (\<lambda>(out, e, b, s'). (out, survived e, b, s')) (HandleClient h buf es ss s)"
proof (induction "length buf + length (stream es)" arbitrary: buf es ss s rule: less_induct)
  case less
  show ?case
  proof (cases rule: HandleClient_step [of h buf es s])
    case (stop e b)
    then show ?thesis by (simp add: survived_def)
  next
    case (skip buf' es')
    with less show ?thesis by simp
  next
    case (request buf' es' rid payload)
    show ?thesis
    proof (cases "h s rid payload")
      case (Some rs)
      obtain resp s' where rs: "rs = (resp, s')" by (cases rs)
      obtain ok wire ss' where w: "send_response (respond rid resp) ss = (ok, wire, ss')"
        by (cases "send_response (respond rid resp) ss") auto
      show ?thesis
        using less [OF request(1), of ss' s'] Some rs w
        by (cases ok; cases "HandleClient h buf' es' ss' s'")
          (auto simp: request(2) send_response_ignored send_end_def survived_def)
    qed (simp add: request(2))
  qed
qed

text \<open>The process is killed only by the signal.\<close>

lemma HandleClient_killed:
  assumes "HandleClient h buf es ss s = Some (out, Killed, b, s')"
  shows "SendPipe \<in> set ss"
  using assms
proof (induction "length buf + length (stream es)" arbitrary: buf es ss s out rule: less_induct)
  case less
  show ?case
  proof (cases rule: HandleClient_step [of h buf es s])
    case (stop e b')
    with less.prems show ?thesis by simp
  next
    case (skip buf' es')
    with less show ?thesis by simp
  next
    case (request buf' es' rid payload)
    from less.prems obtain resp s1 where h: "h s rid payload = Some (resp, s1)"
      unfolding request(2) by (auto split: bind_splits)
    obtain ok wire ss' where w: "send_response (respond rid resp) ss = (ok, wire, ss')"
      by (cases "send_response (respond rid resp) ss") auto
    show ?thesis
    proof (cases "ok = SendDone")
      case True
      with less.prems h w obtain out' where "HandleClient h buf' es' ss' s1 = Some (out', Killed, b, s')"
        unfolding request(2) by (auto split: bind_splits)
      from less.hyps [OF request(1) this] send_response_rest [OF w] show ?thesis by blast
    next
      case False
      with less.prems h w have "ok = SendKilled"
        unfolding request(2) by (auto simp: send_end_def split: if_splits)
      with send_response_pipe w show ?thesis by blast
    qed
  qed
qed

text \<open>A peer that sends one request and resets the connection before the answer ends the process.\<close>

lemma HandleClient_reset:
  assumes "calm 5000 es" "frame_fits payload" "buf @ stream es = EncodeCustomRequest rid payload"
    and "h s rid payload = Some (resp, s')"
  shows "\<exists>b. HandleClient h buf es (SendPipe # ss) s = Some ([], Killed, b, s')"
proof -
  obtain buf1 es1 buf2 es2 where r:
    "server_recv_all 4 5000 buf es = (Got, buf1, es1)"
    "rd32 buf1 0 = Some (10 + of_nat (length payload))"
    "server_recv_all (10 + length payload) 5000 buf1 es1 = (Got, buf2, es2)"
    "take (10 + length payload) buf2 = EncodeCustomRequest rid payload"
    using server_reads_frame [OF assms(1,2), of buf rid "[]"] assms(3) by (metis append_Nil2)
  have "TryDecode (EncodeCustomRequest rid payload) = Some (10 + length payload, Some (rid, payload))"
    using TryDecode_frame [OF assms(2), of rid "[]"] by simp
  moreover have "EncodeResponse rid st v \<noteq> []" for st v
    by (simp add: EncodeResponse_custom EncodeCustomRequest_def be32_def Let_def)
  ultimately show ?thesis
    using r frame_len_word [OF assms(2)] assms(4)
    by (subst HandleClient.simps) (simp add: respond_def Let_def split_def send_end_def)
qed

text \<open>Undersized frames. When the buffered header declares fewer than ten bytes,
  the connection is closed without a reply and without touching the node's state.\<close>
lemma HandleClient_undersized:
  assumes "rd32 buf 0 = Some fl" "unat fl < 10"
  shows "HandleClient h buf es ss s = Some ([], Closed, buf, s)"
proof -
  have "4 \<le> length buf" using assms(1) rd32_None_iff [of buf 0] by fastforce
  then show ?thesis using assms
    by (subst HandleClient.simps) (simp add: server_recv_all_def)
qed

text \<open>Foreign frames. A complete frame with a wrong magic or version byte gets no
  reply and does not end the connection: the loop goes on with the bytes after it.\<close>
lemma HandleClient_foreign_frame:
  assumes "rd32 buf 0 = Some fl" "10 \<le> unat fl" "unat fl \<le> length buf"
    and "buf ! 4 \<noteq> MAGIC \<or> buf ! 5 \<noteq> VERSION"
  shows "HandleClient h buf es ss s = HandleClient h (drop (unat fl) buf) es ss s"
proof -
  have "length (take (unat fl) buf) = unat fl" using assms(3) by simp
  moreover obtain rid where "rd32 (take (unat fl) buf) 6 = Some rid"
    using header_reads [of "take (unat fl) buf"] assms(2) calculation by metis
  moreover have "rd32 (take (unat fl) buf) 0 = Some fl"
    using assms(1-3) by (simp add: rd32_def min_def)
  ultimately have "TryDecode (take (unat fl) buf) = Some (1, None)"
    using TryDecode_unfold [of "take (unat fl) buf" fl rid] assms by auto
  then show ?thesis using assms
    by (subst HandleClient.simps) (simp add: server_recv_all_def)
qed

end
