(* ===== verification/Node_Server.thy ===== *)
theory Node_Server
  imports Data_Node Rpc_Server
begin

text \<open>
  A node as its server sees it: the master's handlers (\<open>RaftNode::HandleMaster*\<close>), the dispatch
  \<open>RaftNode::HandleBinaryRequest\<close> of \<open>src/src/kv/raft_node.cpp\<close>, and the connection loop
  of \<open>Rpc_Server\<close> running it. The locale \<open>request_handler\<close> is the contract between the
  connection loop and the dispatch.
\<close>

section \<open>The master's handlers\<close>

definition HandleMasterGetRoute :: "raft_node \<Rightarrow> bytes \<Rightarrow> handled" where
  "HandleMasterGetRoute n payload =
     (if length payload < 3 then Some ([ST_BAD_REQUEST], n)
      else do {
        key_len \<leftarrow> rd16 payload 1;
        if length payload < 3 + unat key_len then Some ([ST_BAD_REQUEST], n)
        else do {
          key \<leftarrow> subbuf payload 3 (unat key_len);
          (case GetTabletRoute n key of
             None \<Rightarrow> Some ([ST_NO_SHARD], n)
           | Some t \<Rightarrow>
               (let addr = GetNodeAddr n (node_id t)
                in Some ([ST_OK] @ [ucast (tablet_id t)] @ be32 (ucast (epoch n))
                         @ be16 (of_nat (length addr)) @ addr, n)))
        }
      })"

fun shards_loop :: "raft_node \<Rightarrow> bool \<Rightarrow> tablet list \<Rightarrow> str \<Rightarrow> str" where
  "shards_loop n first [] body = body"
| "shards_loop n first (t # ts) body =
     (let body = (if \<not> first then body @ lit '' '' else body)
      in shards_loop n False ts
           (body @ to_string (unat (tablet_id t)) @ lit '':'' @ start_key t @ lit '':''
            @ end_key t @ lit '':'' @ GetNodeAddr n (node_id t)))"

definition HandleMasterShards :: "raft_node \<Rightarrow> handled" where
  "HandleMasterShards n =
     (let body = shards_loop n True (tablets n) (to_string (length (tablets n)) @ lit '' '')
      in Some ([ST_OK] @ body, n))"

section \<open>Dispatch\<close>

definition HandleBinaryRequest :: "raft_node \<Rightarrow> u32 \<Rightarrow> bytes \<Rightarrow> handled" where
  "HandleBinaryRequest n req_id payload =
     (if payload = [] then Some ([ST_BAD_REQUEST], n)
      else (let opcode = hd payload
            in if IsMaster n then
                 (if opcode = OP_GET_ROUTE then HandleMasterGetRoute n payload
                  else if opcode = OP_SHARDS then HandleMasterShards n
                  else Some ([ST_BAD_REQUEST], n))
               else
                 (if opcode = OP_PUT then HandleDataNodePut n payload
                  else if opcode = OP_GET then HandleDataNodeGet n payload
                  else if opcode = OP_DELETE then HandleDataNodeDelete n payload
                  else if opcode = OP_TABLET_STATS then HandleDataNodeTabletStats n payload
                  else if opcode = OP_SCAN_RANGE then HandleDataNodeScanRange n payload
                  else if opcode = OP_DELETE_RANGE then HandleDataNodeDeleteRange n payload
                  else Some ([ST_BAD_REQUEST], n))))"

section \<open>Handler steps keep a node well-formed\<close>

text \<open>What no request changes: the identity, the routing table, and whether there is a database
  and it accepts writes.\<close>

definition same_frame :: "raft_node \<Rightarrow> raft_node \<Rightarrow> bool" where
  "same_frame n n' \<longleftrightarrow>
     n'\<lparr>storage := None\<rparr> = n\<lparr>storage := None\<rparr>
     \<and> map_option log_ok (storage n') = map_option log_ok (storage n)"

definition good_step :: "raft_node \<Rightarrow> raft_node \<Rightarrow> bool" where
  "good_step n n' \<longleftrightarrow> same_frame n n' \<and> (node_inv n \<longrightarrow> node_inv n')"

lemma good_step_refl [simp]: "good_step n n"
  by (simp add: good_step_def same_frame_def)

lemma good_step_trans: "good_step n n' \<Longrightarrow> good_step n' n'' \<Longrightarrow> good_step n n''"
  by (simp add: good_step_def same_frame_def)

lemma good_step_storage:
  assumes "storage n = Some d" "log_ok d' = log_ok d" "db_inv d \<Longrightarrow> db_inv d'"
  shows "good_step n (n\<lparr>storage := Some d'\<rparr>)"
  using assms by (cases n) (simp add: good_step_def same_frame_def node_inv_def)

lemma log_ok_writes [simp]:
  "log_ok (snd (SE_Put k v d)) = log_ok d" "log_ok (snd (SE_Delete k d)) = log_ok d"
  by (simp_all add: SE_Put_def SE_Delete_def ldb.put_writable ldb.del_writable)

lemma log_ok_DeleteRange [simp]: "log_ok (snd (SE_DeleteRange start end d)) = log_ok d"
proof -
  have "log_ok (fold (\<lambda>k d. snd (DB_Delete k d)) ks d) = log_ok d" for ks
    by (induction ks arbitrary: d) (simp_all add: ldb.del_writable)
  then show ?thesis by (simp add: SE_DeleteRange_fold)
qed

lemma good_step_writes:
  assumes "storage n = Some d"
  shows "good_step n (n\<lparr>storage := Some (snd (SE_Put k v d))\<rparr>)"
    and "good_step n (n\<lparr>storage := Some (snd (SE_Delete k d))\<rparr>)"
    and "good_step n (n\<lparr>storage := Some (snd (SE_DeleteRange start end d))\<rparr>)"
  using assms by (auto intro!: good_step_storage simp: SE_writes_map SE_DeleteRange_inv)

text \<open>Each handler either faults or returns a non-empty response and a good step.\<close>

definition good_result :: "raft_node \<Rightarrow> handled \<Rightarrow> bool" where
  "good_result n r \<longleftrightarrow> (case r of None \<Rightarrow> True | Some (resp, n') \<Rightarrow> resp \<noteq> [] \<and> good_step n n')"

lemma good_result_simps [simp]:
  "good_result n None"
  "good_result n (Some (resp, n')) = (resp \<noteq> [] \<and> good_step n n')"
  by (simp_all add: good_result_def)

lemma good_result_bind: "(\<And>x. m = Some x \<Longrightarrow> good_result n (f x)) \<Longrightarrow> good_result n (m \<bind> f)"
  by (cases m) simp_all

lemmas good_result_rules = good_result_bind good_step_writes

lemma handlers_good [simp]:
  "good_result n (HandleDataNodePut n payload)"
  "good_result n (HandleDataNodeGet n payload)"
  "good_result n (HandleDataNodeDelete n payload)"
  "good_result n (HandleDataNodeTabletStats n payload)"
  "good_result n (HandleDataNodeScanRange n payload)"
  "good_result n (HandleDataNodeDeleteRange n payload)"
  "good_result n (HandleMasterGetRoute n payload)"
  "good_result n (HandleMasterShards n)"
  by (auto simp: HandleDataNodePut_def HandleDataNodeGet_def HandleDataNodeDelete_def
      HandleDataNodeTabletStats_def HandleDataNodeScanRange_def HandleDataNodeDeleteRange_def
      HandleMasterGetRoute_def HandleMasterShards_def case_prod_beta Let_def
      intro!: good_result_rules split: option.split)

lemma HandleBinaryRequest_good: "good_result n (HandleBinaryRequest n req_id payload)"
  by (simp add: HandleBinaryRequest_def Let_def)

section \<open>Which answers there are\<close>

text \<open>The statuses that a node may answer a request with, by the operation asked for.\<close>

definition answer_statuses :: "bool \<Rightarrow> u8 \<Rightarrow> u8 set" where
  "answer_statuses master opcode =
     (if master then
        (if opcode = OP_GET_ROUTE then {ST_OK, ST_NO_SHARD, ST_BAD_REQUEST}
         else if opcode = OP_SHARDS then {ST_OK} else {ST_BAD_REQUEST})
      else
        (if opcode = OP_GET then {ST_OK, ST_NOT_FOUND, ST_TIMEOUT, ST_BAD_REQUEST}
         else if opcode \<in> {OP_PUT, OP_DELETE, OP_SCAN_RANGE, OP_DELETE_RANGE} then {ST_OK, ST_TIMEOUT, ST_BAD_REQUEST}
         else if opcode = OP_TABLET_STATS then {ST_OK, ST_BAD_REQUEST} else {ST_BAD_REQUEST}))"

lemma master_statuses:
  "HandleMasterGetRoute n p = Some (r, n') \<Longrightarrow> hd r \<in> {ST_OK, ST_NO_SHARD, ST_BAD_REQUEST}"
  "HandleMasterShards n = Some (r, n') \<Longrightarrow> hd r \<in> {ST_OK}"
  by (auto simp: HandleMasterGetRoute_def HandleMasterShards_def Let_def split: if_splits bind_splits option.splits)

lemma data_node_statuses:
  "HandleDataNodeGet n p = Some (r, n') \<Longrightarrow> hd r \<in> {ST_OK, ST_NOT_FOUND, ST_TIMEOUT, ST_BAD_REQUEST}"
  "HandleDataNodePut n p = Some (r, n') \<Longrightarrow> hd r \<in> {ST_OK, ST_TIMEOUT, ST_BAD_REQUEST}"
  "HandleDataNodeDelete n p = Some (r, n') \<Longrightarrow> hd r \<in> {ST_OK, ST_TIMEOUT, ST_BAD_REQUEST}"
  "HandleDataNodeScanRange n p = Some (r, n') \<Longrightarrow> hd r \<in> {ST_OK, ST_TIMEOUT, ST_BAD_REQUEST}"
  "HandleDataNodeDeleteRange n p = Some (r, n') \<Longrightarrow> hd r \<in> {ST_OK, ST_TIMEOUT, ST_BAD_REQUEST}"
  "HandleDataNodeTabletStats n p = Some (r, n') \<Longrightarrow> hd r \<in> {ST_OK, ST_BAD_REQUEST}"
  by (auto simp: HandleDataNodeGet_def HandleDataNodePut_def HandleDataNodeDelete_def HandleDataNodeScanRange_def
      HandleDataNodeDeleteRange_def HandleDataNodeTabletStats_def split: if_splits bind_splits option.splits prod.splits)

text \<open>Property C20 (the statuses of the answers). Whatever the request, a node answers with one of the
  statuses listed for its operation. The statuses \<open>NOT_MY_SHARD\<close>, \<open>KEY_TOO_LONG\<close> and
  \<open>VALUE_TOO_LONG\<close>, which the protocol describes and the client knows, are never sent: a data node
  does not check that a key is one of its own, nor how long it is. A deletion is never answered
  with \<open>NOT_FOUND\<close>, whether there was such a key or not.\<close>
theorem answers_have_status:
  assumes "HandleBinaryRequest n req_id payload = Some (r, n')" "payload \<noteq> []"
  shows "hd r \<in> answer_statuses (IsMaster n) (hd payload)
    \<and> hd r \<notin> {ST_NOT_MY_SHARD, ST_KEY_TOO_LONG, ST_VALUE_TOO_LONG}
    \<and> (hd payload = OP_DELETE \<longrightarrow> hd r \<noteq> ST_NOT_FOUND)"
proof -
  have "hd r \<in> answer_statuses (IsMaster n) (hd payload)"
    using assms master_statuses [of n] data_node_statuses [of n]
    by (auto simp: HandleBinaryRequest_def answer_statuses_def Let_def opcode_defs split: if_splits)
  then show ?thesis
    by (auto simp: answer_statuses_def opcode_defs status_defs split: if_splits)
qed

theorem answers_have_status_witness:
  "\<exists>r n'. HandleBinaryRequest sample_node 7 (kv_payload OP_DELETE [122] []) = Some (r, n')
    \<and> node_get sample_node [122] = None \<and> hd r \<in> {ST_OK, ST_TIMEOUT, ST_BAD_REQUEST} \<and> hd r \<noteq> ST_NOT_FOUND"
proof -
  have "map_option fst (HandleBinaryRequest sample_node 7 (kv_payload OP_DELETE [122] [])) = Some [ST_OK]" by code_simp
  then obtain r n' where "HandleBinaryRequest sample_node 7 (kv_payload OP_DELETE [122] []) = Some (r, n')" by auto
  moreover have "node_get sample_node [122] = None" "\<not> IsMaster sample_node" by code_simp+
  moreover have "kv_payload OP_DELETE [122] [] \<noteq> []" "hd (kv_payload OP_DELETE [122] []) = OP_DELETE"
    by (simp_all add: kv_payload_def)
  ultimately show ?thesis
    using answers_have_status [of sample_node 7 "kv_payload OP_DELETE [122] []" r n']
    by (auto simp: answer_statuses_def opcode_defs)
qed

section \<open>Requests a node survives\<close>

definition overread :: "bytes \<Rightarrow> bool" where
  "overread payload \<longleftrightarrow> payload \<noteq> []
     \<and> (hd payload = OP_GET \<and> get_overread payload \<or> hd payload = OP_PUT \<and> put_overread payload)"

lemma HandleMasterGetRoute_total: "HandleMasterGetRoute n payload \<noteq> None"
proof (cases "length payload < 3")
  case True
  then show ?thesis by (simp add: HandleMasterGetRoute_def)
next
  case False
  then obtain kl where "rd16 payload 1 = Some kl"
    using rd16_None_iff [of payload 1] by fastforce
  with False show ?thesis
    using subbuf_None_iff [of payload 3 "unat kl"]
    by (auto simp: HandleMasterGetRoute_def Let_def split: option.split)
qed

lemma HandleBinaryRequest_None_iff:
  assumes "IsMaster n \<or> length payload < 2 ^ 32"
  shows "HandleBinaryRequest n req_id payload = None \<longleftrightarrow> \<not> IsMaster n \<and> overread payload"
proof (cases "IsMaster n \<or> payload = []")
  case True
  then show ?thesis
  proof
    assume "IsMaster n"
    then show ?thesis
      using HandleMasterGetRoute_total [of n payload]
      by (simp add: HandleBinaryRequest_def Let_def HandleMasterShards_def)
  qed (simp add: HandleBinaryRequest_def overread_def)
next
  case False
  then have "length payload < 2 ^ 32" using assms by simp
  moreover have "OP_GET \<noteq> OP_PUT" by (simp add: OP_GET_def OP_PUT_def)
  ultimately show ?thesis
    using False HandleDataNodeDelete_total [of n payload] range_handlers_total [of n payload]
    by (simp add: HandleBinaryRequest_def Let_def overread_def
        HandleDataNodeGet_None_iff HandleDataNodePut_None_iff)
qed

text \<open>Property C18 (which requests fault). A master survives every request. A data node reads
  outside a request payload exactly for a GET with value length zero whose key length exceeds the
  payload, and for a PUT whose 32-bit size sum wraps around to a size the payload has.\<close>
theorem HandleBinaryRequest_fault_iff:
  assumes "length payload < 2 ^ 32"
  shows "HandleBinaryRequest n req_id payload = None \<longleftrightarrow>
    port n \<noteq> LEADER_PORT \<and> (\<exists>kl vl. rd16 payload 1 = Some kl \<and> rd32 payload 3 = Some vl
      \<and> (hd payload = OP_GET \<and> vl = 0 \<and> length payload < 7 + unat kl
         \<or> hd payload = OP_PUT \<and> 2 ^ 32 \<le> 7 + unat kl + unat vl
           \<and> 7 + unat kl + unat vl - 2 ^ 32 \<le> length payload))"
proof -
  have "payload \<noteq> []" if "rd32 payload 3 = Some vl" for vl
    using that rd32_None_iff [of payload 3] by auto
  then show ?thesis
    using HandleBinaryRequest_None_iff [of n payload req_id] assms
    by (auto simp: overread_def get_overread_def put_overread_def IsMaster_def split: option.splits)
qed

theorem HandleBinaryRequest_fault_iff_witness:
  "HandleBinaryRequest sample_node 1 [2, 0, 1, 0, 0, 0, 0] = None
   \<and> HandleBinaryRequest sample_node 1 [3, 0, 1, 255, 255, 255, 248] = None"
proof -
  have "rd16 [2, 0, 1, 0, 0, 0, 0] 1 = Some 1" "rd32 [2, 0, 1, 0, 0, 0, 0] 3 = Some 0"
    "rd16 [3, 0, 1, 255, 255, 255, 248] 1 = Some 1"
    "rd32 [3, 0, 1, 255, 255, 255, 248] 3 = Some 0xFFFFFFF8"
    by code_simp+
  then show ?thesis
    using HandleBinaryRequest_fault_iff [of "[2, 0, 1, 0, 0, 0, 0]" sample_node 1]
      HandleBinaryRequest_fault_iff [of "[3, 0, 1, 255, 255, 255, 248]" sample_node 1]
    by (simp add: OP_GET_def OP_PUT_def sample_node_def LEADER_PORT_def)
qed

section \<open>The contract of a connection's handler\<close>

locale request_handler =
  fixes handle :: "'s binary_handler"
    and step :: "'s \<Rightarrow> 's \<Rightarrow> bool"
    and safe :: "'s \<Rightarrow> bytes \<Rightarrow> bool"
  assumes step_refl: "step s s"
    and step_trans: "step s s' \<Longrightarrow> step s' s'' \<Longrightarrow> step s s''"
    and safe_step: "step s s' \<Longrightarrow> safe s' p = safe s p"
    and handle_ok: "safe s p \<Longrightarrow> \<exists>r s'. handle s rid p = Some (r, s') \<and> r \<noteq> [] \<and> step s s'"
begin

lemma handle_obtain:
  assumes "safe s p"
  obtains r s' where "handle s rid p = Some (r, s')" "step s s'" "\<And>q. safe s' q = safe s q"
  using handle_ok [OF assms, of rid] safe_step by blast

lemma serve_safe:
  assumes "\<forall>(rid, p) \<in> set reqs. safe s p"
  shows "\<exists>out s'. serve handle s reqs = Some (out, s') \<and> step s s'"
  using assms
proof (induction reqs arbitrary: s)
  case Nil
  then show ?case by (simp add: step_refl)
next
  case (Cons req reqs)
  obtain rid p where req: "req = (rid, p)" by (cases req)
  with Cons.prems obtain r s' where h: "handle s rid p = Some (r, s')" "step s s'"
    "\<And>q. safe s' q = safe s q"
    using handle_obtain [of s p rid] by auto
  then obtain out s'' where "serve handle s' reqs = Some (out, s'')" "step s' s''"
    using Cons.IH [of s'] Cons.prems by fastforce
  with h req show ?case using step_trans by fastforce
qed

text \<open>When every payload is safe, no peer and no socket behaviour can make the loop fault.\<close>

lemma connection_safe:
  assumes "\<And>p. safe s p"
  shows "\<exists>out e b s'. HandleClient handle buf es ss s = Some (out, e, b, s') \<and> step s s'"
  using assms
proof (induction "length buf + length (stream es)" arbitrary: buf es ss s rule: less_induct)
  case less
  note IH = less(1) and safe = less.prems
  show ?case
  proof (cases rule: HandleClient_step [of handle buf es s])
    case (stop e b)
    from stop(2) [of ss] show ?thesis using step_refl by blast
  next
    case (skip buf' es')
    from IH [OF skip(1) safe, of ss] show ?thesis unfolding skip(2) .
  next
    case (request buf' es' rid payload)
    obtain resp s' where h: "handle s rid payload = Some (resp, s')" "step s s'"
      using handle_ok [OF safe, of rid payload] by blast
    obtain ok wire ss' where w: "send_response (respond rid resp) ss = (ok, wire, ss')"
      by (cases "send_response (respond rid resp) ss") auto
    have "\<And>p. safe s' p" using safe by (simp add: safe_step [OF h(2)])
    from IH [OF request(1) this, of ss'] obtain out e b s'' where
      r: "HandleClient handle buf' es' ss' s' = Some (out, e, b, s'')" "step s' s''" by blast
    have "HandleClient handle buf es ss s
        = Some (if ok = SendDone then (wire @ out, e, b, s'') else (wire, send_end ok, buf', s'))"
      by (subst request(2), simp only: h(1) w r(1) bind.bind_lunit prod.case, cases "ok = SendDone")
        (simp_all only: r(1) bind.bind_lunit prod.case simp_thms if_True if_False)
    moreover have "step s (if ok = SendDone then s'' else s')"
      using step_trans [OF h(2) r(2)] h(2) by simp
    ultimately show ?thesis
      by (cases "ok = SendDone"; simp only: simp_thms if_True if_False; blast)
  qed
qed

text \<open>A stream of safe requests is served in order.\<close>

lemma connection_serves:
  assumes "calm 5000 es" "\<forall>(rid, p) \<in> set reqs. frame_fits p \<and> safe s p"
    and "buf @ stream es = frames reqs"
  shows "\<exists>out s'. serve handle s reqs = Some (out, s') \<and> step s s'
    \<and> HandleClient handle buf es [] s = Some (out, Waiting, [], s')"
proof -
  have "\<forall>(rid, p) \<in> set reqs. frame_fits p" "\<forall>(rid, p) \<in> set reqs. safe s p"
    using assms(2) by auto
  from serve_safe [OF this(2)] HandleClient_run [OF assms(1) this(1) assms(3), of handle s]
  show ?thesis by auto
qed

end

section \<open>Connections of a master and of a data node\<close>

lemma HandleBinaryRequest_step:
  assumes "HandleBinaryRequest n rid p = Some (r, n')"
  shows "r \<noteq> []" "good_step n n'"
  using HandleBinaryRequest_good [of n rid p] assms by simp_all




text \<open>A request that no node faults on.\<close>

definition safe_request :: "raft_node \<Rightarrow> bytes \<Rightarrow> bool" where
  "safe_request n p \<longleftrightarrow> length p < 2 ^ 32 \<and> \<not> overread p"

interpretation node_conn: request_handler HandleBinaryRequest good_step safe_request
proof
  fix n :: raft_node and p :: bytes and rid :: u32
  assume "safe_request n p"
  then obtain r n' where "HandleBinaryRequest n rid p = Some (r, n')"
    using HandleBinaryRequest_None_iff [of n p rid] by (auto simp: safe_request_def)
  then show "\<exists>r n'. HandleBinaryRequest n rid p = Some (r, n') \<and> r \<noteq> [] \<and> good_step n n'"
    using HandleBinaryRequest_step by blast
qed (auto simp: safe_request_def intro: good_step_trans)



text \<open>Property C17 (data node connections keep the node well-formed). Every stream of request
  frames without an over-reading GET or PUT is answered in full; the connection then waits with an
  empty buffer, the database invariant holds, and only the database's content has changed.\<close>
theorem node_connection_invariant:
  assumes "calm 5000 es" "node_inv n" "buf @ stream es = frames reqs"
    and "\<forall>(rid, p) \<in> set reqs. frame_fits p \<and> \<not> overread p"
  shows "\<exists>out n'. HandleClient HandleBinaryRequest buf es [] n = Some (out, Waiting, [], n')
    \<and> serve HandleBinaryRequest n reqs = Some (out, n')
    \<and> node_inv n' \<and> n'\<lparr>storage := storage n\<rparr> = n
    \<and> map_option log_ok (storage n') = map_option log_ok (storage n)"
proof -
  have "\<forall>(rid, p) \<in> set reqs. frame_fits p \<and> safe_request n p"
    using assms(4) by (auto simp: safe_request_def frame_fits_def)
  from node_conn.connection_serves [OF assms(1) this assms(3)] obtain out n' where
    r: "serve HandleBinaryRequest n reqs = Some (out, n')" "good_step n n'"
    "HandleClient HandleBinaryRequest buf es [] n = Some (out, Waiting, [], n')"
    by blast
  have "n'\<lparr>storage := storage n\<rparr> = (n'\<lparr>storage := None\<rparr>)\<lparr>storage := storage n\<rparr>" by simp
  also have "\<dots> = (n\<lparr>storage := None\<rparr>)\<lparr>storage := storage n\<rparr>"
    using r(2) by (simp add: good_step_def same_frame_def)
  also have "\<dots> = n" by simp
  finally show ?thesis
    using r assms(2) by (auto simp: good_step_def same_frame_def)
qed

section \<open>Reading what was written\<close>

lemma kv_dispatch:
  assumes "\<not> IsMaster n"
  shows "HandleBinaryRequest n rid (kv_payload OP_PUT k v) = HandleDataNodePut n (kv_payload OP_PUT k v)"
    and "HandleBinaryRequest n rid (kv_payload OP_GET k v) = HandleDataNodeGet n (kv_payload OP_GET k v)"
    and "HandleBinaryRequest n rid (kv_payload OP_DELETE k v)
      = HandleDataNodeDelete n (kv_payload OP_DELETE k v)"
  using assms by (simp_all add: HandleBinaryRequest_def kv_payload_def opcode_defs)

lemma good_step_port: "good_step n n' \<Longrightarrow> port n' = port n"
  by (metis good_step_def same_frame_def raft_node.select_convs(2) raft_node.surjective raft_node.update_convs(7))

theorem node_connection_invariant_witness:
  "\<exists>out n'. HandleClient HandleBinaryRequest [] [Data (EncodeRequest 1 OP_DELETE [97] [])] [] sample_node
      = Some (out, Waiting, [], n') \<and> node_inv n' \<and> self_id n' = 2"
proof -
  let ?es = "[Data (EncodeRequest 1 OP_DELETE [97] [])]" and ?p = "kv_payload OP_DELETE [97] []"
  have calm: "calm 5000 ?es"
    by (simp add: calm_def quiet_event_def EncodeRequest_def be32_def Let_def)
  have frames: "[] @ stream ?es = frames [(1, ?p)]"
    by (simp add: EncodeRequest_custom)
  have fits: "\<forall>(rid, p) \<in> set [(1 :: u32, ?p)]. frame_fits p \<and> \<not> overread p"
    by (simp add: overread_def frame_fits_def kv_payload_def be16_def be32_def OP_DELETE_def OP_GET_def OP_PUT_def)
  have "node_inv sample_node" by simp
  from node_connection_invariant [OF calm this frames fits] obtain out n' where r:
    "HandleClient HandleBinaryRequest [] ?es [] sample_node = Some (out, Waiting, [], n')"
    "node_inv n'" "n'\<lparr>storage := storage sample_node\<rparr> = sample_node"
    by blast
  from arg_cong [OF r(3), of self_id] have "self_id n' = 2"
    by (simp add: sample_node_def)
  with r show ?thesis by blast
qed

text \<open>Reads see writes. A client that pipelines a PUT and a GET of the same key, or
  a PUT, a DELETE and a GET, to a data node whose database accepts writes gets the answers
  \<open>ST_OK\<close> and the value it wrote, or the last answer \<open>ST_NOT_FOUND\<close>.\<close>
lemma connection_put_get:
  assumes "calm 5000 es" "node_inv n" "node_writable n" "\<not> IsMaster n"
    and "length k < 2 ^ 16" "17 + length k + length v < 2 ^ 32"
    and "stream es = EncodeRequest r1 OP_PUT k v @ (if deleted then EncodeRequest r2 OP_DELETE k [] else [])
      @ EncodeRequest r3 OP_GET k []"
  shows "\<exists>n'. HandleClient HandleBinaryRequest [] es [] n
    = Some (EncodeResponse r1 ST_OK []
        @ (if deleted then EncodeResponse r2 ST_OK [] @ EncodeResponse r3 ST_NOT_FOUND []
           else EncodeResponse r3 ST_OK v), Waiting, [], n')"
proof -
  obtain d where d: "storage n = Some d"
    using assms(3) by (auto simp: node_writable_def split: option.splits)
  have kv: "7 + length k + length v < 2 ^ 32" using assms(6) by simp
  obtain n1 where p: "HandleDataNodePut n (kv_payload OP_PUT k v) = Some ([ST_OK], n1)"
    "node_inv n1" "node_writable n1" "storage n1 \<noteq> None" "node_get n1 k = Some v"
    using HandleDataNodePut_outcome [OF assms(2) d assms(5) kv, of OP_PUT] assms(3) by auto
  obtain d1 where d1: "storage n1 = Some d1" using p(4) by blast
  obtain n2 where q: "HandleDataNodeDelete n1 (kv_payload OP_DELETE k []) = Some ([ST_OK], n2)"
    "storage n2 \<noteq> None" "node_get n2 k = None"
    using HandleDataNodeDelete_outcome [OF p(2) d1 assms(5), of OP_DELETE] p(3) by auto
  obtain d2 where d2: "storage n2 = Some d2" using q(2) by blast
  have "good_step n n1" "good_step n1 n2"
    using handlers_good(1) [of n "kv_payload OP_PUT k v"]
      handlers_good(3) [of n1 "kv_payload OP_DELETE k []"] p(1) q(1) by simp_all
  then have m: "\<not> IsMaster n1" "\<not> IsMaster n2"
    using assms(4) good_step_port by (auto simp: IsMaster_def)
  let ?reqs = "[(r1, kv_payload OP_PUT k v)]
    @ (if deleted then [(r2, kv_payload OP_DELETE k [])] else []) @ [(r3, kv_payload OP_GET k [])]"
  have "[] @ stream es = frames ?reqs"
    using assms(5,7) by (simp add: EncodeRequest_custom)
  moreover have "\<forall>(rid, p) \<in> set ?reqs. frame_fits p"
    using assms(6) by (auto simp: frame_fits_def)
  moreover have "\<exists>n'. serve HandleBinaryRequest n ?reqs
    = Some (EncodeResponse r1 ST_OK []
        @ (if deleted then EncodeResponse r2 ST_OK [] @ EncodeResponse r3 ST_NOT_FOUND []
           else EncodeResponse r3 ST_OK v), n')"
    using HandleDataNodeGet_outcome [OF d1 assms(5), of OP_GET]
      HandleDataNodeGet_outcome [OF d2 assms(5), of OP_GET] p(1,5) q(1,3) m assms(4)
    by (simp add: kv_dispatch respond_def)
  ultimately show ?thesis
    using HandleClient_run [OF assms(1), of ?reqs "[]" HandleBinaryRequest n] by auto
qed

end
