(* ===== verification/Balancer.thy ===== *)
theory Balancer
  imports Node_Server
begin

text \<open>
  The master's balancer: statistics, splitting, migration and the balancing loop of
  \<open>src/src/kv/raft_node.cpp\<close>. What is around the master is a record of functions on a world
  \<open>'w\<close>: \<open>is_connected\<close>, \<open>net_send\<close> and \<open>net_recv\<close> are
  \<open>node_clients_[id]\<close> with \<open>IsConnected\<close>, \<open>Send\<close> and \<open>RecvFrame\<close>, \<open>save\<close> is
  \<open>SaveTablets\<close>, \<open>elapsed\<close> the milliseconds the clock measured. The theory \<open>Cluster\<close>
  builds such a record from the client, the server and the nodes. The result \<open>None\<close> means that
  the program is aborted (by undefined behaviour, by an exception that leaves the balancer
  thread, or by \<open>SIGPIPE\<close> in a send) or that a loop does not end.
\<close>

section \<open>The environment and one request\<close>

record 'w env =
  is_connected :: "u32 \<Rightarrow> 'w \<Rightarrow> bool"
  net_send :: "u32 \<Rightarrow> bytes \<Rightarrow> 'w \<Rightarrow> send_result \<times> 'w"
  net_recv :: "u32 \<Rightarrow> int \<Rightarrow> 'w \<Rightarrow> bytes option \<times> 'w"
  save :: "raft_node \<Rightarrow> 'w \<Rightarrow> 'w option"
  elapsed :: "'w \<Rightarrow> u64"

definition SPLIT_THRESHOLD :: u64 where "SPLIT_THRESHOLD = 6"
definition BALANCE_DIFF_THRESHOLD :: u64 where "BALANCE_DIFF_THRESHOLD = 7"

text \<open>\<open>Send\<close>, \<open>RecvFrame\<close> and \<open>TryDecode\<close> in a row, as three functions do it: the
  decoded response payload, or an inner \<open>None\<close> for their \<open>return false\<close>. The request id is
  always 1 and the one of the response is not looked at.\<close>

definition call :: "('w, 'z) env_scheme \<Rightarrow> u32 \<Rightarrow> bytes \<Rightarrow> int \<Rightarrow> 'w \<Rightarrow> (bytes option \<times> 'w) option" where
  "call env node payload timeout w =
     (case net_send env node (EncodeCustomRequest 1 payload) w of
        (SendKilled, w) \<Rightarrow> None
      | (SendFailed, w) \<Rightarrow> Some (None, w)
      | (SendDone, w) \<Rightarrow>
          (case net_recv env node timeout w of
             (None, w) \<Rightarrow> Some (None, w)
           | (Some frame, w) \<Rightarrow> do {
               (consumed, decoded) \<leftarrow> TryDecode frame;
               Some (map_option snd decoded, w)
             }))"

section \<open>Statistics\<close>

definition QueryTabletStats ::
  "('w, 'z) env_scheme \<Rightarrow> u32 \<Rightarrow> str \<Rightarrow> str \<Rightarrow> 'w \<Rightarrow> ((u64 \<times> str) option \<times> 'w) option" where
  "QueryTabletStats env node start end w =
     (if \<not> is_connected env node w then Some (None, w)
      else do {
        (resp, w) \<leftarrow> call env node (range_payload OP_TABLET_STATS start end) 3000 w;
        (case resp of
           None \<Rightarrow> Some (None, w)
         | Some p \<Rightarrow>
             if length p < 11 then Some (None, w)
             else if p ! 0 \<noteq> ST_OK then Some (None, w)
             else do {
               kc \<leftarrow> rd32 p 5;
               med_len \<leftarrow> rd16 p 9;
               if length p < 11 + unat med_len then Some (None, w)
               else do {
                 median_key \<leftarrow> subbuf p 11 (unat med_len);
                 Some (Some (ucast kc, median_key), w)
               }
             })
      })"

fun SyncAllTabletStats ::
  "('w, 'z) env_scheme \<Rightarrow> tablet list \<Rightarrow> 'w \<Rightarrow> (tablet list \<times> 'w) option" where
  "SyncAllTabletStats env [] w = Some ([], w)"
| "SyncAllTabletStats env (t # ts) w = do {
     (r, w) \<leftarrow> QueryTabletStats env (node_id t) (start_key t) (end_key t) w;
     let t = (case r of
                None \<Rightarrow> t
              | Some (kc, _) \<Rightarrow> if key_count t \<noteq> kc then t\<lparr>key_count := kc\<rparr> else t);
     (ts, w) \<leftarrow> SyncAllTabletStats env ts w;
     Some (t # ts, w)
   }"

section \<open>Splitting\<close>

definition TrySplitTablet ::
  "('w, 'z) env_scheme \<Rightarrow> nat \<Rightarrow> raft_node \<Rightarrow> 'w \<Rightarrow> (bool \<times> raft_node \<times> 'w) option" where
  "TrySplitTablet env idx n w =
     (if length (tablets n) \<le> idx then Some (False, n, w)
      else (let old_t = tablets n ! idx
        in if key_count old_t < SPLIT_THRESHOLD then Some (False, n, w)
        else do {
          (r, w) \<leftarrow> QueryTabletStats env (node_id old_t) (start_key old_t) (end_key old_t) w;
          (case r of
             None \<Rightarrow> Some (False, n, w)
           | Some (kc, median_key) \<Rightarrow>
               if median_key = [] \<or> median_key \<le> start_key old_t
                  \<or> end_key old_t \<noteq> [] \<and> end_key old_t \<le> median_key
               then Some (False, n, w)
               else if length (tablets n) \<le> idx \<or> tablet_id (tablets n ! idx) \<noteq> tablet_id old_t
               then Some (False, n, w)
               else if key_count (tablets n ! idx) < SPLIT_THRESHOLD then Some (False, n, w)
               else do {
                 let old_t = old_t\<lparr>key_count := kc\<rparr>;
                 let left = old_t\<lparr>tablet_id := next_tablet_id n, end_key := median_key,
                                  key_count := kc div 2\<rparr>;
                 let right = old_t\<lparr>tablet_id := next_tablet_id n + 1, start_key := median_key,
                                   key_count := kc - kc div 2\<rparr>;
                 let n = n\<lparr>next_tablet_id := next_tablet_id n + 2,
                           tablets := take idx (tablets n) @ left # right # drop (idx + 1) (tablets n),
                           epoch := epoch n + 1\<rparr>;
                 w \<leftarrow> save env n w;
                 Some (True, n, w)
               })
        }))"

text \<open>The loop over a table that grows while it runs: it need not end.\<close>

partial_function (option) split_loop ::
  "('w, 'z) env_scheme \<Rightarrow> nat \<Rightarrow> raft_node \<Rightarrow> 'w \<Rightarrow> (raft_node \<times> 'w) option" where
  "split_loop env split_idx n w =
     (if length (tablets n) \<le> split_idx then Some (n, w)
      else if SPLIT_THRESHOLD \<le> key_count (tablets n ! split_idx) then
        TrySplitTablet env split_idx n w \<bind> (\<lambda>(_, n, w). split_loop env (split_idx + 1) n w)
      else split_loop env (split_idx + 1) n w)"

section \<open>Migration\<close>

fun transfer_loop ::
  "('w, 'z) env_scheme \<Rightarrow> u32 \<Rightarrow> bytes \<Rightarrow> nat \<Rightarrow> u32 \<Rightarrow> nat \<Rightarrow> u32 \<Rightarrow> 'w \<Rightarrow> (u32 \<times> 'w) option" where
  "transfer_loop env dst p 0 i pos transferred w = Some (transferred, w)"
| "transfer_loop env dst p (Suc left) i pos transferred w =
     (if length p < pos + 2 then Some (transferred, w)
      else do {
        key_len \<leftarrow> rd16 p pos;
        let pos = pos + 2;
        if length p < pos + unat key_len then Some (transferred, w)
        else do {
          key \<leftarrow> subbuf p pos (unat key_len);
          let pos = pos + unat key_len;
          if length p < pos + 4 then Some (transferred, w)
          else do {
            vlen \<leftarrow> rd32 p pos;
            let pos = pos + 4;
            if length p < pos + unat vlen then Some (transferred, w)
            else do {
              value \<leftarrow> subbuf p pos (unat vlen);
              let pos = pos + unat vlen;
              (case net_send env dst (EncodeRequest (1 + i + 1) OP_PUT key value) w of
                 (SendKilled, w) \<Rightarrow> None
               | (SendFailed, w) \<Rightarrow> transfer_loop env dst p left (i + 1) pos transferred w
               | (SendDone, w) \<Rightarrow>
                   (case net_recv env dst 5000 w of
                      (None, w) \<Rightarrow> transfer_loop env dst p left (i + 1) pos transferred w
                    | (Some _, w) \<Rightarrow> transfer_loop env dst p left (i + 1) pos (transferred + 1) w))
            }
          }
        }
      })"

definition ScanAndTransferData ::
  "('w, 'z) env_scheme \<Rightarrow> u32 \<Rightarrow> u32 \<Rightarrow> str \<Rightarrow> str \<Rightarrow> 'w \<Rightarrow> (bool \<times> 'w) option" where
  "ScanAndTransferData env src dst start end w =
     (if \<not> is_connected env src w then Some (False, w)
      else if \<not> is_connected env dst w then Some (False, w)
      else do {
        (resp, w) \<leftarrow> call env src (range_payload OP_SCAN_RANGE start end) 30000 w;
        (case resp of
           None \<Rightarrow> Some (False, w)
         | Some p \<Rightarrow>
             if p = [] \<or> p ! 0 \<noteq> ST_OK then Some (False, w)
             else if length p < 5 then Some (False, w)
             else do {
               val_len \<leftarrow> rd32 p 1;
               if length p < unat (5 + val_len) then Some (False, w)
               else if length p < 5 + 4 then Some (False, w)
               else do {
                 count \<leftarrow> rd32 p 5;
                 (transferred, w) \<leftarrow> transfer_loop env dst p (unat count) 0 9 0 w;
                 Some (transferred = count, w)
               }
             })
      })"

definition SendDeleteRange ::
  "('w, 'z) env_scheme \<Rightarrow> u32 \<Rightarrow> str \<Rightarrow> str \<Rightarrow> 'w \<Rightarrow> (bool \<times> 'w) option" where
  "SendDeleteRange env node start end w =
     (if \<not> is_connected env node w then Some (False, w)
      else do {
        (resp, w) \<leftarrow> call env node (range_payload OP_DELETE_RANGE start end) 10000 w;
        (case resp of
           None \<Rightarrow> Some (False, w)
         | Some p \<Rightarrow> if p = [] \<or> p ! 0 \<noteq> ST_OK then Some (False, w) else Some (True, w))
      })"

definition MigrateTablet ::
  "('w, 'z) env_scheme \<Rightarrow> nat \<Rightarrow> u32 \<Rightarrow> raft_node \<Rightarrow> 'w \<Rightarrow> (bool \<times> raft_node \<times> 'w) option" where
  "MigrateTablet env idx dst n w =
     (if length (tablets n) \<le> idx then Some (False, n, w)
      else (let t = tablets n ! idx
        in if node_id t = dst then Some (False, n, w)
        else do {
          (ok, w) \<leftarrow> ScanAndTransferData env (node_id t) dst (start_key t) (end_key t) w;
          if \<not> ok then Some (False, n, w)
          else do {
            (n, w) \<leftarrow>
              (if idx < length (tablets n) \<and> tablet_id (tablets n ! idx) = tablet_id t then do {
                 let n = n\<lparr>tablets := (tablets n)[idx := (tablets n ! idx)\<lparr>node_id := dst\<rparr>],
                           epoch := epoch n + 1\<rparr>;
                 w \<leftarrow> save env n w;
                 Some (n, w)
               }
               else Some (n, w));
            (_, w) \<leftarrow> SendDeleteRange env (node_id t) (start_key t) (end_key t) w;
            Some (True, n, w)
          }
        }))"

section \<open>Balancing\<close>

text \<open>\<open>std::map<uint32_t, uint64_t>\<close> as a list sorted by node id.\<close>

fun load_add :: "u32 \<Rightarrow> u64 \<Rightarrow> (u32 \<times> u64) list \<Rightarrow> (u32 \<times> u64) list" where
  "load_add i c [] = [(i, c)]"
| "load_add i c ((j, l) # m) =
     (if i = j then (j, l + c) # m
      else if i < j then (i, c) # (j, l) # m
      else (j, l) # load_add i c m)"

definition node_load :: "tablet list \<Rightarrow> (u32 \<times> u64) list" where
  "node_load ts = fold (\<lambda>t. load_add (node_id t) (key_count t)) ts []"

text \<open>\<open>std::max_element\<close> and \<open>std::min_element\<close> by load: the first of the extreme ones.\<close>

definition max_element :: "(u32 \<times> u64) list \<Rightarrow> u32 \<times> u64" where
  "max_element m = foldl (\<lambda>a b. if snd a < snd b then b else a) (hd m) (tl m)"

definition min_element :: "(u32 \<times> u64) list \<Rightarrow> u32 \<times> u64" where
  "min_element m = foldl (\<lambda>a b. if snd b < snd a then b else a) (hd m) (tl m)"

fun find_target :: "u32 \<Rightarrow> tablet list \<Rightarrow> nat \<Rightarrow> nat \<Rightarrow> u64 \<Rightarrow> nat" where
  "find_target src [] i target_idx max_count = target_idx"
| "find_target src (t # ts) i target_idx max_count =
     (if node_id t = src \<and> max_count < key_count t
      then find_target src ts (i + 1) i (key_count t)
      else find_target src ts (i + 1) target_idx max_count)"

definition DoLoadBalance ::
  "('w, 'z) env_scheme \<Rightarrow> raft_node \<Rightarrow> 'w \<Rightarrow> (bool \<times> raft_node \<times> 'w) option" where
  "DoLoadBalance env n w =
     (if length (tablets n) < 2 then Some (False, n, w)
      else (let load = node_load (tablets n)
        in if length load < 2 then Some (False, n, w)
        else (let (src, hi) = max_element load;
                  (dst, lo) = min_element load;
                  diff = (if lo < hi then hi - lo else 0)
          in if diff < BALANCE_DIFF_THRESHOLD then Some (False, n, w)
          else (let target_idx = find_target src (tablets n) 0 (length (tablets n)) 0
            in if length (tablets n) \<le> target_idx then Some (False, n, w)
            else do {
              (ok, n, w) \<leftarrow> MigrateTablet env target_idx dst n w;
              let n = n\<lparr>transfer_count := transfer_count n + key_count (tablets n ! target_idx),
                        transfer_time_ms := transfer_time_ms n + elapsed env w\<rparr>;
              Some (ok, n, w)
            }))))"

text \<open>One round of \<open>BalancerLoop\<close>, and the loop for as many rounds as it runs.\<close>

definition balancer_round ::
  "('w, 'z) env_scheme \<Rightarrow> raft_node \<Rightarrow> 'w \<Rightarrow> (raft_node \<times> 'w) option" where
  "balancer_round env n w = do {
     (ts, w) \<leftarrow> SyncAllTabletStats env (tablets n) w;
     (n, w) \<leftarrow> split_loop env 0 (n\<lparr>tablets := ts\<rparr>) w;
     (_, n, w) \<leftarrow> DoLoadBalance env n w;
     Some (n, w)
   }"

fun BalancerLoop :: "('w, 'z) env_scheme \<Rightarrow> nat \<Rightarrow> raft_node \<Rightarrow> 'w \<Rightarrow> (raft_node \<times> 'w) option" where
  "BalancerLoop env 0 n w = Some (n, w)"
| "BalancerLoop env (Suc rounds) n w = do {
     (n, w) \<leftarrow> balancer_round env n w;
     BalancerLoop env rounds n w
   }"

section \<open>What no environment can break\<close>

lemma partitions_cong_keys:
  assumes "map lo ts = map lo us" "map hi ts = map hi us"
  shows "partitions lo hi s ts = partitions lo hi s us"
  using assms
proof (induction lo hi s ts arbitrary: us rule: partitions.induct)
  case (2 lo hi s t)
  then show ?case by (cases us) auto
next
  case (3 lo hi s t t' ts)
  then obtain u u' us' where us: "us = u # u' # us'" by (cases us; cases "tl us") auto
  then have "partitions lo hi (hi t) (t' # ts) = partitions lo hi (hi t) (u' # us')"
    using "3.prems" by (intro "3.IH") auto
  with us "3.prems" show ?case by simp
qed simp

lemma partition_move:
  assumes "idx < length ts"
  shows "tablets_partition (ts[idx := (ts ! idx)\<lparr>node_id := dst\<rparr>]) = tablets_partition ts"
  using assms by (intro partitions_cong_keys) (simp_all add: map_update list_update_same_conv)

lemma moved_member:
  assumes "u \<in> set (ts[idx := (ts ! idx)\<lparr>node_id := dst\<rparr>])"
  obtains "u \<in> set ts" | "u = (ts ! idx)\<lparr>node_id := dst\<rparr>"
  using assms set_update_subset_insert [of ts idx "(ts ! idx)\<lparr>node_id := dst\<rparr>"] by auto

text \<open>What every step of the balancer keeps of the master.\<close>

definition table_step :: "raft_node \<Rightarrow> raft_node \<Rightarrow> bool" where
  "table_step n n' \<longleftrightarrow>
     (tablets_partition (tablets n) \<longrightarrow> tablets_partition (tablets n'))
     \<and> node_id ` set (tablets n') \<subseteq> node_id ` set (tablets n)
     \<and> self_id n' = self_id n \<and> port n' = port n \<and> peers n' = peers n \<and> storage n' = storage n"

lemma table_step_refl [simp]: "table_step n n"
  by (simp add: table_step_def)

lemma table_step_trans: "table_step n n' \<Longrightarrow> table_step n' n'' \<Longrightarrow> table_step n n''"
  unfolding table_step_def
  by (elim conjE, intro conjI impI, blast, erule (1) order.trans, simp_all)

definition same_ranges :: "tablet \<Rightarrow> tablet \<Rightarrow> bool" where
  "same_ranges t u \<longleftrightarrow> u\<lparr>key_count := key_count t\<rparr> = t"

lemma same_ranges_fields:
  "same_ranges t u \<Longrightarrow> start_key u = start_key t \<and> end_key u = end_key t \<and> node_id u = node_id t
    \<and> tablet_id u = tablet_id t"
  by (cases t; cases u) (simp add: same_ranges_def)

lemma SyncAllTabletStats_ranges:
  "SyncAllTabletStats env ts w = Some (ts', w') \<Longrightarrow> list_all2 same_ranges ts ts'"
proof (induction ts arbitrary: w ts')
  case (Cons t ts)
  then show ?case
    by (auto simp: same_ranges_def split: bind_splits option.splits)
qed simp

lemma list_all2_same_ranges:
  assumes "list_all2 same_ranges ts us"
  shows "map start_key us = map start_key ts" "map end_key us = map end_key ts"
    and "map node_id us = map node_id ts"
  using assms by (induction rule: list_all2_induct) (auto dest: same_ranges_fields)

lemma sync_step:
  assumes "SyncAllTabletStats env (tablets n) w = Some (ts, w')"
  shows "table_step n (n\<lparr>tablets := ts\<rparr>)"
proof -
  note m = list_all2_same_ranges [OF SyncAllTabletStats_ranges [OF assms]]
  have "node_id ` set ts = node_id ` set (tablets n)"
    using m(3) by (metis set_map)
  then show ?thesis
    using partitions_cong_keys [OF m(1,2)] by (simp add: table_step_def)
qed

text \<open>The two outcomes of a split.\<close>

lemma TrySplitTablet_cases:
  assumes "TrySplitTablet env idx n w = Some (ok, n', w')"
  obtains (unsplit) "\<not> ok" "n' = n"
  | (split) xs t ys m kc where "ok" "tablets n = xs @ t # ys" "length xs = idx"
      "m \<noteq> []" "start_key t < m" "end_key t = [] \<or> m < end_key t"
      "n' = n\<lparr>next_tablet_id := next_tablet_id n + 2,
              tablets := xs @ t\<lparr>tablet_id := next_tablet_id n, end_key := m, key_count := kc div 2\<rparr>
                # t\<lparr>tablet_id := next_tablet_id n + 1, start_key := m, key_count := kc - kc div 2\<rparr> # ys,
              epoch := epoch n + 1\<rparr>"
      "\<exists>w1. QueryTabletStats env (node_id t) (start_key t) (end_key t) w = Some (Some (kc, m), w1)
         \<and> save env n' w1 = Some w'"
proof (cases "ok")
  case False
  with assms that(1) show thesis
    by (auto simp: TrySplitTablet_def Let_def split: if_splits bind_splits option.splits)
next
  case True
  then have idx: "idx < length (tablets n)"
    using assms by (auto simp: TrySplitTablet_def split: if_splits)
  then have ts: "tablets n = take idx (tablets n) @ tablets n ! idx # drop (idx + 1) (tablets n)"
    by (simp add: id_take_nth_drop)
  let ?t = "tablets n ! idx"
  from True assms obtain kc m w1 where q:
    "QueryTabletStats env (node_id ?t) (start_key ?t) (end_key ?t) w = Some (Some (kc, m), w1)"
    "\<not> (m = [] \<or> m \<le> start_key ?t \<or> end_key ?t \<noteq> [] \<and> end_key ?t \<le> m)"
    "save env n' w1 = Some w'"
    "n' = n\<lparr>next_tablet_id := next_tablet_id n + 2,
        tablets := take idx (tablets n)
          @ ?t\<lparr>tablet_id := next_tablet_id n, end_key := m, key_count := kc div 2\<rparr>
          # ?t\<lparr>tablet_id := next_tablet_id n + 1, start_key := m, key_count := kc - kc div 2\<rparr>
          # drop (idx + 1) (tablets n),
        epoch := epoch n + 1\<rparr>"
    by (simp add: TrySplitTablet_def Let_def idx split: if_splits bind_splits option.splits prod.splits)
  then show thesis
    using idx by (intro that(2) [OF True ts, of m kc]) (auto simp: not_le)
qed

lemma split_step:
  assumes "TrySplitTablet env idx n w = Some (ok, n', w')"
  shows "table_step n n'"
  using assms
proof (cases rule: TrySplitTablet_cases)
  case (split xs t ys m kc)
  then show ?thesis
    by (auto simp: table_step_def intro: partitions_split)
qed simp

text \<open>What holds of every run of the split loop that returns: the three ways a turn can go.\<close>

lemma split_loop_induct [consumes 1, case_names stop skip split]:
  assumes "split_loop env i n w = Some r"
    and "\<And>i n w. length (tablets n) \<le> i \<Longrightarrow> P i n w (n, w)"
    and "\<And>i n w r. i < length (tablets n) \<Longrightarrow> \<not> SPLIT_THRESHOLD \<le> key_count (tablets n ! i) \<Longrightarrow>
      P (i + 1) n w r \<Longrightarrow> P i n w r"
    and "\<And>i n w ok n' w' r. i < length (tablets n) \<Longrightarrow> SPLIT_THRESHOLD \<le> key_count (tablets n ! i) \<Longrightarrow>
      TrySplitTablet env i n w = Some (ok, n', w') \<Longrightarrow> P (i + 1) n' w' r \<Longrightarrow> P i n w r"
  shows "P i n w r"
proof -
  have "env' = env \<longrightarrow> P i n w r" if "split_loop env' i n w = Some r" for env' i n w r
    using that
  proof (rule split_loop.raw_induct [of "\<lambda>env' i n w r. env' = env \<longrightarrow> P i n w r", rotated])
    fix loop and env' :: "('a, 'b) env_scheme" and i n w r
    assume IH: "\<And>env' i n w r. loop env' i n w = Some r \<Longrightarrow> env' = env \<longrightarrow> P i n w r"
      and "(if length (tablets n) \<le> i then Some (n, w)
        else if SPLIT_THRESHOLD \<le> key_count (tablets n ! i)
        then TrySplitTablet env' i n w \<bind> (\<lambda>(_, n, w). loop env' (i + 1) n w)
        else loop env' (i + 1) n w) = Some r"
    then show "env' = env \<longrightarrow> P i n w r"
      using assms(2) [of n i w] assms(3) [of i n w r] assms(4) [of i n w]
      by (cases r) (auto simp: not_le split: if_splits bind_splits)
  qed
  with assms(1) show ?thesis by blast
qed

lemma split_loop_step:
  assumes "split_loop env i n w = Some r"
  shows "table_step n (fst r)"
  using assms
proof (induction rule: split_loop_induct)
  case (split i n w ok n' w' r)
  with split_step [OF split(3)] show ?case by (blast intro: table_step_trans)
qed simp_all

section \<open>What the balancer moves, and where\<close>

definition load_of :: "tablet list \<Rightarrow> u32 \<Rightarrow> u64" where
  "load_of ts i = sum_list (map key_count (filter (\<lambda>t. node_id t = i) ts))"

lemma load_add_map:
  assumes "sorted_wrt (<) (map fst m)"
  shows "sorted_wrt (<) (map fst (load_add i c m))
    \<and> set (map fst (load_add i c m)) = insert i (set (map fst m))
    \<and> map_of (load_add i c m) = (map_of m)(i \<mapsto> (case map_of m i of None \<Rightarrow> c | Some l \<Rightarrow> l + c))"
  using assms
proof (induction i c m rule: load_add.induct)
  case (2 i c j l m)
  have "map_of m i = None" if "i < j"
    using that "2.prems" by (auto simp: map_of_eq_None_iff)
  with 2 show ?case by (auto simp: fun_eq_iff split: option.splits)
qed simp

lemma node_load_fold:
  assumes "sorted_wrt (<) (map fst m)"
  shows "sorted_wrt (<) (map fst (fold (\<lambda>t. load_add (node_id t) (key_count t)) ts m))
    \<and> set (map fst (fold (\<lambda>t. load_add (node_id t) (key_count t)) ts m))
        = set (map fst m) \<union> node_id ` set ts
    \<and> (\<forall>i \<in> set (map fst m) \<union> node_id ` set ts.
         map_of (fold (\<lambda>t. load_add (node_id t) (key_count t)) ts m) i
         = Some ((case map_of m i of None \<Rightarrow> 0 | Some l \<Rightarrow> l) + load_of ts i))"
  using assms
proof (induction ts arbitrary: m)
  case Nil
  have "map_of m i \<noteq> None" if "i \<in> set (map fst m)" for i
    using that by (auto simp: map_of_eq_None_iff)
  with Nil show ?case by (auto simp: load_of_def split: option.split)
next
  case (Cons t ts)
  note add = load_add_map [OF Cons.prems, of "node_id t" "key_count t"]
  let ?m = "load_add (node_id t) (key_count t) m"
  from add have "sorted_wrt (<) (map fst ?m)" by blast
  note IH = Cons.IH [OF this]
  have "load_of (t # ts) i = (if i = node_id t then key_count t + load_of ts i else load_of ts i)" for i
    by (simp add: load_of_def)
  with IH add show ?case by (auto simp: add.assoc split: option.splits)
qed

lemma node_load_pairs:
  shows "set (map fst (node_load ts)) = node_id ` set ts"
    and "(i, l) \<in> set (node_load ts) \<Longrightarrow> l = load_of ts i"
proof -
  note f = node_load_fold [of "[]" ts, folded node_load_def]
  then show s: "set (map fst (node_load ts)) = node_id ` set ts" by simp
  assume m: "(i, l) \<in> set (node_load ts)"
  then have "i \<in> set (map fst (node_load ts))" by force
  with s have "i \<in> node_id ` set ts" by simp
  with f have "map_of (node_load ts) i = Some (load_of ts i)" by auto
  moreover from f have "distinct (map fst (node_load ts))" by (simp add: strict_sorted_iff)
  ultimately show "l = load_of ts i" using m by simp
qed

lemma foldl_max:
  fixes g :: "'a \<Rightarrow> 'b :: linorder"
  defines "F \<equiv> foldl (\<lambda>a b. if g a < g b then b else a)"
  shows "F a xs \<in> insert a (set xs) \<and> g a \<le> g (F a xs) \<and> (\<forall>b \<in> set xs. g b \<le> g (F a xs))"
proof (induction xs arbitrary: a)
  case Nil
  then show ?case by (simp add: F_def)
next
  case (Cons x xs)
  from Cons [of "if g a < g x then x else a"] show ?case
    by (cases "g a < g x") (auto simp: F_def)
qed

lemma foldl_min:
  fixes g :: "'a \<Rightarrow> 'b :: linorder"
  defines "F \<equiv> foldl (\<lambda>a b. if g b < g a then b else a)"
  shows "F a xs \<in> insert a (set xs) \<and> g (F a xs) \<le> g a \<and> (\<forall>b \<in> set xs. g (F a xs) \<le> g b)"
proof (induction xs arbitrary: a)
  case Nil
  then show ?case by (simp add: F_def)
next
  case (Cons x xs)
  from Cons [of "if g x < g a then x else a"] show ?case
    by (cases "g x < g a") (auto simp: F_def)
qed

lemma max_element_max:
  assumes "m \<noteq> []"
  shows "max_element m \<in> set m \<and> (\<forall>b \<in> set m. snd b \<le> snd (max_element m))"
  using foldl_max [of snd "hd m" "tl m"] assms unfolding max_element_def by (cases m) simp_all

lemma min_element_min:
  assumes "m \<noteq> []"
  shows "min_element m \<in> set m \<and> (\<forall>b \<in> set m. snd (min_element m) \<le> snd b)"
  using foldl_min [of snd "hd m" "tl m"] assms unfolding min_element_def by (cases m) simp_all

lemma find_target_result:
  "let r = find_target src ts i idx mc
   in r = idx \<and> (\<forall>t \<in> set ts. node_id t = src \<longrightarrow> key_count t \<le> mc)
      \<or> i \<le> r \<and> r < i + length ts \<and> node_id (ts ! (r - i)) = src \<and> mc < key_count (ts ! (r - i))
        \<and> (\<forall>t \<in> set ts. node_id t = src \<longrightarrow> key_count t \<le> key_count (ts ! (r - i)))"
proof (induction src ts i idx mc rule: find_target.induct)
  case (2 src t ts i idx mc)
  show ?case
  proof (cases "node_id t = src \<and> mc < key_count t")
    case True
    with "2.IH"(1) show ?thesis
      by (auto simp: Let_def Suc_diff_Suc Suc_le_eq not_less intro: order.strict_trans)
  next
    case False
    with "2.IH"(2) show ?thesis
      by (auto simp: Let_def Suc_diff_Suc Suc_le_eq not_less)
  qed
qed simp

lemma MigrateTablet_cases:
  assumes "MigrateTablet env idx dst n w = Some (ok, n', w')"
  obtains (stay) "\<not> ok" "n' = n"
  | (moved) t w1 w2 dok where "ok" "idx < length (tablets n)" "t = tablets n ! idx" "node_id t \<noteq> dst"
      "n' = n\<lparr>tablets := (tablets n)[idx := t\<lparr>node_id := dst\<rparr>], epoch := epoch n + 1\<rparr>"
      "ScanAndTransferData env (node_id t) dst (start_key t) (end_key t) w = Some (True, w1)"
      "save env n' w1 = Some w2"
      "SendDeleteRange env (node_id t) (start_key t) (end_key t) w2 = Some (dok, w')"
proof (cases "ok")
  case False
  with assms that(1) show thesis
    by (simp add: MigrateTablet_def Let_def split: if_splits bind_splits prod.splits)
next
  case True
  with assms that(2) [OF True _ refl] show thesis
    by (simp add: MigrateTablet_def Let_def not_le split: if_splits bind_splits prod.splits)
qed

lemma find_target_bounds:
  assumes "find_target src ts 0 (length ts) 0 = r" "r < length ts"
  shows "node_id (ts ! r) = src" "0 < key_count (ts ! r)"
    and "\<forall>t \<in> set ts. node_id t = src \<longrightarrow> key_count t \<le> key_count (ts ! r)"
  using find_target_result [of src ts 0 "length ts" 0] assms by (auto simp: Let_def)

text \<open>What \<open>DoLoadBalance\<close> chooses before it asks any node.\<close>

definition balance_target :: "tablet list \<Rightarrow> nat \<Rightarrow> u32 \<Rightarrow> bool" where
  "balance_target ts idx dst \<longleftrightarrow> idx < length ts \<and> dst \<in> node_id ` set ts
     \<and> (\<forall>i \<in> node_id ` set ts. load_of ts dst \<le> load_of ts i \<and> load_of ts i \<le> load_of ts (node_id (ts ! idx)))
     \<and> 7 \<le> load_of ts (node_id (ts ! idx)) - load_of ts dst
     \<and> load_of ts dst < load_of ts (node_id (ts ! idx))
     \<and> (\<forall>u \<in> set ts. node_id u = node_id (ts ! idx) \<longrightarrow> key_count u \<le> key_count (ts ! idx))
     \<and> 0 < key_count (ts ! idx)"

text \<open>No two nodes with tablets differ by more than the threshold allows.\<close>

definition balanced :: "tablet list \<Rightarrow> bool" where
  "balanced ts \<longleftrightarrow> (\<forall>t \<in> set ts. \<forall>u \<in> set ts.
     unat (load_of ts (node_id t)) < unat (load_of ts (node_id u)) + 7)"

lemma load_pos:
  assumes "load_of ts i \<noteq> 0"
  shows "\<exists>t \<in> set ts. node_id t = i \<and> 0 < key_count t"
proof (rule ccontr)
  assume "\<not> (\<exists>t \<in> set ts. node_id t = i \<and> 0 < key_count t)"
  then have "\<forall>t \<in> set ts. node_id t = i \<longrightarrow> key_count t = 0" by (auto simp flip: word_neq_0_conv)
  then have "load_of ts i = 0" by (induction ts) (auto simp: load_of_def)
  with assms show False by simp
qed

lemma balanced_extremes:
  assumes "\<forall>i \<in> node_id ` set ts. lo \<le> load_of ts i \<and> load_of ts i \<le> hi"
    and "(if lo < hi then hi - lo else 0) < BALANCE_DIFF_THRESHOLD"
  shows "balanced ts"
proof -
  have "unat hi < unat lo + 7"
    using assms(2) by (auto simp: BALANCE_DIFF_THRESHOLD_def word_less_nat_alt unat_sub_if' not_less split: if_splits)
  moreover have "unat lo \<le> unat (load_of ts (node_id t)) \<and> unat (load_of ts (node_id t)) \<le> unat hi"
    if "t \<in> set ts" for t
    using assms(1) that by (auto simp: word_le_nat_alt)
  ultimately show ?thesis
    unfolding balanced_def by (meson add_le_mono1 le_less_trans less_le_trans)
qed

lemma idle_balanced:
  assumes "length ts < 2 \<or> length (node_load ts) < 2 \<or> (if lo < hi then hi - lo else 0) < BALANCE_DIFF_THRESHOLD
      \<or> length ts \<le> find_target src ts 0 (length ts) 0"
    and "node_load ts \<noteq> [] \<Longrightarrow> \<forall>i \<in> node_id ` set ts. lo \<le> load_of ts i \<and> load_of ts i \<le> hi"
    and "node_load ts \<noteq> [] \<Longrightarrow> hi = load_of ts src"
  shows "balanced ts"
proof (cases "ts = []")
  case True
  then show ?thesis by (simp add: balanced_def)
next
  case False
  have owners: "set (map fst (node_load ts)) = node_id ` set ts" by (rule node_load_pairs(1))
  then have ne: "node_load ts \<noteq> []" using False by auto
  consider "length ts < 2" | "length (node_load ts) < 2" | "(if lo < hi then hi - lo else 0) < BALANCE_DIFF_THRESHOLD"
    | "length ts \<le> find_target src ts 0 (length ts) 0" using assms(1) by blast
  then show ?thesis
  proof cases
    case 1
    then obtain t where "ts = [t]" using False by (cases ts) auto
    then show ?thesis by (simp add: balanced_def)
  next
    case 2
    then obtain x where "node_load ts = [x]" using ne by (cases "node_load ts") auto
    then have "node_id ` set ts = {fst x}" using owners by simp
    then have "\<forall>t \<in> set ts. node_id t = fst x" by blast
    then show ?thesis by (simp add: balanced_def)
  next
    case 3
    with assms(2) [OF ne] show ?thesis by (rule balanced_extremes)
  next
    case 4
    then have "\<forall>t \<in> set ts. node_id t = src \<longrightarrow> key_count t \<le> 0"
      using find_target_result [of src ts 0 "length ts" 0] by (auto simp: Let_def)
    then have "hi = 0" using load_pos [of ts src] assms(3) [OF ne] by fastforce
    then show ?thesis
      by (intro balanced_extremes [OF assms(2) [OF ne]]) (simp add: BALANCE_DIFF_THRESHOLD_def)
  qed
qed

lemma DoLoadBalance_target:
  obtains (idle) "DoLoadBalance env n w = Some (False, n, w)" "balanced (tablets n)"
  | (tried) idx dst where "balance_target (tablets n) idx dst"
      "DoLoadBalance env n w = (case MigrateTablet env idx dst n w of
         None \<Rightarrow> None
       | Some (ok, n1, w1) \<Rightarrow> Some (ok, n1\<lparr>transfer_count := transfer_count n1 + key_count (tablets n1 ! idx),
           transfer_time_ms := transfer_time_ms n1 + elapsed env w1\<rparr>, w1))"
proof -
  let ?ts = "tablets n" and ?m = "node_load (tablets n)"
  obtain src hi where mx: "max_element ?m = (src, hi)" by fastforce
  obtain dst lo where mn: "min_element ?m = (dst, lo)" by fastforce
  let ?idx = "find_target src ?ts 0 (length ?ts) 0"
  have l: "hi = load_of ?ts src" "lo = load_of ?ts dst" "dst \<in> node_id ` set ?ts"
    and bounds: "\<forall>i \<in> node_id ` set ?ts. lo \<le> load_of ?ts i \<and> load_of ?ts i \<le> hi" if "?m \<noteq> []"
  proof -
    have "(src, hi) \<in> set ?m" "(dst, lo) \<in> set ?m"
      and b: "\<forall>b \<in> set ?m. lo \<le> snd b \<and> snd b \<le> hi"
      using max_element_max [OF that] min_element_min [OF that] mx mn by auto
    then show "hi = load_of ?ts src" "lo = load_of ?ts dst" "dst \<in> node_id ` set ?ts"
      using node_load_pairs(2) [of src hi ?ts] node_load_pairs(2) [of dst lo ?ts]
        node_load_pairs(1) [of ?ts] by force+
    show "\<forall>i \<in> node_id ` set ?ts. lo \<le> load_of ?ts i \<and> load_of ?ts i \<le> hi"
    proof
      fix i
      assume "i \<in> node_id ` set ?ts"
      then obtain x where "(i, x) \<in> set ?m" using node_load_pairs(1) [of ?ts] by fastforce
      with b node_load_pairs(2) [OF this] show "lo \<le> load_of ?ts i \<and> load_of ?ts i \<le> hi" by fastforce
    qed
  qed
  show thesis
  proof (cases "length ?ts < 2 \<or> length ?m < 2
      \<or> (if lo < hi then hi - lo else 0) < BALANCE_DIFF_THRESHOLD \<or> length ?ts \<le> ?idx")
    case True
    then have "DoLoadBalance env n w = Some (False, n, w)"
      using mx mn by (auto simp: DoLoadBalance_def Let_def split: if_splits)
    then show thesis by (rule that(1)) (rule idle_balanced [OF True bounds l(1)])
  next
    case False
    then have idx: "?idx < length ?ts" "?m \<noteq> []" "lo < hi" "7 \<le> hi - lo"
      by (auto simp: BALANCE_DIFF_THRESHOLD_def not_less split: if_splits)
    note ft = find_target_bounds [OF refl idx(1)] and l = l [OF idx(2)] and bounds = bounds [OF idx(2)]
    then have "balance_target ?ts ?idx dst" using idx l ft by (simp add: balance_target_def)
    moreover have "DoLoadBalance env n w = (case MigrateTablet env ?idx dst n w of
         None \<Rightarrow> None
       | Some (ok, n1, w1) \<Rightarrow> Some (ok, n1\<lparr>transfer_count := transfer_count n1 + key_count (tablets n1 ! ?idx),
           transfer_time_ms := transfer_time_ms n1 + elapsed env w1\<rparr>, w1))"
      using False mx mn by (auto simp: DoLoadBalance_def Let_def split: option.split)
    ultimately show thesis by (rule that(2))
  qed
qed

lemma DoLoadBalance_cases:
  assumes "DoLoadBalance env n w = Some (ok, n', w')"
  obtains (idle) "\<not> ok" "n' = n"
  | (tried) idx n1 dst where "balance_target (tablets n) idx dst"
      "MigrateTablet env idx dst n w = Some (ok, n1, w')"
      "n' = n1\<lparr>transfer_count := transfer_count n1 + key_count (tablets n1 ! idx),
               transfer_time_ms := transfer_time_ms n1 + elapsed env w'\<rparr>"
proof (cases rule: DoLoadBalance_target [of env n w])
  case idle
  with assms that(1) show thesis by simp
next
  case (tried idx dst)
  with assms that(2) show thesis by (auto split: option.splits)
qed

lemma migrate_step:
  assumes "MigrateTablet env idx dst n w = Some (ok, n', w')" "dst \<in> node_id ` set (tablets n)"
  shows "table_step n n'"
  using assms(1)
proof (cases rule: MigrateTablet_cases)
  case (moved t w1 w2 dok)
  let ?ts = "(tablets n)[idx := t\<lparr>node_id := dst\<rparr>]"
  have "tablets_partition ?ts = tablets_partition (tablets n)"
    using partition_move moved(2,3) by simp
  moreover have "node_id ` set ?ts \<subseteq> node_id ` set (tablets n)"
    using assms(2) set_update_subset_insert [of "tablets n" idx "t\<lparr>node_id := dst\<rparr>"] by auto
  ultimately show ?thesis
    unfolding moved(5) by (simp add: table_step_def)
qed simp

lemma balance_step:
  assumes "DoLoadBalance env n w = Some (ok, n', w')"
  shows "table_step n n'"
  using assms
proof (cases rule: DoLoadBalance_cases)
  case (tried idx n1 dst)
  then have "dst \<in> node_id ` set (tablets n)" by (simp add: balance_target_def)
  from migrate_step [OF tried(2) this] show ?thesis
    unfolding tried(3) by (simp add: table_step_def)
qed simp

lemma round_step:
  assumes "balancer_round env n w = Some (n', w')"
  shows "table_step n n'"
proof -
  from assms obtain ts w1 n2 w2 ok where r:
    "SyncAllTabletStats env (tablets n) w = Some (ts, w1)"
    "split_loop env 0 (n\<lparr>tablets := ts\<rparr>) w1 = Some (n2, w2)"
    "DoLoadBalance env n2 w2 = Some (ok, n', w')"
    by (auto simp: balancer_round_def split: bind_splits)
  from table_step_trans [OF table_step_trans [OF sync_step [OF r(1)] split_loop_step [OF r(2), simplified]]
      balance_step [OF r(3)]]
  show ?thesis .
qed

lemma loop_step: "BalancerLoop env rounds n w = Some (n', w') \<Longrightarrow> table_step n n'"
proof (induction rounds arbitrary: n w)
  case (Suc rounds)
  then obtain n1 w1 where "balancer_round env n w = Some (n1, w1)"
    "BalancerLoop env rounds n1 w1 = Some (n', w')"
    by (auto split: bind_splits)
  from table_step_trans [OF round_step [OF this(1)] Suc.IH [OF this(2)]] show ?case .
qed simp

text \<open>Property C8 (the balancer keeps the table). However many rounds it runs, and whatever the data
  nodes answer, the network does and the file system does: a table that partitions the key space
  goes on partitioning it, no tablet goes to a node that had none, and the peers, the role and the
  identity of the master do not change. So every key stays routed.\<close>
theorem BalancerLoop_keeps_table:
  assumes "tablets_partition (tablets n)" "BalancerLoop env rounds n w = Some (n', w')"
  shows "tablets_partition (tablets n') \<and> node_id ` set (tablets n') \<subseteq> node_id ` set (tablets n)
    \<and> self_id n' = self_id n \<and> port n' = port n \<and> peers n' = peers n
    \<and> (\<exists>t. GetTabletRoute n' key = Some t \<and> owns t key)"
proof -
  have "table_step n n'" by (rule loop_step [OF assms(2)])
  with assms(1) GetTabletRoute_finds [of n' key] show ?thesis
    by (auto simp: table_step_def)
qed

text \<open>What balancing moves. When \<open>DoLoadBalance\<close> moves a tablet, it takes the
  largest tablet of a node of maximal load to a node of minimal load, the two loads differ by the
  threshold of 7 at least, nothing else in the table changes, and the epoch goes up by one.\<close>
lemma DoLoadBalance_moves:
  assumes "DoLoadBalance env n w = Some (True, n', w')"
  shows "\<exists>idx < length (tablets n). \<exists>dst. let ts = tablets n; t = ts ! idx in
    tablets n' = ts[idx := t\<lparr>node_id := dst\<rparr>] \<and> epoch n' = epoch n + 1
    \<and> dst \<noteq> node_id t \<and> dst \<in> node_id ` set ts
    \<and> (\<forall>i \<in> node_id ` set ts. load_of ts dst \<le> load_of ts i \<and> load_of ts i \<le> load_of ts (node_id t))
    \<and> load_of ts dst < load_of ts (node_id t) \<and> 7 \<le> load_of ts (node_id t) - load_of ts dst
    \<and> (\<forall>u \<in> set ts. node_id u = node_id t \<longrightarrow> key_count u \<le> key_count t)"
  using assms
proof (cases rule: DoLoadBalance_cases)
  case (tried idx n1 dst)
  from tried(2) show ?thesis
  proof (cases rule: MigrateTablet_cases)
    case (moved t w1 w2 dok)
    then show ?thesis
      using tried unfolding balance_target_def by (intro exI [of _ idx] exI [of _ dst] conjI) (simp_all add: Let_def)
  qed simp
qed simp

end
