(* ===== verification/Migration.thy ===== *)
theory Migration
  imports Balancer
begin

text \<open>
  The balancer against data nodes that answer. The locales \<open>cluster_exchange\<close> and
  \<open>cluster_rpc\<close> are the contract between the balancer and its environment; their lemmas give
  the outcome of statistics, splitting and migration in terms of what the nodes store. The theory
  \<open>Cluster\<close> interprets them.
\<close>

section \<open>Boundaries and keys\<close>

text \<open>The keys at which tablets begin and end.\<close>

definition boundaries :: "tablet list \<Rightarrow> str set" where
  "boundaries ts = start_key ` set ts \<union> end_key ` set ts"

lemma boundaries_sync:
  assumes "list_all2 same_ranges ts us"
  shows "boundaries us = boundaries ts"
proof -
  have "set (map start_key us) = set (map start_key ts)" "set (map end_key us) = set (map end_key ts)"
    by (simp_all only: list_all2_same_ranges [OF assms])
  then show ?thesis by (simp add: boundaries_def)
qed

lemma boundaries_split:
  assumes "idx < length ts" "us = take idx ts @ l # r # drop (idx + 1) ts"
    and "start_key l = start_key (ts ! idx)" "end_key r = end_key (ts ! idx)" "end_key l = start_key r"
  shows "boundaries us = insert (start_key r) (boundaries ts)"
proof -
  have "ts = take idx ts @ ts ! idx # drop (idx + 1) ts"
    using assms(1) by (simp add: id_take_nth_drop)
  from arg_cong [OF this, of set] have "set ts = insert (ts ! idx) (set (take idx ts) \<union> set (drop (idx + 1) ts))"
    by simp
  then show ?thesis using assms(2-5) by (auto simp: boundaries_def)
qed

lemma boundaries_moved:
  "idx < length ts \<Longrightarrow> boundaries (ts[idx := (ts ! idx)\<lparr>node_id := dst\<rparr>]) = boundaries ts"
proof -
  assume "idx < length ts"
  then have "map start_key (ts[idx := (ts ! idx)\<lparr>node_id := dst\<rparr>]) = map start_key ts"
    "map end_key (ts[idx := (ts ! idx)\<lparr>node_id := dst\<rparr>]) = map end_key ts"
    by (simp_all add: map_update list_update_same_conv)
  from arg_cong [OF this(1), of set] arg_cong [OF this(2), of set] show ?thesis
    by (simp add: boundaries_def)
qed

text \<open>The keys some node has.\<close>

definition held_keys :: "(u32 \<Rightarrow> raft_node option) \<Rightarrow> str set" where
  "held_keys ns = {k. \<exists>i d. ns i = Some d \<and> node_get d k \<noteq> None}"

section \<open>Data nodes that answer\<close>

text \<open>
  The contract between the balancer and what is around it when nothing fails, in two parts. In
  \<open>cluster_exchange\<close> every request to a node is handled by \<open>HandleBinaryRequest\<close> of that node
  and answered; \<open>cluster_rpc\<close> adds that a table whose boundaries are all in \<open>names\<close> can be
  saved, which leaves the nodes alone.
\<close>

locale cluster_exchange =
  fixes env :: "('w, 'z) env_scheme"
    and nodes :: "'w \<Rightarrow> u32 \<Rightarrow> raft_node option"
    and ready :: "'w \<Rightarrow> bool"
  assumes connected: "ready w \<Longrightarrow> nodes w i \<noteq> None \<Longrightarrow> is_connected env i w"
    and exchange: "ready w \<Longrightarrow> nodes w i = Some n \<Longrightarrow> frame_fits p
      \<Longrightarrow> HandleBinaryRequest n rid p = Some (r, n') \<Longrightarrow> 14 + length r < 2 ^ 32 \<Longrightarrow> 3000 \<le> t
      \<Longrightarrow> \<exists>w1 w2. net_send env i (EncodeCustomRequest rid p) w = (SendDone, w1)
        \<and> net_recv env i t w1 = (Some (respond rid r), w2)
        \<and> ready w2 \<and> nodes w2 = (nodes w)(i \<mapsto> n')"

locale cluster_rpc = cluster_exchange +
  fixes names :: "str set"
  assumes save_ok: "ready w \<Longrightarrow> boundaries (tablets n) \<subseteq> names
    \<Longrightarrow> \<exists>w'. save env n w = Some w' \<and> ready w' \<and> nodes w' = nodes w"

text \<open>A running data node, and what has to fit the length fields of the protocol.\<close>

definition data_node :: "raft_node \<Rightarrow> bool" where
  "data_node n \<longleftrightarrow> \<not> IsMaster n \<and> storage n \<noteq> None \<and> node_inv n"

definition entry_fits :: "str \<times> str \<Rightarrow> bool" where
  "entry_fits p \<longleftrightarrow> length (fst p) < 2 ^ 16 \<and> 17 + length (fst p) + length (snd p) < 2 ^ 32"

definition range_fits :: "raft_node \<Rightarrow> str \<Rightarrow> str \<Rightarrow> bool" where
  "range_fits n start end \<longleftrightarrow> length start < 2 ^ 16 \<and> length end < 2 ^ 16
     \<and> (\<forall>p \<in> set (node_pairs n start end). entry_fits p)
     \<and> 15 + length (scan_body (node_pairs n start end)) < 2 ^ 32"

lemma data_node_step:
  assumes "data_node n" "HandleBinaryRequest n rid p = Some (r, n')"
  shows "data_node n'"
proof -
  have g: "good_step n n'" by (rule HandleBinaryRequest_step [OF assms(2)])
  then have "map_option log_ok (storage n') = map_option log_ok (storage n)"
    by (simp add: good_step_def same_frame_def)
  then have "storage n' = None \<longleftrightarrow> storage n = None"
    by (metis map_option_is_None)
  with g assms(1) good_step_port [OF g] show ?thesis
    by (simp add: data_node_def good_step_def IsMaster_def)
qed

lemma node_writable_step:
  assumes "HandleBinaryRequest n rid p = Some (r, n')"
  shows "node_writable n' = node_writable n"
proof -
  have "map_option log_ok (storage n') = map_option log_ok (storage n)"
    using HandleBinaryRequest_step(2) [OF assms] by (simp add: good_step_def same_frame_def)
  then show ?thesis by (cases "storage n"; cases "storage n'") (simp_all add: node_writable_def)
qed

lemma length_range_payload [simp]:
  "length (range_payload op start end) = 5 + length start + length end"
  by (simp add: range_payload_def)

lemma range_dispatch:
  assumes "\<not> IsMaster n"
  shows "HandleBinaryRequest n rid (range_payload OP_TABLET_STATS s e)
      = HandleDataNodeTabletStats n (range_payload OP_TABLET_STATS s e)"
    and "HandleBinaryRequest n rid (range_payload OP_SCAN_RANGE s e)
      = HandleDataNodeScanRange n (range_payload OP_SCAN_RANGE s e)"
    and "HandleBinaryRequest n rid (range_payload OP_DELETE_RANGE s e)
      = HandleDataNodeDeleteRange n (range_payload OP_DELETE_RANGE s e)"
  using assms by (simp_all add: HandleBinaryRequest_def range_payload_def opcode_defs)

lemma length_scan_entry [simp]: "length (scan_entry k v) = 6 + length k + length v"
  by (simp add: scan_entry_def)

lemma scan_body_length:
  "p \<in> set ps \<Longrightarrow> length (fst p) + length (snd p) + length ps \<le> length (scan_body ps)"
  "length ps \<le> length (scan_body ps)"
proof -
  show l: "length ps \<le> length (scan_body ps)"
    by (induction ps) (auto simp: scan_body_def)
  assume "p \<in> set ps"
  then show "length (fst p) + length (snd p) + length ps \<le> length (scan_body ps)"
  proof (induction ps)
    case (Cons q qs)
    have "length qs \<le> length (scan_body qs)" by (induction qs) (auto simp: scan_body_def)
    with Cons show ?case by (cases q) (auto simp: scan_body_def)
  qed simp
qed

lemma node_median_mem: "node_median n s e \<noteq> [] \<Longrightarrow> node_median n s e \<in> fst ` set (node_pairs n s e)"
  by (auto simp: node_median_def Let_def split: if_splits)

lemma node_pairs_held:
  assumes "data_node d" "(k, v) \<in> set (node_pairs d s e)"
  shows "node_get d k = Some v" "in_range s e k"
proof -
  have "distinct (map fst (node_pairs d s e))"
    using node_pairs_sorted assms(1) by (auto simp: data_node_def strict_sorted_iff)
  then have "map_of (node_pairs d s e) k = Some v" using assms(2) by simp
  then show "node_get d k = Some v" "in_range s e k"
    using node_pairs_map [of d s e k] assms(1) by (auto simp: data_node_def split: if_splits)
qed

text \<open>With two keys or more the median lies inside the range and not at its start.\<close>

lemma node_median_inside:
  assumes "data_node d" "2 \<le> length (node_pairs d s e)"
  shows "s < node_median d s e" "e = [] \<or> node_median d s e < e" "node_median d s e \<noteq> []"
proof -
  let ?ks = "map fst (node_pairs d s e)" and ?m = "node_median d s e"
  have m: "?m = ?ks ! (length ?ks div 2)" using assms(2) by (auto simp: node_median_def Let_def)
  have "?m \<in> set ?ks" "?ks ! 0 \<in> set ?ks" unfolding m by (rule nth_mem; use assms(2) in auto)+
  then have r: "in_range s e ?m" "in_range s e (?ks ! 0)"
    using node_pairs_held(2) [OF assms(1)] by fastforce+
  have "sorted_wrt (<) ?ks" using node_pairs_sorted assms(1) by (simp add: data_node_def)
  then have "?ks ! 0 < ?m" unfolding m using assms(2) by (intro sorted_wrt_nth_less [of "(<)" ?ks]) auto
  with r show "s < ?m" "e = [] \<or> ?m < e" by (auto simp: in_range_def)
  then show "?m \<noteq> []" by auto
qed

lemma range_fits_median: "range_fits n s e \<Longrightarrow> length (node_median n s e) < 2 ^ 16"
  using node_median_mem [of n s e] by (cases "node_median n s e = []") (auto simp: range_fits_def entry_fits_def)

lemma range_fits_count: "range_fits n s e \<Longrightarrow> length (node_pairs n s e) < 2 ^ 32"
  using scan_body_length(2) [of "node_pairs n s e"] by (simp add: range_fits_def)

text \<open>Reading a statistics response and the head of a scan response.\<close>

lemma stats_response_reads:
  fixes kc :: u32 and m :: str
  defines "p \<equiv> response_payload ST_OK (be32 kc @ be16 (of_nat (length m)) @ m)"
  assumes "length m < 2 ^ 16"
  shows "length p = 11 + length m" "p ! 0 = ST_OK" "rd32 p 5 = Some kc"
    "rd16 p 9 = Some (of_nat (length m))" "subbuf p 11 (length m) = Some m"
proof -
  let ?v = "be32 kc @ be16 (of_nat (length m)) @ m"
  let ?h = "[ST_OK] @ be32 (of_nat (length ?v))"
  have p: "p = ?h @ be32 kc @ be16 (of_nat (length m)) @ m"
    by (simp add: p_def response_payload_def)
  show "length p = 11 + length m" "p ! 0 = ST_OK"
    by (simp_all add: p)
  show "rd32 p 5 = Some kc"
    unfolding p by (rule rd32_be32) simp
  have "rd16 ((?h @ be32 kc) @ be16 (of_nat (length m)) @ m) 9 = Some (of_nat (length m))"
    by (rule rd16_be16) simp
  then show "rd16 p 9 = Some (of_nat (length m))" by (simp add: p)
  have "subbuf ((?h @ be32 kc @ be16 (of_nat (length m))) @ m) 11 (length m) = Some m"
    by (rule subbuf_append_end) simp_all
  then show "subbuf p 11 (length m) = Some m" by (simp add: p)
qed

context cluster_exchange
begin

text \<open>One call to a node, with the response it decodes.\<close>

lemma call_ok:
  assumes "ready w" "nodes w i = Some n" "frame_fits p" "3000 \<le> t"
    and "HandleBinaryRequest n 1 p = Some (st # v, n')" "15 + length v < 2 ^ 32"
  shows "\<exists>w'. call env i p t w = Some (Some (response_payload st v), w') \<and> ready w'
    \<and> nodes w' = (nodes w)(i \<mapsto> n')"
proof -
  have "14 + length (st # v) < 2 ^ 32" using assms(6) by simp
  from exchange [OF assms(1-3,5) this assms(4)] obtain w1 w2 where
    e: "net_send env i (EncodeCustomRequest 1 p) w = (SendDone, w1)"
    "net_recv env i t w1 = (Some (respond 1 (st # v)), w2)" "ready w2"
    "nodes w2 = (nodes w)(i \<mapsto> n')" by blast
  have "TryDecode (respond 1 (st # v)) = Some (15 + length v, Some (1, response_payload st v))"
    using TryDecode_frame [of "response_payload st v" 1 "[]"] assms(6)
    by (simp add: respond_def EncodeResponse_custom frame_fits_def)
  with e show ?thesis by (simp add: call_def)
qed

lemma QueryTabletStats_ok:
  assumes "ready w" "nodes w i = Some n" "data_node n" "range_fits n s e"
  shows "\<exists>w'. QueryTabletStats env i s e w
      = Some (Some (ucast (of_nat (length (node_pairs n s e)) :: u32), node_median n s e), w')
    \<and> ready w' \<and> nodes w' = nodes w"
proof -
  let ?m = "node_median n s e" and ?c = "of_nat (length (node_pairs n s e)) :: u32"
  have fits: "length s < 2 ^ 16" "length e < 2 ^ 16" "length ?m < 2 ^ 16"
    using assms(4) range_fits_median by (auto simp: range_fits_def)
  have "HandleBinaryRequest n 1 (range_payload OP_TABLET_STATS s e)
      = Some (ST_OK # be32 ?c @ be16 (of_nat (length ?m)) @ ?m, n)"
    using assms(3) HandleDataNodeTabletStats_range [OF _ fits(1,2)]
    by (auto simp: data_node_def range_dispatch)
  moreover have "frame_fits (range_payload OP_TABLET_STATS s e)"
    "15 + length (be32 ?c @ be16 (of_nat (length ?m)) @ ?m) < 2 ^ 32"
    using fits by (simp_all add: frame_fits_def)
  ultimately obtain w' where c: "call env i (range_payload OP_TABLET_STATS s e) 3000 w
      = Some (Some (response_payload ST_OK (be32 ?c @ be16 (of_nat (length ?m)) @ ?m)), w')"
    "ready w'" "nodes w' = (nodes w)(i \<mapsto> n)"
    using call_ok [OF assms(1,2)] by (metis order_refl)
  from connected [OF assms(1)] assms(2) have "is_connected env i w" by simp
  with c assms(2) stats_response_reads [OF fits(3), of ?c] fits(3) show ?thesis
    by (auto simp: QueryTabletStats_def unat_of_nat16)
qed

end


section \<open>Moving the pairs of a range\<close>

lemma entry_reads:
  assumes "p = pre @ scan_entry k v @ post" "length pre = pos" "length k < 2 ^ 16" "length v < 2 ^ 32"
  shows "rd16 p pos = Some (of_nat (length k))" "subbuf p (pos + 2) (length k) = Some k"
    "rd32 p (pos + 2 + length k) = Some (of_nat (length v))"
    "subbuf p (pos + 2 + length k + 4) (length v) = Some v"
    "pos + 2 + length k + 4 + length v \<le> length p"
proof -
  let ?k = "be16 (of_nat (length k))" and ?v = "be32 (of_nat (length v))"
  have p: "p = pre @ ?k @ k @ ?v @ v @ post"
    by (simp add: assms(1) scan_entry_def)
  show "rd16 p pos = Some (of_nat (length k))"
    unfolding p using assms(2) by (rule rd16_be16)
  have "subbuf ((pre @ ?k) @ k @ ?v @ v @ post) (pos + 2) (length k) = Some k"
    using assms(2) by (intro subbuf_append) simp_all
  then show "subbuf p (pos + 2) (length k) = Some k" by (simp add: p)
  have "rd32 ((pre @ ?k @ k) @ ?v @ v @ post) (pos + 2 + length k) = Some (of_nat (length v))"
    using assms(2) by (intro rd32_be32) simp
  then show "rd32 p (pos + 2 + length k) = Some (of_nat (length v))" by (simp add: p)
  have "subbuf ((pre @ ?k @ k @ ?v) @ v @ post) (pos + 2 + length k + 4) (length v) = Some v"
    using assms(2) by (intro subbuf_append) simp_all
  then show "subbuf p (pos + 2 + length k + 4) (length v) = Some v" by (simp add: p)
  show "pos + 2 + length k + 4 + length v \<le> length p"
    using assms(2) by (simp add: p)
qed

context cluster_exchange
begin

lemma put_exchange:
  assumes "ready w" "nodes w i = Some n" "data_node n" "entry_fits (k, v)" "3000 \<le> t"
  shows "\<exists>w1 f w2 n'. net_send env i (EncodeRequest rid OP_PUT k v) w = (SendDone, w1)
    \<and> net_recv env i t w1 = (Some f, w2) \<and> ready w2 \<and> nodes w2 = (nodes w)(i \<mapsto> n')
    \<and> data_node n' \<and> node_writable n' = node_writable n
    \<and> node_get n' = (if node_writable n then (node_get n)(k \<mapsto> v) else node_get n)"
proof -
  have k: "length k < 2 ^ 16" "7 + length k + length v < 2 ^ 32" "17 + length k + length v < 2 ^ 32"
    using assms(4) by (simp_all add: entry_fits_def)
  obtain d where "storage n = Some d" using assms(3) by (auto simp: data_node_def)
  with HandleDataNodePut_outcome [OF _ this k(1,2), of OP_PUT] assms(3) obtain n' where
    h: "HandleBinaryRequest n rid (kv_payload OP_PUT k v)
        = Some ([if node_writable n then ST_OK else ST_TIMEOUT], n')"
    "node_writable n' = node_writable n"
    "node_get n' = (if node_writable n then (node_get n)(k \<mapsto> v) else node_get n)"
    by (auto simp: data_node_def kv_dispatch)
  have "frame_fits (kv_payload OP_PUT k v)" using k(3) by (simp add: frame_fits_def)
  from exchange [OF assms(1,2) this h(1) _ assms(5)] h(2,3) data_node_step [OF assms(3) h(1)]
  show ?thesis
    unfolding EncodeRequest_custom [OF k(1)] by fastforce
qed

text \<open>Copying a scan body to a node: every pair is put, and counted even when the node answers that
  it could not write it.\<close>

lemma transfer_loop_ok:
  assumes "ready w" "nodes w dst = Some n" "data_node n"
    and "\<forall>q \<in> set ps. entry_fits q" "distinct (map fst ps)"
    and "p = pre @ concat (map (\<lambda>(k, v). scan_entry k v) ps)" "length pre = pos"
  shows "\<exists>w' n'. transfer_loop env dst p (length ps) i pos tr w = Some (tr + of_nat (length ps), w')
    \<and> ready w' \<and> nodes w' = (nodes w)(dst \<mapsto> n') \<and> data_node n'
    \<and> node_writable n' = node_writable n
    \<and> node_get n' = (if node_writable n then node_get n ++ map_of ps else node_get n)"
  using assms
proof (induction ps arbitrary: w n i pos tr pre)
  case Nil
  then show ?case by (auto intro!: exI [of _ n])
next
  case (Cons q ps)
  obtain k v where q: "q = (k, v)" by (cases q)
  with Cons.prems(4) have fit: "entry_fits (k, v)" by simp
  then have len: "length k < 2 ^ 16" "length v < 2 ^ 32" by (simp_all add: entry_fits_def)
  have p: "p = pre @ scan_entry k v @ concat (map (\<lambda>(k, v). scan_entry k v) ps)"
    using Cons.prems(6) q by simp
  note rds = entry_reads [OF p Cons.prems(7) len]
  from put_exchange [OF Cons.prems(1-3) fit, of 5000 "1 + i + 1"] obtain w1 f w2 n2 where
    put: "net_send env dst (EncodeRequest (1 + i + 1) OP_PUT k v) w = (SendDone, w1)"
    "net_recv env dst 5000 w1 = (Some f, w2)" "ready w2" "nodes w2 = (nodes w)(dst \<mapsto> n2)"
    "data_node n2" "node_writable n2 = node_writable n"
    "node_get n2 = (if node_writable n then (node_get n)(k \<mapsto> v) else node_get n)"
    by auto
  let ?pos = "pos + 2 + length k + 4 + length v"
  have step: "transfer_loop env dst p (length (q # ps)) i pos tr w
      = transfer_loop env dst p (length ps) (i + 1) ?pos (tr + 1) w2"
    using rds put(1,2) by (simp add: unat_of_nat16 [OF len(1)] unat_of_nat32 [OF len(2)] Let_def add.commute)
  have "p = (pre @ scan_entry k v) @ concat (map (\<lambda>(k, v). scan_entry k v) ps)"
    "length (pre @ scan_entry k v) = ?pos" "\<forall>q \<in> set ps. entry_fits q" "distinct (map fst ps)"
    "nodes w2 dst = Some n2"
    using p Cons.prems(4,5,7) put(4) by simp_all
  from Cons.IH [OF put(3) this(5) put(5) this(3,4,1,2), of "i + 1" "tr + 1"] obtain w' n' where
    r: "transfer_loop env dst p (length ps) (i + 1) ?pos (tr + 1) w2
        = Some (tr + 1 + of_nat (length ps), w')"
    "ready w'" "nodes w' = (nodes w2)(dst \<mapsto> n')" "data_node n'" "node_writable n' = node_writable n2"
    "node_get n' = (if node_writable n2 then node_get n2 ++ map_of ps else node_get n2)"
    by blast
  have "k \<notin> dom (map_of ps)" using Cons.prems(5) q by (auto simp: dom_map_of_conv_image_fst)
  then have "(node_get n)(k \<mapsto> v) ++ map_of ps = node_get n ++ map_of (q # ps)"
    by (simp add: q map_add_upd_left)
  then have "node_get n' = (if node_writable n then node_get n ++ map_of (q # ps) else node_get n)"
    using r(6) put(6,7) by (simp split: if_splits)
  moreover have "nodes w' = (nodes w)(dst \<mapsto> n')" using r(3) put(4) by simp
  moreover have "tr + 1 + of_nat (length ps) = tr + of_nat (length (q # ps))" by simp
  moreover have "node_writable n' = node_writable n" using r(5) put(6) by simp
  ultimately show ?case unfolding step using r(1,2,4) by (intro exI [of _ w'] exI [of _ n']) simp
qed

lemma SendDeleteRange_ok:
  assumes "ready w" "nodes w i = Some n" "data_node n" "length s < 2 ^ 16" "length e < 2 ^ 16"
  shows "\<exists>w' n'. SendDeleteRange env i s e w = Some (True, w') \<and> ready w'
    \<and> nodes w' = (nodes w)(i \<mapsto> n') \<and> data_node n' \<and> node_writable n' = node_writable n
    \<and> (\<forall>k. node_get n' k = (if in_range s e k \<and> node_writable n then None else node_get n k))"
proof -
  from HandleDataNodeDeleteRange_outcome [OF _ _ assms(4,5), of n OP_DELETE_RANGE] assms(3) obtain n' where
    h: "HandleBinaryRequest n 1 (range_payload OP_DELETE_RANGE s e) = Some ([ST_OK], n')"
    "\<forall>k. node_get n' k = (if in_range s e k \<and> node_writable n then None else node_get n k)"
    by (auto simp: data_node_def range_dispatch)
  have "frame_fits (range_payload OP_DELETE_RANGE s e)"
    using assms(4,5) by (simp add: frame_fits_def)
  from call_ok [OF assms(1,2) this _ h(1), of 10000] obtain w' where
    "call env i (range_payload OP_DELETE_RANGE s e) 10000 w
      = Some (Some (response_payload ST_OK []), w')" "ready w'" "nodes w' = (nodes w)(i \<mapsto> n')"
    by auto
  moreover from connected [OF assms(1)] assms(2) have "is_connected env i w" by simp
  ultimately show ?thesis
    using h(2) data_node_step [OF assms(3) h(1)] node_writable_step [OF h(1)]
    by (auto simp: SendDeleteRange_def response_payload_def)
qed

end

lemma scan_response_reads:
  fixes ps :: "(str \<times> str) list"
  defines "p \<equiv> response_payload ST_OK (scan_body ps)"
  assumes "15 + length (scan_body ps) < 2 ^ 32"
  shows "p ! 0 = ST_OK" "p \<noteq> []" "9 \<le> length p" "rd32 p 1 = Some (of_nat (length (scan_body ps)))"
    "unat (5 + of_nat (length (scan_body ps)) :: u32) = length p"
    "rd32 p 5 = Some (of_nat (length ps))"
    "\<exists>pre. p = pre @ concat (map (\<lambda>(k, v). scan_entry k v) ps) \<and> length pre = 9"
proof -
  let ?l = "be32 (of_nat (length (scan_body ps)))" and ?c = "be32 (of_nat (length ps))"
    and ?es = "concat (map (\<lambda>(k, v). scan_entry k v) ps)"
  have p: "p = [ST_OK] @ ?l @ ?c @ ?es"
    by (simp add: p_def response_payload_def scan_body_def)
  show "p ! 0 = ST_OK" "p \<noteq> []" "9 \<le> length p" by (simp_all add: p)
  show "rd32 p 1 = Some (of_nat (length (scan_body ps)))"
    unfolding p by (rule rd32_be32) simp
  have "rd32 (([ST_OK] @ ?l) @ ?c @ ?es) 5 = Some (of_nat (length ps))"
    by (rule rd32_be32) simp
  then show "rd32 p 5 = Some (of_nat (length ps))" by (simp add: p)
  have "unat (of_nat (5 + length (scan_body ps)) :: u32) = 5 + length (scan_body ps)"
    using assms(2) by (intro unat_of_nat32) simp
  then show "unat (5 + of_nat (length (scan_body ps)) :: u32) = length p"
    by (simp add: p_def)
  show "\<exists>pre. p = pre @ ?es \<and> length pre = 9"
    by (intro exI [of _ "[ST_OK] @ ?l @ ?c"]) (simp add: p)
qed

text \<open>What a migration makes of the two nodes.\<close>

definition moved_pairs :: "raft_node \<Rightarrow> raft_node \<Rightarrow> str \<Rightarrow> str \<Rightarrow> str \<Rightarrow> str option" where
  "moved_pairs ns nd s e =
     (if node_writable nd then node_get nd ++ map_of (node_pairs ns s e) else node_get nd)"

context cluster_exchange
begin

lemma ScanAndTransferData_ok:
  assumes "ready w" "nodes w src = Some ns" "nodes w dst = Some nd"
    and "data_node ns" "data_node nd" "range_fits ns s e"
  shows "\<exists>w' nd'. ScanAndTransferData env src dst s e w = Some (True, w') \<and> ready w'
    \<and> nodes w' = (nodes w)(dst \<mapsto> nd') \<and> data_node nd' \<and> node_writable nd' = node_writable nd
    \<and> node_get nd' = moved_pairs ns nd s e"
proof -
  let ?ps = "node_pairs ns s e"
  have fits: "length s < 2 ^ 16" "length e < 2 ^ 16" "\<forall>q \<in> set ?ps. entry_fits q"
    "15 + length (scan_body ?ps) < 2 ^ 32"
    using assms(6) by (auto simp: range_fits_def)
  have con: "is_connected env src w" "is_connected env dst w"
    using connected [OF assms(1)] assms(2,3) by auto
  have h: "HandleBinaryRequest ns 1 (range_payload OP_SCAN_RANGE s e) = Some (ST_OK # scan_body ?ps, ns)"
    using assms(4) HandleDataNodeScanRange_range [OF _ fits(1,2)]
    by (auto simp: data_node_def range_dispatch)
  have "frame_fits (range_payload OP_SCAN_RANGE s e)"
    using fits by (simp add: frame_fits_def)
  from call_ok [OF assms(1,2) this _ h fits(4), of 30000] assms(2) obtain w1 where
    c: "call env src (range_payload OP_SCAN_RANGE s e) 30000 w
      = Some (Some (response_payload ST_OK (scan_body ?ps)), w1)" "ready w1" "nodes w1 = nodes w"
    by (auto simp: map_upd_triv)
  note rd = scan_response_reads [OF fits(4)]
  obtain pre where pre: "response_payload ST_OK (scan_body ?ps)
      = pre @ concat (map (\<lambda>(k, v). scan_entry k v) ?ps)" "length pre = 9"
    using rd(7) by blast
  have "distinct (map fst ?ps)"
    using assms(4) node_pairs_sorted [of ns s e] by (auto simp: data_node_def strict_sorted_iff)
  moreover have "nodes w1 dst = Some nd" using c(3) assms(3) by simp
  ultimately obtain w2 nd' where
    t: "transfer_loop env dst (response_payload ST_OK (scan_body ?ps)) (length ?ps) 0 9 0 w1
        = Some (0 + of_nat (length ?ps), w2)"
    "ready w2" "nodes w2 = (nodes w1)(dst \<mapsto> nd')" "data_node nd'" "node_writable nd' = node_writable nd"
    "node_get nd' = moved_pairs ns nd s e"
    using transfer_loop_ok [OF c(2) _ assms(5) fits(3) _ pre, of dst 0 0] unfolding moved_pairs_def by blast
  have "unat (of_nat (length ?ps) :: u32) = length ?ps"
    using range_fits_count [OF assms(6)] by (rule unat_of_nat32)
  then have "ScanAndTransferData env src dst s e w = Some (True, w2)"
    using con c(1) rd(1-6) t(1) by (simp add: ScanAndTransferData_def del: One_nat_def)
  with t(2-6) c(3) show ?thesis by auto
qed

end

context cluster_rpc
begin

lemma MigrateTablet_ok:
  assumes "ready w" "idx < length (tablets n)" "t = tablets n ! idx" "dst \<noteq> node_id t"
    and "nodes w (node_id t) = Some ns" "nodes w dst = Some nd" "data_node ns" "data_node nd"
    and "range_fits ns (start_key t) (end_key t)" "boundaries (tablets n) \<subseteq> names"
  shows "\<exists>w' ns' nd'. MigrateTablet env idx dst n w
      = Some (True, n\<lparr>tablets := (tablets n)[idx := t\<lparr>node_id := dst\<rparr>], epoch := epoch n + 1\<rparr>, w')
    \<and> ready w' \<and> nodes w' = (nodes w)(node_id t \<mapsto> ns', dst \<mapsto> nd') \<and> data_node ns' \<and> data_node nd'
    \<and> node_writable ns' = node_writable ns \<and> node_writable nd' = node_writable nd
    \<and> node_get nd' = moved_pairs ns nd (start_key t) (end_key t)
    \<and> (\<forall>k. node_get ns' k = (if owns t k \<and> node_writable ns then None else node_get ns k))"
proof -
  let ?n = "n\<lparr>tablets := (tablets n)[idx := t\<lparr>node_id := dst\<rparr>], epoch := epoch n + 1\<rparr>"
  from ScanAndTransferData_ok [OF assms(1,5-9)] obtain w1 nd' where
    s: "ScanAndTransferData env (node_id t) dst (start_key t) (end_key t) w = Some (True, w1)"
    "ready w1" "nodes w1 = (nodes w)(dst \<mapsto> nd')" "data_node nd'" "node_writable nd' = node_writable nd"
    "node_get nd' = moved_pairs ns nd (start_key t) (end_key t)" by blast
  have "boundaries (tablets ?n) \<subseteq> names"
    using assms(3,10) boundaries_moved [OF assms(2)] by simp
  from save_ok [OF s(2) this] obtain w2 where
    v: "save env ?n w1 = Some w2" "ready w2" "nodes w2 = nodes w1" by blast
  have "nodes w2 (node_id t) = Some ns" "length (start_key t) < 2 ^ 16" "length (end_key t) < 2 ^ 16"
    using v(3) s(3) assms(4,5,9) by (simp_all add: range_fits_def)
  from SendDeleteRange_ok [OF v(2) this(1) assms(7) this(2,3)] obtain w3 ns' where
    d: "SendDeleteRange env (node_id t) (start_key t) (end_key t) w2 = Some (True, w3)" "ready w3"
    "nodes w3 = (nodes w2)(node_id t \<mapsto> ns')" "data_node ns'" "node_writable ns' = node_writable ns"
    "\<forall>k. node_get ns' k = (if owns t k \<and> node_writable ns then None else node_get ns k)" by blast
  have "MigrateTablet env idx dst n w = Some (True, ?n, w3)"
    using assms(2-4) s(1) v(1) d(1) by (simp add: MigrateTablet_def Let_def)
  moreover have "nodes w3 = (nodes w)(node_id t \<mapsto> ns', dst \<mapsto> nd')"
    using d(3) v(3) s(3) assms(4) by (simp add: fun_upd_twist)
  ultimately show ?thesis using d s by blast
qed

end

section \<open>What clients find\<close>

text \<open>The value a client finds for a key: the routed node's.\<close>

definition cluster_get :: "raft_node \<Rightarrow> (u32 \<Rightarrow> raft_node option) \<Rightarrow> str \<Rightarrow> str option" where
  "cluster_get n ns k =
     (case GetTabletRoute n k of
        None \<Rightarrow> None
      | Some t \<Rightarrow> (case ns (node_id t) of None \<Rightarrow> None | Some d \<Rightarrow> node_get d k))"

lemma GetTabletRoute_nth:
  assumes "tablets_partition (tablets n)" "j < length (tablets n)" "owns (tablets n ! j) k"
  shows "GetTabletRoute n k = Some (tablets n ! j)"
proof -
  obtain t where t: "t \<in> set (tablets n)" "GetTabletRoute n k = Some t" "owns t k"
    using GetTabletRoute_finds [OF assms(1), of k] by blast
  have "t = tablets n ! j"
    by (rule partitions_unique [OF assms(1) t(1) nth_mem [OF assms(2)] t(3) assms(3)])
  with t(2) show ?thesis by simp
qed

lemma owner_index:
  assumes "tablets_partition (tablets n)"
  obtains j where "j < length (tablets n)" "owns (tablets n ! j) k"
  using partitions_cover [OF assms, of k] by (auto simp: in_set_conv_nth)

lemma owner_index_unique:
  assumes "tablets_partition ts" "i < length ts" "j < length ts" "owns (ts ! i) k" "owns (ts ! j) k"
  shows "i = j"
proof (rule ccontr)
  assume "i \<noteq> j"
  then consider "i < j" | "j < i" by linarith
  then show False
    using partitions_nth [OF assms(1), of i j] partitions_nth [OF assms(1), of j i] assms(2-5)
    by cases (auto simp: in_range_def)
qed

lemma moved_pairs_range:
  assumes "data_node ns"
  shows "moved_pairs ns nd s e k
    = (if in_range s e k \<and> node_writable nd
       then (case node_get ns k of Some v \<Rightarrow> Some v | None \<Rightarrow> node_get nd k) else node_get nd k)"
  using assms node_pairs_map [of ns s e k]
  by (auto simp: moved_pairs_def data_node_def map_add_def split: option.split)

lemma cluster_get_moved:
  assumes part: "tablets_partition (tablets n)" and idx: "idx < length (tablets n)"
    and t: "t = tablets n ! idx" "dst \<noteq> node_id t"
    and old: "ns (node_id t) = Some a" "ns dst = Some b" "data_node a"
    and new: "ns' = ns(node_id t \<mapsto> a', dst \<mapsto> b')"
    and b': "node_get b' = moved_pairs a b (start_key t) (end_key t)"
    and a': "\<forall>k. node_get a' k = (if owns t k \<and> node_writable a then None else node_get a k)"
    and n': "tablets n' = (tablets n)[idx := t\<lparr>node_id := dst\<rparr>]"
  shows "cluster_get n' ns' k =
    (if owns t k then
       (if node_writable b then (case cluster_get n ns k of Some v \<Rightarrow> Some v | None \<Rightarrow> node_get b k)
        else node_get b k)
     else cluster_get n ns k)"
proof -
  obtain j where j: "j < length (tablets n)" "owns (tablets n ! j) k"
    by (rule owner_index [OF part])
  have part': "tablets_partition (tablets n')"
    using partition_move idx part n' t(1) by simp
  have u': "tablets n' ! j = (if j = idx then t\<lparr>node_id := dst\<rparr> else tablets n ! j)"
    "j < length (tablets n')"
    using n' idx j(1) by simp_all
  then have "owns (tablets n' ! j) k" using j(2) t(1) by auto
  note route = GetTabletRoute_nth [OF part j] GetTabletRoute_nth [OF part' u'(2) this]
  show ?thesis
  proof (cases "j = idx")
    case True
    with j(2) t(1) have "owns t k" by simp
    with True show ?thesis
      using route u' t old new b' moved_pairs_range [OF old(3), of b "start_key t" "end_key t" k]
      by (simp add: cluster_get_def)
  next
    case False
    with owner_index_unique [OF part j(1) idx j(2)] t(1) have no: "\<not> owns t k" by auto
    have "(case ns' i of None \<Rightarrow> None | Some d \<Rightarrow> node_get d k)
        = (case ns i of None \<Rightarrow> None | Some d \<Rightarrow> node_get d k)" for i
      using new old a' b' no moved_pairs_range [OF old(3), of b "start_key t" "end_key t" k] by simp
    with False no show ?thesis using route u' by (simp add: cluster_get_def)
  qed
qed

context cluster_rpc
begin

text \<open>The outcome of a migration for every key.\<close>

lemma MigrateTablet_lookup:
  assumes "ready w" "tablets_partition (tablets n)" "idx < length (tablets n)" "t = tablets n ! idx"
    and "dst \<noteq> node_id t" "nodes w (node_id t) = Some a" "nodes w dst = Some b"
    and "data_node a" "data_node b" "range_fits a (start_key t) (end_key t)" "boundaries (tablets n) \<subseteq> names"
  shows "\<exists>n' w'. MigrateTablet env idx dst n w = Some (True, n', w') \<and> ready w'
    \<and> epoch n' = epoch n + 1 \<and> tablets n' = (tablets n)[idx := t\<lparr>node_id := dst\<rparr>]
    \<and> (\<forall>k. cluster_get n' (nodes w') k =
         (if owns t k then
            (if node_writable b
             then (case cluster_get n (nodes w) k of Some v \<Rightarrow> Some v | None \<Rightarrow> node_get b k)
             else node_get b k)
          else cluster_get n (nodes w) k))"
proof -
  let ?n = "n\<lparr>tablets := (tablets n)[idx := t\<lparr>node_id := dst\<rparr>], epoch := epoch n + 1\<rparr>"
  from MigrateTablet_ok [OF assms(1,3-11)] obtain w' a' b' where m:
    "MigrateTablet env idx dst n w = Some (True, ?n, w')" "ready w'"
    "nodes w' = (nodes w)(node_id t \<mapsto> a', dst \<mapsto> b')"
    "node_get b' = moved_pairs a b (start_key t) (end_key t)"
    "\<forall>k. node_get a' k = (if owns t k \<and> node_writable a then None else node_get a k)" by blast
  have "tablets ?n = (tablets n)[idx := t\<lparr>node_id := dst\<rparr>]" by simp
  note cluster_get_moved [OF assms(2-8) m(3-5) this]
  with m(1,2) show ?thesis by fastforce
qed

text \<open>A split of a tablet whose owner answers.\<close>

lemma TrySplitTablet_ok:
  assumes "ready w" "idx < length (tablets n)" "t = tablets n ! idx"
    and "nodes w (node_id t) = Some d" "data_node d" "range_fits d (start_key t) (end_key t)"
    and "boundaries (tablets n) \<union> held_keys (nodes w) \<subseteq> names"
  shows "\<exists>ok n' w'. TrySplitTablet env idx n w = Some (ok, n', w') \<and> ready w' \<and> nodes w' = nodes w
    \<and> (\<not> ok \<longrightarrow> n' = n \<and> (key_count t < SPLIT_THRESHOLD \<or> length (node_pairs d (start_key t) (end_key t)) < 2))
    \<and> (ok \<longrightarrow> (let ps = node_pairs d (start_key t) (end_key t); m = node_median d (start_key t) (end_key t);
                   c = ucast (of_nat (length ps) :: u32) in
         m \<noteq> [] \<and> start_key t < m \<and> (end_key t = [] \<or> m < end_key t) \<and>
         tablets n' = take idx (tablets n)
           @ t\<lparr>tablet_id := next_tablet_id n, end_key := m, key_count := c div 2\<rparr>
           # t\<lparr>tablet_id := next_tablet_id n + 1, start_key := m, key_count := c - c div 2\<rparr>
           # drop (idx + 1) (tablets n)))"
proof -
  from QueryTabletStats_ok [OF assms(1,4-6)] obtain w1 where q:
    "QueryTabletStats env (node_id t) (start_key t) (end_key t) w
      = Some (Some (ucast (of_nat (length (node_pairs d (start_key t) (end_key t))) :: u32),
          node_median d (start_key t) (end_key t)), w1)" "ready w1" "nodes w1 = nodes w" by blast
  let ?ps = "node_pairs d (start_key t) (end_key t)" and ?m = "node_median d (start_key t) (end_key t)"
  let ?c = "ucast (of_nat (length ?ps) :: u32) :: u64"
  let ?l = "t\<lparr>tablet_id := next_tablet_id n, end_key := ?m, key_count := ?c div 2\<rparr>"
    and ?r = "t\<lparr>tablet_id := next_tablet_id n + 1, start_key := ?m, key_count := ?c - ?c div 2\<rparr>"
  let ?n = "n\<lparr>next_tablet_id := next_tablet_id n + 2,
      tablets := take idx (tablets n) @ ?l # ?r # drop (idx + 1) (tablets n), epoch := epoch n + 1\<rparr>"
  show ?thesis
  proof (cases "key_count t < SPLIT_THRESHOLD \<or> ?m = [] \<or> ?m \<le> start_key t
      \<or> end_key t \<noteq> [] \<and> end_key t \<le> ?m")
    case True
    then have "\<exists>w'. TrySplitTablet env idx n w = Some (False, n, w') \<and> ready w' \<and> nodes w' = nodes w"
      using assms(1-3) q by (auto simp: TrySplitTablet_def Let_def)
    moreover have "key_count t < SPLIT_THRESHOLD \<or> length ?ps < 2"
      using True node_median_inside [OF assms(5), of "start_key t" "end_key t"] by (auto simp: not_less)
    ultimately show ?thesis by blast
  next
    case False
    have "boundaries (tablets ?n) = insert ?m (boundaries (tablets n))"
      using boundaries_split [OF assms(2) refl, of "?l" "?r"] by (simp add: assms(3))
    moreover have "?m \<in> held_keys (nodes w)"
      using False node_median_mem [of d "start_key t" "end_key t"] node_pairs_held(1) [OF assms(5)] assms(4)
      unfolding held_keys_def by fastforce
    ultimately have "boundaries (tablets ?n) \<subseteq> names" using assms(7) by auto
    from save_ok [OF q(2) this] obtain w2 where
      v: "save env ?n w1 = Some w2" "ready w2" "nodes w2 = nodes w1" by blast
    have "TrySplitTablet env idx n w = Some (True, ?n, w2)"
      using False assms(2,3) q(1) v(1) by (simp add: TrySplitTablet_def Let_def)
    with v q(3) False show ?thesis
      by (intro exI [of _ True] exI [of _ ?n] exI [of _ w2]) (simp add: Let_def not_le)
  qed
qed

end


section \<open>Splitting with honest statistics\<close>

lemma node_pairs_append:
  assumes "node_inv d" "s \<le> m" "m \<noteq> []" "before_end e m"
  shows "node_pairs d s e = node_pairs d s m @ node_pairs d m e"
proof (rule sorted_keys_unique)
  note map = node_pairs_map [OF assms(1)]
  have keys: "k \<in> set (map fst (node_pairs d a b)) \<longleftrightarrow> in_range a b k \<and> node_get d k \<noteq> None" for a b k
    using map [of a b k] map_of_eq_None_iff [of "node_pairs d a b" k] by (auto split: if_splits)
  show "sorted_keys (node_pairs d s e)" by (rule node_pairs_sorted [OF assms(1)])
  have "x < y" if "x \<in> set (map fst (node_pairs d s m))" "y \<in> set (map fst (node_pairs d m e))" for x y
    using that assms(3) unfolding keys by (auto simp: in_range_def)
  then show "sorted_keys (node_pairs d s m @ node_pairs d m e)"
    using node_pairs_sorted [OF assms(1)] by (simp add: sorted_wrt_append)
  show "map_of (node_pairs d s e) = map_of (node_pairs d s m @ node_pairs d m e)"
    using in_range_left [OF assms(2,3,4)] in_range_right [OF assms(2), of e]
    by (auto simp: fun_eq_iff map map_add_def split: option.split)
qed

lemma node_median_splits:
  assumes "data_node d" "node_median d s e \<noteq> []"
  shows "s \<le> node_median d s e" "before_end e (node_median d s e)"
    and "length (node_pairs d s (node_median d s e)) = length (node_pairs d s e) div 2"
proof -
  let ?m = "node_median d s e"
  obtain db where db: "storage d = Some db" "db_inv db"
    using assms(1) by (auto simp: data_node_def node_inv_def split: option.splits)
  then have ks: "map fst (node_pairs d a b) = range_keys a b db" for a b
    by (simp add: node_pairs_def range_keys_def)
  have len: "length (node_pairs d a b) = length (range_keys a b db)" for a b
    using ks [of a b] by (metis length_map)
  have ne: "range_keys s e db \<noteq> []" "?m = range_keys s e db ! (length (range_keys s e db) div 2)"
    using assms(2) by (auto simp: node_median_def ks Let_def split: if_splits)
  note sp = median_splits [OF db(2) assms(2) ne]
  from sp(1) show "s \<le> ?m" "before_end e ?m" by (auto simp: live_keys_def in_range_iff)
  show "length (node_pairs d s ?m) = length (node_pairs d s e) div 2"
    using sp(2) by (simp add: len card_live_keys [OF db(2)])
qed

lemma median_halves:
  assumes "data_node d" "node_median d s e \<noteq> []"
  shows "length (node_pairs d s (node_median d s e)) = length (node_pairs d s e) div 2"
    and "length (node_pairs d (node_median d s e) e)
      = length (node_pairs d s e) - length (node_pairs d s e) div 2"
  using node_median_splits [OF assms] assms(2)
    node_pairs_append [of d s "node_median d s e" e] assms(1)
  by (simp_all add: data_node_def)

lemma scan_body_append: "length (scan_body (ps @ qs)) = length (scan_body ps) + length (scan_body qs) - 4"
  by (simp add: scan_body_def)

lemma range_fits_halves:
  assumes "data_node d" "node_median d s e \<noteq> []" "range_fits d s e"
  shows "range_fits d s (node_median d s e)" "range_fits d (node_median d s e) e"
proof -
  let ?m = "node_median d s e"
  have ap: "node_pairs d s e = node_pairs d s ?m @ node_pairs d ?m e"
    using node_pairs_append node_median_splits [OF assms(1,2)] assms(1,2) by (simp add: data_node_def)
  have "4 \<le> length (scan_body ps)" for ps by (simp add: scan_body_def)
  then have "length (scan_body (node_pairs d s ?m)) \<le> length (scan_body (node_pairs d s e))"
    "length (scan_body (node_pairs d ?m e)) \<le> length (scan_body (node_pairs d s e))"
    unfolding ap scan_body_append by (simp_all add: add_le_imp_le_diff le_diff_conv2 trans_le_add2)
  moreover have "set (node_pairs d s ?m) \<subseteq> set (node_pairs d s e)"
    "set (node_pairs d ?m e) \<subseteq> set (node_pairs d s e)"
    using ap by auto
  moreover have "length ?m < 2 ^ 16" by (rule range_fits_median [OF assms(3)])
  ultimately show "range_fits d s ?m" "range_fits d ?m e"
    using assms(3) unfolding range_fits_def by (auto simp: subset_iff)
qed

text \<open>Every tablet's owner is a data node whose range fits the protocol.\<close>

definition owners_fit :: "(u32 \<Rightarrow> raft_node option) \<Rightarrow> tablet list \<Rightarrow> bool" where
  "owners_fit ns ts \<longleftrightarrow> (\<forall>t \<in> set ts. \<exists>d. ns (node_id t) = Some d \<and> data_node d
     \<and> range_fits d (start_key t) (end_key t))"

definition live_count :: "(u32 \<Rightarrow> raft_node option) \<Rightarrow> tablet \<Rightarrow> nat" where
  "live_count ns t =
     (case ns (node_id t) of None \<Rightarrow> 0 | Some d \<Rightarrow> length (node_pairs d (start_key t) (end_key t)))"

text \<open>A synchronisation gives every tablet its exact number of keys.\<close>

lemma owners_fit_sync: "list_all2 same_ranges ts us \<Longrightarrow> owners_fit ns ts \<Longrightarrow> owners_fit ns us"
  by (induction rule: list_all2_induct) (auto simp: owners_fit_def dest: same_ranges_fields)

context cluster_exchange
begin

lemma SyncAllTabletStats_ok:
  assumes "ready w" "owners_fit (nodes w) ts"
  shows "\<exists>us w'. SyncAllTabletStats env ts w = Some (us, w') \<and> ready w'
    \<and> nodes w' = nodes w \<and> list_all2 same_ranges ts us
    \<and> (\<forall>u \<in> set us. unat (key_count u) = live_count (nodes w) u)"
  using assms
proof (induction ts arbitrary: w)
  case (Cons t ts)
  then obtain d where d: "nodes w (node_id t) = Some d" "data_node d"
    "range_fits d (start_key t) (end_key t)"
    by (auto simp: owners_fit_def)
  let ?c = "ucast (of_nat (length (node_pairs d (start_key t) (end_key t))) :: u32) :: u64"
  from QueryTabletStats_ok [OF Cons.prems(1) d] obtain m w1 where q:
    "QueryTabletStats env (node_id t) (start_key t) (end_key t) w = Some (Some (?c, m), w1)"
    "ready w1" "nodes w1 = nodes w" by blast
  have "owners_fit (nodes w1) ts" using Cons.prems(2) q(3) by (simp add: owners_fit_def)
  from Cons.IH [OF q(2) this] q(3) obtain us w2 where s:
    "SyncAllTabletStats env ts w1 = Some (us, w2)" "ready w2"
    "nodes w2 = nodes w" "list_all2 same_ranges ts us"
    "\<forall>u \<in> set us. unat (key_count u) = live_count (nodes w) u" by auto
  let ?t = "t\<lparr>key_count := ?c\<rparr>"
  have "unat ?c = live_count (nodes w) ?t"
    using d(1) range_fits_count [OF d(3)]
    by (simp add: live_count_def unsigned_ucast_eq take_bit_nat_eq_self unat_of_nat32)
  moreover have "SyncAllTabletStats env (t # ts) w = Some (?t # us, w2)"
    using q(1) s(1) by (auto simp: Let_def)
  moreover have "same_ranges t ?t" by (simp add: same_ranges_def)
  ultimately show ?case using s(2-5) by auto
qed simp

end

context cluster_rpc
begin

text \<open>A split that happens leaves two tablets with exact key counts, half of the keys each.\<close>

lemma TrySplitTablet_halves:
  assumes "ready w" "idx < length (tablets n)" "owners_fit (nodes w) (tablets n)"
    and "boundaries (tablets n) \<union> held_keys (nodes w) \<subseteq> names"
  obtains (unsplit) w' where "TrySplitTablet env idx n w = Some (False, n, w')" "ready w'" "nodes w' = nodes w"
      "key_count (tablets n ! idx) < SPLIT_THRESHOLD \<or> live_count (nodes w) (tablets n ! idx) < 2"
  | (split) n' w' l r where "TrySplitTablet env idx n w = Some (True, n', w')" "ready w'" "nodes w' = nodes w"
      "tablets n' = take idx (tablets n) @ l # r # drop (idx + 1) (tablets n)"
      "owners_fit (nodes w) (tablets n')"
      "unat (key_count l) = live_count (nodes w) l" "unat (key_count r) = live_count (nodes w) r"
      "live_count (nodes w) l = live_count (nodes w) (tablets n ! idx) div 2"
      "live_count (nodes w) r
        = live_count (nodes w) (tablets n ! idx) - live_count (nodes w) (tablets n ! idx) div 2"
      "start_key l = start_key (tablets n ! idx)" "end_key r = end_key (tablets n ! idx)"
      "end_key l = start_key r" "start_key r \<in> held_keys (nodes w)"
      "node_id l = node_id (tablets n ! idx)" "node_id r = node_id (tablets n ! idx)"
proof -
  let ?t = "tablets n ! idx"
  obtain d where d: "nodes w (node_id ?t) = Some d" "data_node d" "range_fits d (start_key ?t) (end_key ?t)"
    using assms(2,3) unfolding owners_fit_def by (meson nth_mem)
  let ?c = "length (node_pairs d (start_key ?t) (end_key ?t))"
    and ?m = "node_median d (start_key ?t) (end_key ?t)"
  let ?cw = "ucast (of_nat ?c :: u32) :: u64"
  from TrySplitTablet_ok [OF assms(1,2) refl d assms(4)] obtain ok n' w' where s:
    "TrySplitTablet env idx n w = Some (ok, n', w')" "ready w'" "nodes w' = nodes w"
    "\<not> ok \<longrightarrow> n' = n \<and> (key_count ?t < SPLIT_THRESHOLD \<or> ?c < 2)"
    "ok \<longrightarrow> ?m \<noteq> [] \<and> tablets n' = take idx (tablets n)
       @ ?t\<lparr>tablet_id := next_tablet_id n, end_key := ?m, key_count := ?cw div 2\<rparr>
       # ?t\<lparr>tablet_id := next_tablet_id n + 1, start_key := ?m, key_count := ?cw - ?cw div 2\<rparr>
       # drop (idx + 1) (tablets n)"
    by (auto simp: Let_def)
  show thesis
  proof (cases "ok")
    case False
    with s unsplit d(1) show thesis by (simp add: live_count_def)
  next
    case True
    let ?l = "?t\<lparr>tablet_id := next_tablet_id n, end_key := ?m, key_count := ?cw div 2\<rparr>"
      and ?r = "?t\<lparr>tablet_id := next_tablet_id n + 1, start_key := ?m, key_count := ?cw - ?cw div 2\<rparr>"
    have m: "?m \<noteq> []" and ts: "tablets n' = take idx (tablets n) @ ?l # ?r # drop (idx + 1) (tablets n)"
      using s(5) True by simp_all
    have lc: "live_count (nodes w) ?t = ?c" "live_count (nodes w) ?l = ?c div 2"
      "live_count (nodes w) ?r = ?c - ?c div 2"
      using d(1) median_halves [OF d(2) m] by (simp_all add: live_count_def)
    have cw: "unat ?cw = ?c"
      using range_fits_count [OF d(3)] by (simp add: unsigned_ucast_eq take_bit_nat_eq_self unat_of_nat32)
    then have kc: "unat (?cw div 2) = ?c div 2" "unat (?cw - ?cw div 2) = ?c - ?c div 2"
      by (simp_all add: unat_div unat_sub_if' word_le_nat_alt)
    have "owners_fit (nodes w) [?l, ?r]"
      using d range_fits_halves [OF d(2) m d(3)] by (simp add: owners_fit_def)
    then have "owners_fit (nodes w) (tablets n')"
      using assms(3) unfolding ts owners_fit_def by (auto dest: in_set_takeD in_set_dropD)
    have "?m \<in> held_keys (nodes w)"
      using node_median_mem [OF m] node_pairs_held(1) [OF d(2), of ?m] d(1)
      unfolding held_keys_def by fastforce
    with split s(1-3) ts lc kc True \<open>owners_fit (nodes w) (tablets n')\<close> show thesis by simp
  qed
qed

text \<open>The split loop ends, although it adds tablets in front of where it is going.\<close>

lemma split_loop_ends:
  assumes "ready w" "owners_fit (nodes w) (tablets n)" "boundaries (tablets n) \<union> held_keys (nodes w) \<subseteq> names"
  shows "\<exists>n' w'. split_loop env i n w = Some (n', w') \<and> ready w' \<and> nodes w' = nodes w
    \<and> owners_fit (nodes w) (tablets n')"
  using assms
proof (induction "(length (tablets n) - i, live_count (nodes w) (tablets n ! i))" arbitrary: i n w
    rule: wf_induct_rule [OF wf_lex_prod [OF wf_less_than wf_less_than]])
  case (1 i n w)
  show ?case
  proof (cases "i < length (tablets n) \<and> SPLIT_THRESHOLD \<le> key_count (tablets n ! i)")
    case False
    have "length (tablets n) - Suc i < length (tablets n) - i" if "i < length (tablets n)"
      using that by simp
    with False show ?thesis
      using "1.hyps" [of n "i + 1" w] "1.prems"
      by (cases "i < length (tablets n)") (auto simp: split_loop.simps [of env i])
  next
    case big: True
    from "1.prems"(1) conjunct1 [OF big] "1.prems"(2,3) show ?thesis
    proof (cases rule: TrySplitTablet_halves)
      case (unsplit w')
      then show ?thesis
        using big "1.hyps" [of n "i + 1" w'] "1.prems"
          by (simp add: split_loop.simps [of env i] diff_less_mono2)
    next
      case (split n' w' l r)
      let ?c = "live_count (nodes w) (tablets n ! i)"
      have step: "split_loop env i n w = split_loop env (i + 1) n' w'"
        using big split(1) by (simp add: split_loop.simps [of env i])
      have len: "length (tablets n') = length (tablets n) + 1" "tablets n' ! (i + 1) = r"
        using big split(4) by (auto simp: nth_append min_def)
      have fit: "owners_fit (nodes w') (tablets n')" using split(3,5) by simp
      have named: "boundaries (tablets n') \<union> held_keys (nodes w') \<subseteq> names"
        using boundaries_split [OF conjunct1 [OF big] split(4,10-12)] split(3,13) "1.prems"(3) by auto
      show ?thesis
      proof (cases "2 \<le> ?c")
        case True
        then have "live_count (nodes w) r < ?c" using split(9) by simp
        then show ?thesis
          unfolding step
          using "1.hyps" [of n' "i + 1" w', OF _ split(2) fit named] len split(3) by simp
      next
        case False
        then have "\<not> SPLIT_THRESHOLD \<le> key_count r"
          using split(7,9) by (simp add: SPLIT_THRESHOLD_def word_le_nat_alt)
        then have "split_loop env (i + 1) n' w' = split_loop env (i + 2) n' w'"
          using len big by (simp add: split_loop.simps [of env "Suc i"])
        then show ?thesis
          unfolding step
          using "1.hyps" [of n' "i + 2" w', OF _ split(2) fit named] len conjunct1 [OF big] split(3)
          by (simp add: diff_less_mono2)
      qed
    qed
  qed
qed

end

end
