(* ===== verification/Placement.thy ===== *)
theory Placement
  imports Migration
begin

text \<open>
  Where the keys are. In a well-placed store every tablet is at a running data node that accepts
  writes, and a node has no key of a tablet that is somewhere else. Every part of a balancer round
  keeps this, and with it the map that the store is.
\<close>

section \<open>Well-placed stores\<close>

definition placed :: "tablet list \<Rightarrow> (u32 \<Rightarrow> raft_node option) \<Rightarrow> bool" where
  "placed ts ns \<longleftrightarrow> tablets_partition ts
     \<and> (\<forall>t \<in> set ts. \<exists>d. ns (node_id t) = Some d \<and> data_node d \<and> node_writable d)
     \<and> (\<forall>i d k. ns i = Some d \<longrightarrow> node_get d k \<noteq> None \<longrightarrow> (\<forall>t \<in> set ts. owns t k \<longrightarrow> node_id t = i))"

text \<open>The store as a map, for a table and the nodes.\<close>

definition store_map :: "tablet list \<Rightarrow> (u32 \<Rightarrow> raft_node option) \<Rightarrow> str \<Rightarrow> str option" where
  "store_map ts ns k =
     (case find (\<lambda>t. owns t k) ts of
        None \<Rightarrow> None
      | Some t \<Rightarrow> (case ns (node_id t) of None \<Rightarrow> None | Some d \<Rightarrow> node_get d k))"

lemma owner_found:
  assumes "tablets_partition ts" "t \<in> set ts" "owns t k"
  shows "find (\<lambda>t. owns t k) ts = Some t"
proof (cases "find (\<lambda>t. owns t k) ts")
  case None
  with assms(2,3) show ?thesis by (auto simp: find_None_iff)
next
  case (Some u)
  then have "u \<in> set ts" "owns u k" by (auto simp: find_Some_iff)
  with Some partitions_unique [OF assms(1) this(1) assms(2) this(2) assms(3)] show ?thesis by simp
qed

lemma store_map_owner:
  assumes "tablets_partition ts" "t \<in> set ts" "owns t k" "ns (node_id t) = Some d"
  shows "store_map ts ns k = node_get d k"
  using assms(4) by (simp add: store_map_def owner_found [OF assms(1-3)])

lemma cluster_get_store_map:
  assumes "tablets_partition (tablets n)"
  shows "cluster_get n ns = store_map (tablets n) ns"
proof
  fix k
  obtain t where "t \<in> set (tablets n)" "GetTabletRoute n k = Some t" "owns t k"
    using GetTabletRoute_finds [OF assms, of k] by blast
  with owner_found [OF assms this(1,3)] show "cluster_get n ns k = store_map (tablets n) ns k"
    by (simp add: cluster_get_def store_map_def)
qed

text \<open>In a well-placed store the value of a key is the value of whatever node has one.\<close>

lemma placed_held:
  assumes "placed ts ns" "ns i = Some d" "node_get d k = Some v"
  shows "store_map ts ns k = Some v"
proof -
  have part: "tablets_partition ts" using assms(1) by (simp add: placed_def)
  obtain t where t: "t \<in> set ts" "owns t k" using partitions_cover [OF part, of k] by auto
  have "node_id t = i" using assms t unfolding placed_def by blast
  with store_map_owner [OF part t, of ns d] assms(2,3) show ?thesis by simp
qed

lemma held_keys_dom:
  assumes "placed ts ns"
  shows "held_keys ns = dom (store_map ts ns)"
proof
  show "held_keys ns \<subseteq> dom (store_map ts ns)"
    using placed_held [OF assms] by (fastforce simp: held_keys_def)
  show "dom (store_map ts ns) \<subseteq> held_keys ns"
    by (auto simp: store_map_def held_keys_def split: option.splits) blast
qed

text \<open>A write at the owner of its key keeps the placement and updates the map.\<close>

lemma placed_write:
  assumes "placed ts ns" "t \<in> set ts" "owns t k" "ns (node_id t) = Some n"
    and "data_node n'" "node_writable n'" "node_get n' = (node_get n)(k := x)"
  shows "placed ts (ns(node_id t \<mapsto> n'))" "store_map ts (ns(node_id t \<mapsto> n')) = (store_map ts ns)(k := x)"
proof -
  have old: "tablets_partition ts"
    "\<forall>t \<in> set ts. \<exists>d. ns (node_id t) = Some d \<and> data_node d \<and> node_writable d"
    "\<forall>i d k. ns i = Some d \<longrightarrow> node_get d k \<noteq> None \<longrightarrow> (\<forall>t \<in> set ts. owns t k \<longrightarrow> node_id t = i)"
    using assms(1) by (simp_all add: placed_def)
  have "node_id u = i" if d: "(ns(node_id t \<mapsto> n')) i = Some d" "node_get d l \<noteq> None" and u: "u \<in> set ts" "owns u l"
    for i d l u
  proof (cases "i = node_id t \<and> l = k")
    case True
    then show ?thesis using partitions_unique [OF old(1) u(1) assms(2) u(2)] assms(3) by simp
  next
    case False
    then have "\<exists>e. ns i = Some e \<and> node_get e l \<noteq> None"
      using d assms(4,7) by (auto split: if_splits)
    then show ?thesis using old(3) u by blast
  qed
  moreover have "\<forall>u \<in> set ts. \<exists>d. (ns(node_id t \<mapsto> n')) (node_id u) = Some d \<and> data_node d \<and> node_writable d"
    using old(2) assms(5,6) by simp
  ultimately show "placed ts (ns(node_id t \<mapsto> n'))"
    using old(1) unfolding placed_def by blast
  show "store_map ts (ns(node_id t \<mapsto> n')) = (store_map ts ns)(k := x)"
  proof
    fix l
    obtain u where u: "u \<in> set ts" "owns u l" using partitions_cover [OF old(1), of l] by auto
    obtain d where "ns (node_id u) = Some d" using old(2) u(1) by blast
    moreover have "u = t" if "l = k"
      using partitions_unique [OF old(1) u(1) assms(2) u(2)] assms(3) that by simp
    ultimately show "store_map ts (ns(node_id t \<mapsto> n')) l = ((store_map ts ns)(k := x)) l"
      using assms(4,7) by (auto simp: store_map_def owner_found [OF old(1) u])
  qed
qed

section \<open>Refining the table\<close>

text \<open>Every tablet of \<open>us\<close> is a part of one of \<open>ts\<close>, at the same node.\<close>

definition table_refines :: "tablet list \<Rightarrow> tablet list \<Rightarrow> bool" where
  "table_refines ts us \<longleftrightarrow>
     (\<forall>u \<in> set us. \<exists>t \<in> set ts. node_id u = node_id t \<and> (\<forall>k. owns u k \<longrightarrow> owns t k))"

lemma table_refines_refl [simp]: "table_refines ts ts"
  by (auto simp: table_refines_def)

lemma table_refines_trans: "table_refines ts us \<Longrightarrow> table_refines us vs \<Longrightarrow> table_refines ts vs"
  unfolding table_refines_def by metis

lemma table_refines_sync: "list_all2 same_ranges ts us \<Longrightarrow> table_refines ts us"
proof (induction rule: list_all2_induct)
  case (Cons t ts u us)
  with same_ranges_fields [OF Cons(1)] show ?case by (auto simp: table_refines_def)
qed simp

lemma placed_refines:
  assumes "placed ts ns" "table_refines ts us" "tablets_partition us"
  shows "placed us ns" "store_map us ns = store_map ts ns"
proof -
  have ts: "tablets_partition ts" "\<forall>t \<in> set ts. \<exists>d. ns (node_id t) = Some d \<and> data_node d \<and> node_writable d"
    "\<forall>i d k. ns i = Some d \<longrightarrow> node_get d k \<noteq> None \<longrightarrow> (\<forall>t \<in> set ts. owns t k \<longrightarrow> node_id t = i)"
    using assms(1) by (simp_all add: placed_def)
  have parent: "\<exists>t \<in> set ts. node_id u = node_id t \<and> (\<forall>k. owns u k \<longrightarrow> owns t k)" if "u \<in> set us" for u
    using that assms(2) unfolding table_refines_def by blast
  have "\<exists>d. ns (node_id u) = Some d \<and> data_node d \<and> node_writable d" if "u \<in> set us" for u
    using parent [OF that] ts(2) by metis
  moreover have "node_id u = i" if "ns i = Some d" "node_get d k \<noteq> None" "u \<in> set us" "owns u k" for i d k u
    using parent [OF that(3)] ts(3) that(1,2,4) by metis
  ultimately show "placed us ns" using assms(3) unfolding placed_def by blast
  show "store_map us ns = store_map ts ns"
  proof
    fix k
    obtain u where u: "u \<in> set us" "owns u k" using partitions_cover [OF assms(3), of k] by auto
    obtain t where t: "t \<in> set ts" "node_id u = node_id t" "owns t k"
      using parent [OF u(1)] u(2) by blast
    show "store_map us ns k = store_map ts ns k"
      by (simp add: store_map_def owner_found [OF assms(3) u] owner_found [OF ts(1) t(1,3)] t(2))
  qed
qed

text \<open>A split refines the table.\<close>

lemma split_refines:
  assumes "TrySplitTablet env idx n w = Some (ok, n', w')"
  shows "table_refines (tablets n) (tablets n')"
  using assms
proof (cases rule: TrySplitTablet_cases)
  case (split xs t ys m kc)
  have "in_range (start_key t) m k \<Longrightarrow> owns t k" "in_range m (end_key t) k \<Longrightarrow> owns t k" for k
    using split(4-6) by (auto simp: in_range_def)
  then show ?thesis
    unfolding split(2) split(7) by (auto simp: table_refines_def)
qed simp

lemma split_loop_refines:
  assumes "split_loop env i n w = Some r"
  shows "table_refines (tablets n) (tablets (fst r))"
  using assms
proof (induction rule: split_loop_induct)
  case (split i n w ok n' w' r)
  with split_refines [OF split(3)] show ?case by (blast intro: table_refines_trans)
qed simp_all

section \<open>Sizes\<close>

text \<open>A map whose entries, all of them in one scan response, fit the frames of the protocol.\<close>

definition map_bytes :: "(str \<Rightarrow> str option) \<Rightarrow> nat" where
  "map_bytes M = (\<Sum>k \<in> dom M. 6 + length k + length (the (M k)))"

definition map_fits :: "(str \<Rightarrow> str option) \<Rightarrow> bool" where
  "map_fits M \<longleftrightarrow> finite (dom M) \<and> (\<forall>k v. M k = Some v \<longrightarrow> entry_fits (k, v)) \<and> 19 + map_bytes M < 2 ^ 32"

lemma map_fits_key: "map_fits M \<Longrightarrow> k \<in> dom M \<Longrightarrow> length k < 2 ^ 16"
  by (auto simp: map_fits_def entry_fits_def)

lemma scan_body_bytes:
  assumes "distinct (map fst ps)" "\<forall>(k, v) \<in> set ps. M k = Some v" "finite (dom M)"
  shows "length (scan_body ps) \<le> 4 + map_bytes M"
proof -
  let ?f = "\<lambda>k. 6 + length k + length (the (M k))"
  have len: "length (scan_body ps) = 4 + sum_list (map (\<lambda>p. 6 + length (fst p) + length (snd p)) ps)"
    by (induction ps) (simp_all add: scan_body_def case_prod_beta)
  have eq: "map (\<lambda>p. 6 + length (fst p) + length (snd p)) ps = map ?f (map fst ps)"
    using assms(2) by (auto intro!: map_cong)
  note len
  also note eq
  also have "sum_list (map ?f (map fst ps)) = sum ?f (set (map fst ps))"
    by (rule sum_list_distinct_conv_sum_set [OF assms(1)])
  also have "\<dots> \<le> map_bytes M"
    unfolding map_bytes_def by (rule sum_mono2 [OF assms(3)]) (use assms(2) in auto)
  finally show ?thesis by simp
qed

lemma placed_owners_fit:
  assumes "placed ts ns" "map_fits (store_map ts ns)" "\<forall>b \<in> boundaries ts. length b < 2 ^ 16"
  shows "owners_fit ns ts"
  unfolding owners_fit_def
proof
  fix t
  assume t: "t \<in> set ts"
  then obtain d where d: "ns (node_id t) = Some d" "data_node d"
    using assms(1) by (auto simp: placed_def)
  let ?ps = "node_pairs d (start_key t) (end_key t)"
  have M: "store_map ts ns k = Some v" if "(k, v) \<in> set ?ps" for k v
    by (rule placed_held [OF assms(1) d(1) node_pairs_held(1) [OF d(2) that]])
  have "distinct (map fst ?ps)"
    using node_pairs_sorted d(2) by (auto simp: data_node_def strict_sorted_iff)
  then have "length (scan_body ?ps) \<le> 4 + map_bytes (store_map ts ns)"
    by (rule scan_body_bytes) (use M assms(2) in \<open>auto simp: map_fits_def\<close>)
  then have "15 + length (scan_body ?ps) < 2 ^ 32" using assms(2) by (simp add: map_fits_def)
  moreover have "entry_fits p" if "p \<in> set ?ps" for p
    using M that assms(2) by (cases p) (auto simp: map_fits_def)
  ultimately have "range_fits d (start_key t) (end_key t)"
    using assms(3) t by (simp add: range_fits_def boundaries_def)
  with d show "\<exists>d. ns (node_id t) = Some d \<and> data_node d \<and> range_fits d (start_key t) (end_key t)"
    by blast
qed

section \<open>Moving a tablet\<close>

lemma placed_moved:
  assumes "placed (tablets n) ns" "idx < length (tablets n)" "t = tablets n ! idx" "dst \<noteq> node_id t"
    and "ns (node_id t) = Some a" "ns dst = Some b" "data_node a" "node_writable a" "node_writable b"
    and "ns' = ns(node_id t \<mapsto> a', dst \<mapsto> b')" "data_node a'" "node_writable a'" "data_node b'" "node_writable b'"
    and "node_get b' = moved_pairs a b (start_key t) (end_key t)"
    and "\<forall>k. node_get a' k = (if owns t k \<and> node_writable a then None else node_get a k)"
  shows "placed ((tablets n)[idx := t\<lparr>node_id := dst\<rparr>]) ns'"
  unfolding placed_def
proof (intro conjI)
  let ?ts = "(tablets n)[idx := t\<lparr>node_id := dst\<rparr>]"
  have old: "tablets_partition (tablets n)"
    "\<forall>t \<in> set (tablets n). \<exists>d. ns (node_id t) = Some d \<and> data_node d \<and> node_writable d"
    "\<forall>i d k. ns i = Some d \<longrightarrow> node_get d k \<noteq> None \<longrightarrow> (\<forall>t \<in> set (tablets n). owns t k \<longrightarrow> node_id t = i)"
    using assms(1) by (simp_all add: placed_def)
  have t: "t \<in> set (tablets n)" using assms(2,3) by simp
  show part: "tablets_partition ?ts" using partition_move assms(2,3) old(1) by simp
  have member: "u = t\<lparr>node_id := dst\<rparr> \<or> u \<in> set (tablets n)" if "u \<in> set ?ts" for u
    using that unfolding assms(3) by (auto elim: moved_member)
  show "\<forall>u \<in> set ?ts. \<exists>d. ns' (node_id u) = Some d \<and> data_node d \<and> node_writable d"
    using member old(2) assms(10-14) by fastforce
  have new: "t\<lparr>node_id := dst\<rparr> \<in> set ?ts" using assms(2) by (simp add: set_update_memI)
  show "\<forall>i d k. ns' i = Some d \<longrightarrow> node_get d k \<noteq> None \<longrightarrow> (\<forall>u \<in> set ?ts. owns u k \<longrightarrow> node_id u = i)"
  proof (intro allI impI ballI)
    fix i d k u
    assume d: "ns' i = Some d" "node_get d k \<noteq> None" and u: "u \<in> set ?ts" "owns u k"
    show "node_id u = i"
    proof (cases "owns t k")
      case True
      then have "u = t\<lparr>node_id := dst\<rparr>"
        using partitions_unique [OF part u(1) new u(2)] by simp
      moreover have "i \<noteq> node_id t" using d True assms(4,8,10,16) by auto
      moreover have "i = node_id t" if "i \<noteq> dst" "i \<noteq> node_id t"
        using old(3) d that t True assms(10) by fastforce
      ultimately show ?thesis by fastforce
    next
      case False
      then have "u \<in> set (tablets n)" using member [OF u(1)] u(2) by auto
      moreover have "\<exists>d. ns i = Some d \<and> node_get d k \<noteq> None"
        using d False assms(5,6,10,15,16) moved_pairs_range [OF assms(7), of b "start_key t" "end_key t" k]
        by (cases "i = dst"; cases "i = node_id t") auto
      ultimately show ?thesis using old(3) u(2) by blast
    qed
  qed
qed

text \<open>What a round may do to the nodes.\<close>

definition nodes_step :: "(u32 \<Rightarrow> raft_node option) \<Rightarrow> (u32 \<Rightarrow> raft_node option) \<Rightarrow> bool" where
  "nodes_step ns ns' \<longleftrightarrow> (\<forall>i. ns' i = ns i \<or> (\<exists>d d'. ns i = Some d \<and> data_node d
     \<and> ns' i = Some d' \<and> data_node d' \<and> node_writable d'))"

lemma nodes_step_refl [simp]: "nodes_step ns ns"
  by (simp add: nodes_step_def)

lemma nodes_step_trans: "nodes_step ns ns' \<Longrightarrow> nodes_step ns' ns'' \<Longrightarrow> nodes_step ns ns''"
  unfolding nodes_step_def by (metis option.inject)

section \<open>A round of the balancer\<close>

text \<open>A well-placed store small enough for the protocol, whose keys and boundaries are all in \<open>B\<close>.\<close>

definition small_store :: "str set \<Rightarrow> tablet list \<Rightarrow> (u32 \<Rightarrow> raft_node option) \<Rightarrow> bool" where
  "small_store B ts ns \<longleftrightarrow> placed ts ns \<and> map_fits (store_map ts ns)
     \<and> (\<forall>b \<in> boundaries ts. length b < 2 ^ 16) \<and> boundaries ts \<union> dom (store_map ts ns) \<subseteq> B"

context cluster_rpc
begin

text \<open>The splits of a round cut at keys that some node has.\<close>

lemma split_loop_boundaries:
  assumes "split_loop env i n w = Some r" "ready w" "owners_fit (nodes w) (tablets n)"
    and "boundaries (tablets n) \<union> held_keys (nodes w) \<subseteq> names"
  shows "boundaries (tablets (fst r)) \<subseteq> boundaries (tablets n) \<union> held_keys (nodes w)"
  using assms
proof (induction rule: split_loop_induct)
  case (split i n w ok n' w' r)
  from split.prems(1) split(1) split.prems(2,3) show ?case
  proof (cases rule: TrySplitTablet_halves)
    case (unsplit w1)
    with split(3,4) split.prems show ?thesis by simp
  next
    case halves: (split n1 w1 lt rt)
    have step: "boundaries (tablets n1) \<subseteq> boundaries (tablets n) \<union> held_keys (nodes w)"
      using boundaries_split [OF split(1) halves(4,10,11,12)] halves(13) by simp
    then have "boundaries (tablets n1) \<union> held_keys (nodes w) \<subseteq> names" using split.prems(3) by blast
    with halves split(3,4) have "boundaries (tablets (fst r)) \<subseteq> boundaries (tablets n1) \<union> held_keys (nodes w)" by simp
    with step show ?thesis by blast
  qed
qed auto

text \<open>A balancing step, a round and any number of rounds keep such a store.\<close>

lemma DoLoadBalance_ok:
  assumes "ready w" "small_store names (tablets n) (nodes w)"
  shows "\<exists>ok n' w'. DoLoadBalance env n w = Some (ok, n', w') \<and> ready w'
    \<and> placed (tablets n') (nodes w') \<and> store_map (tablets n') (nodes w') = store_map (tablets n) (nodes w)
    \<and> boundaries (tablets n') = boundaries (tablets n) \<and> nodes_step (nodes w) (nodes w')
    \<and> (n' = n \<and> balanced (tablets n) \<or> (\<exists>idx dst. balance_target (tablets n) idx dst
         \<and> tablets n' = (tablets n)[idx := (tablets n ! idx)\<lparr>node_id := dst\<rparr>]))"
proof (cases rule: DoLoadBalance_target [of env n w])
  case idle
  with assms show ?thesis by (auto simp: small_store_def)
next
  case (tried idx dst)
  let ?t = "tablets n ! idx"
  have idx: "idx < length (tablets n)" and dst: "dst \<in> node_id ` set (tablets n)" "dst \<noteq> node_id ?t"
    using tried(1) by (auto simp: balance_target_def)
  have pl: "placed (tablets n) (nodes w)" using assms(2) by (simp add: small_store_def)
  then have part: "tablets_partition (tablets n)" by (simp add: placed_def)
  obtain a b where ab: "nodes w (node_id ?t) = Some a" "nodes w dst = Some b"
    "data_node a" "data_node b" "node_writable a" "node_writable b"
    using pl idx dst(1) unfolding placed_def by (metis imageE nth_mem)
  have "owners_fit (nodes w) (tablets n)" and named: "boundaries (tablets n) \<subseteq> names"
    using placed_owners_fit assms(2) by (simp_all add: small_store_def)
  then have fits: "range_fits a (start_key ?t) (end_key ?t)"
    using idx ab(1) unfolding owners_fit_def by (metis nth_mem option.inject)
  from MigrateTablet_ok [OF assms(1) idx refl dst(2) ab(1-4) fits named] obtain w' a' b' where m:
    "MigrateTablet env idx dst n w
      = Some (True, n\<lparr>tablets := (tablets n)[idx := ?t\<lparr>node_id := dst\<rparr>], epoch := epoch n + 1\<rparr>, w')"
    "ready w'" "nodes w' = (nodes w)(node_id ?t \<mapsto> a', dst \<mapsto> b')" "data_node a'" "data_node b'"
    "node_writable a' = node_writable a" "node_writable b' = node_writable b"
    "node_get b' = moved_pairs a b (start_key ?t) (end_key ?t)"
    "\<forall>k. node_get a' k = (if owns ?t k \<and> node_writable a then None else node_get a k)" by blast
  let ?ts = "(tablets n)[idx := ?t\<lparr>node_id := dst\<rparr>]"
  let ?n = "n\<lparr>tablets := ?ts, epoch := epoch n + 1\<rparr>"
  have placed: "placed ?ts (nodes w')"
    using placed_moved [OF pl idx refl dst(2) ab(1-3,5,6) m(3,4) _ m(5) _ m(8,9)] m(6,7) ab(5,6) by simp
  have none: "node_get b k = None" if "owns ?t k" for k
    using pl ab(2) that idx dst(2) unfolding placed_def by (metis nth_mem)
  have "cluster_get ?n (nodes w') k = cluster_get n (nodes w) k" for k
    using cluster_get_moved [OF part idx refl dst(2) ab(1-3) m(3,8,9), of ?n k] none [of k] ab(6)
    by (cases "cluster_get n (nodes w) k") simp_all
  then have map: "store_map ?ts (nodes w') = store_map (tablets n) (nodes w)"
    using cluster_get_store_map [OF part] cluster_get_store_map [of ?n "nodes w'"] placed
    by (auto simp: fun_eq_iff placed_def)
  have "nodes_step (nodes w) (nodes w')"
    using ab m(3-7) by (simp add: nodes_step_def)
  with m(1,2) placed map boundaries_moved [OF idx] show ?thesis
    using tried(1) unfolding tried(2) by auto
qed

text \<open>The first two parts of a round: statistics and splits.\<close>

lemma round_parts:
  assumes "ready w" "small_store names (tablets n) (nodes w)"
  obtains ts w1 n2 w2 where "SyncAllTabletStats env (tablets n) w = Some (ts, w1)" "ready w1" "nodes w1 = nodes w"
    "list_all2 same_ranges (tablets n) ts" "\<forall>u \<in> set ts. unat (key_count u) = live_count (nodes w) u"
    "small_store names ts (nodes w)" "store_map ts (nodes w) = store_map (tablets n) (nodes w)" "owners_fit (nodes w) ts"
    "split_loop env 0 (n\<lparr>tablets := ts\<rparr>) w1 = Some (n2, w2)" "ready w2" "nodes w2 = nodes w"
    "small_store names (tablets n2) (nodes w)" "store_map (tablets n2) (nodes w) = store_map (tablets n) (nodes w)"
    "boundaries (tablets n2) \<subseteq> boundaries (tablets n) \<union> dom (store_map (tablets n) (nodes w))"
proof -
  let ?M = "store_map (tablets n) (nodes w)"
  have pl: "placed (tablets n) (nodes w)" "map_fits ?M" "\<forall>b \<in> boundaries (tablets n). length b < 2 ^ 16"
    and named: "boundaries (tablets n) \<union> dom ?M \<subseteq> names"
    using assms(2) by (simp_all add: small_store_def)
  note fit0 = placed_owners_fit [OF pl]
  from SyncAllTabletStats_ok [OF assms(1) fit0] obtain ts w1 where s:
    "SyncAllTabletStats env (tablets n) w = Some (ts, w1)" "ready w1" "nodes w1 = nodes w"
    "list_all2 same_ranges (tablets n) ts" "\<forall>u \<in> set ts. unat (key_count u) = live_count (nodes w) u" by blast
  have part: "tablets_partition ts"
    using sync_step [OF s(1)] pl(1) by (simp add: table_step_def placed_def)
  note pl1 = placed_refines [OF pl(1) table_refines_sync [OF s(4)] part]
  have small1: "small_store names ts (nodes w)"
    using pl1 pl(2,3) named boundaries_sync [OF s(4)] by (simp add: small_store_def)
  have fit: "owners_fit (nodes w) ts" by (rule owners_fit_sync [OF s(4) fit0])
  then have fit1: "owners_fit (nodes w1) (tablets (n\<lparr>tablets := ts\<rparr>))" using s(3) by simp
  have named1: "boundaries (tablets (n\<lparr>tablets := ts\<rparr>)) \<union> held_keys (nodes w1) \<subseteq> names"
    using named s(3) boundaries_sync [OF s(4)] held_keys_dom [OF pl(1)] by simp
  from split_loop_ends [OF s(2) fit1 named1, of 0] s(3) obtain n2 w2 where l:
    "split_loop env 0 (n\<lparr>tablets := ts\<rparr>) w1 = Some (n2, w2)" "ready w2" "nodes w2 = nodes w" by auto
  have ref: "table_refines ts (tablets n2)" using split_loop_refines [OF l(1)] by simp
  have "tablets_partition (tablets n2)"
    using split_loop_step [OF l(1)] part by (simp add: table_step_def)
  note pl2 = placed_refines [OF pl1(1) ref this]
  have b2: "boundaries (tablets n2) \<subseteq> boundaries (tablets n) \<union> dom ?M"
    using split_loop_boundaries [OF l(1) s(2) fit1 named1] s(3) boundaries_sync [OF s(4)] held_keys_dom [OF pl(1)]
    by simp
  have "\<forall>b \<in> boundaries (tablets n2). length b < 2 ^ 16"
    using b2 pl(3) map_fits_key [OF pl(2)] by blast
  moreover have "boundaries (tablets n2) \<union> dom ?M \<subseteq> names" using b2 named by blast
  ultimately have "small_store names (tablets n2) (nodes w)"
    using pl2 pl1(2) pl(2) by (simp add: small_store_def)
  with that s small1 pl1(2) fit l pl2(2) b2 show thesis by simp
qed

lemma balancer_round_ok:
  assumes "ready w" "small_store names (tablets n) (nodes w)"
  shows "\<exists>n' w'. balancer_round env n w = Some (n', w') \<and> ready w'
    \<and> placed (tablets n') (nodes w') \<and> store_map (tablets n') (nodes w') = store_map (tablets n) (nodes w)
    \<and> boundaries (tablets n') \<subseteq> boundaries (tablets n) \<union> dom (store_map (tablets n) (nodes w))
    \<and> nodes_step (nodes w) (nodes w')"
  using assms
proof (rule round_parts)
  fix ts w1 n2 w2
  assume parts: "SyncAllTabletStats env (tablets n) w = Some (ts, w1)"
      "split_loop env 0 (n\<lparr>tablets := ts\<rparr>) w1 = Some (n2, w2)" "ready w2" "nodes w2 = nodes w"
    and small: "small_store names (tablets n2) (nodes w)" "store_map (tablets n2) (nodes w) = store_map (tablets n) (nodes w)"
      "boundaries (tablets n2) \<subseteq> boundaries (tablets n) \<union> dom (store_map (tablets n) (nodes w))"
  from DoLoadBalance_ok [OF parts(3), of n2] small(1) parts(4) obtain ok n' w' where d:
    "DoLoadBalance env n2 w2 = Some (ok, n', w')" "ready w'" "placed (tablets n') (nodes w')"
    "store_map (tablets n') (nodes w') = store_map (tablets n2) (nodes w)" "boundaries (tablets n') = boundaries (tablets n2)"
    "nodes_step (nodes w) (nodes w')" by auto
  with parts(1,2) small(2,3) show ?thesis by (simp add: balancer_round_def)
qed

lemma BalancerLoop_ok:
  assumes "ready w" "small_store names (tablets n) (nodes w)"
  shows "\<exists>n' w'. BalancerLoop env rounds n w = Some (n', w') \<and> ready w'
    \<and> small_store names (tablets n') (nodes w') \<and> store_map (tablets n') (nodes w') = store_map (tablets n) (nodes w)
    \<and> boundaries (tablets n') \<subseteq> boundaries (tablets n) \<union> dom (store_map (tablets n) (nodes w))
    \<and> nodes_step (nodes w) (nodes w')"
  using assms
proof (induction rounds arbitrary: n w)
  case (Suc rounds)
  let ?M = "store_map (tablets n) (nodes w)"
  from balancer_round_ok [OF Suc.prems] obtain n1 w1 where r: "balancer_round env n w = Some (n1, w1)"
    "ready w1" "placed (tablets n1) (nodes w1)" "store_map (tablets n1) (nodes w1) = ?M"
    "boundaries (tablets n1) \<subseteq> boundaries (tablets n) \<union> dom ?M" "nodes_step (nodes w) (nodes w1)"
    by blast
  have fits: "map_fits ?M" "\<forall>b \<in> boundaries (tablets n). length b < 2 ^ 16"
    "boundaries (tablets n) \<union> dom ?M \<subseteq> names"
    using Suc.prems(2) by (simp_all add: small_store_def)
  then have "\<forall>b \<in> boundaries (tablets n1). length b < 2 ^ 16" "boundaries (tablets n1) \<union> dom ?M \<subseteq> names"
    using r(5) map_fits_key [OF fits(1)] by blast+
  then have "small_store names (tablets n1) (nodes w1)"
    using r(3,4) fits(1) by (simp add: small_store_def)
  from Suc.IH [OF r(2) this] obtain n' w' where l: "BalancerLoop env rounds n1 w1 = Some (n', w')" "ready w'"
    "small_store names (tablets n') (nodes w')" "store_map (tablets n') (nodes w') = ?M"
    "boundaries (tablets n') \<subseteq> boundaries (tablets n1) \<union> dom ?M" "nodes_step (nodes w1) (nodes w')"
    using r(4) by auto
  with r(1,5) nodes_step_trans [OF r(6) l(6)] show ?case by auto
qed auto

end

end
