(* ===== verification/Convergence.thy ===== *)
theory Convergence
  imports Placement
begin

text \<open>
  Where the rounds of the balancer lead to. While no client writes, every round either cuts a large
  tablet, or moves a small one to a node with fewer keys, or finds nothing to do. The first makes
  the sum of the squares of the tablets' sizes smaller, the second the sum of the squares of the
  nodes' loads, so that sooner or later only the third is left.
\<close>

section \<open>Keys of a tablet and of a node\<close>

definition keys_in :: "(str \<Rightarrow> str option) \<Rightarrow> tablet \<Rightarrow> nat" where
  "keys_in M t = card {k \<in> dom M. owns t k}"

definition keys_at :: "(str \<Rightarrow> str option) \<Rightarrow> tablet list \<Rightarrow> u32 \<Rightarrow> nat" where
  "keys_at M ts i = sum_list (map (keys_in M) (filter (\<lambda>t. node_id t = i) ts))"

definition counted :: "(str \<Rightarrow> str option) \<Rightarrow> tablet list \<Rightarrow> bool" where
  "counted M ts \<longleftrightarrow> (\<forall>t \<in> set ts. unat (key_count t) = keys_in M t)"

text \<open>A table that leaves the balancer nothing to do: every tablet is small, and the loads of the nodes
  differ by less than the threshold.\<close>

definition settled :: "(str \<Rightarrow> str option) \<Rightarrow> tablet list \<Rightarrow> bool" where
  "settled M ts \<longleftrightarrow> (\<forall>t \<in> set ts. keys_in M t < 6)
     \<and> (\<forall>t \<in> set ts. \<forall>u \<in> set ts. keys_at M ts (node_id t) < keys_at M ts (node_id u) + 7)"

definition cut_work :: "(str \<Rightarrow> str option) \<Rightarrow> tablet list \<Rightarrow> nat" where
  "cut_work M ts = sum_list (map (\<lambda>t. (keys_in M t)\<^sup>2) ts)"

definition spread :: "(str \<Rightarrow> str option) \<Rightarrow> tablet list \<Rightarrow> nat" where
  "spread M ts = (\<Sum>i \<in> UNIV. (keys_at M ts i)\<^sup>2)"

lemma live_count_keys_in:
  assumes "placed ts ns" "t \<in> set ts"
  shows "live_count ns t = keys_in (store_map ts ns) t"
proof -
  obtain d where d: "ns (node_id t) = Some d" "data_node d" using assms unfolding placed_def by blast
  let ?ps = "node_pairs d (start_key t) (end_key t)"
  have inv: "node_inv d" using d(2) by (simp add: data_node_def)
  have part: "tablets_partition ts" using assms(1) by (simp add: placed_def)
  have "store_map ts ns k = node_get d k" if "owns t k" for k
    by (rule store_map_owner [where ns = ns, OF part assms(2) that d(1)])
  then have "{k \<in> dom (store_map ts ns). owns t k} = dom (map_of ?ps)"
    by (auto simp: dom_def node_pairs_map [OF inv])
  also have "\<dots> = set (map fst ?ps)" by (simp add: dom_map_of_conv_image_fst)
  finally have "keys_in (store_map ts ns) t = card (set (map fst ?ps))" by (simp add: keys_in_def)
  also have "\<dots> = length ?ps"
    using node_pairs_sorted [OF inv, of "start_key t" "end_key t"]
    by (simp add: distinct_card strict_sorted_iff del: set_map)
  finally show ?thesis using d(1) by (simp add: live_count_def)
qed

lemma keys_in_map_of:
  assumes "distinct (map fst ps)"
  shows "keys_in (map_of ps) t = length (filter (\<lambda>p. owns t (fst p)) ps)"
proof -
  have "{k \<in> dom (map_of ps). owns t k} = set (map fst (filter (\<lambda>p. owns t (fst p)) ps))"
    by (auto simp: dom_map_of_conv_image_fst)
  moreover have "distinct (map fst (filter (\<lambda>p. owns t (fst p)) ps))"
    using assms by (rule distinct_map_filter)
  ultimately show ?thesis by (simp add: keys_in_def distinct_card del: set_map)
qed

lemma keys_in_cong:
  "start_key u = start_key t \<Longrightarrow> end_key u = end_key t \<Longrightarrow> keys_in M u = keys_in M t"
  by (simp add: keys_in_def)

lemma keys_at_Nil [simp]: "keys_at M [] i = 0"
  by (simp add: keys_at_def)

lemma keys_at_append [simp]: "keys_at M (ts @ us) i = keys_at M ts i + keys_at M us i"
  by (simp add: keys_at_def)

lemma keys_at_Cons [simp]: "keys_at M (t # ts) i = (if node_id t = i then keys_in M t else 0) + keys_at M ts i"
  by (simp add: keys_at_def)

lemma cut_work_append [simp]: "cut_work M (ts @ us) = cut_work M ts + cut_work M us"
  by (simp add: cut_work_def)

lemma cut_work_Cons [simp]: "cut_work M (t # ts) = (keys_in M t)\<^sup>2 + cut_work M ts"
  by (simp add: cut_work_def)

lemma keys_at_member: "t \<in> set ts \<Longrightarrow> keys_in M t \<le> keys_at M ts (node_id t)"
  by (induction ts) auto

lemma keys_at_total: "keys_at M ts i \<le> sum_list (map (keys_in M) ts)"
  by (induction ts) (auto simp: keys_at_def)

lemma keys_same_ranges: "same_ranges t u \<Longrightarrow> keys_in M u = keys_in M t \<and> node_id u = node_id t"
  using same_ranges_fields [of t u] keys_in_cong [of u t M] by simp

text \<open>The sizes depend on the ranges of the tablets and their nodes only.\<close>

lemma same_ranges_refl [simp]: "same_ranges t t"
  by (simp add: same_ranges_def)

lemma same_ranges_trans: "same_ranges t u \<Longrightarrow> same_ranges u v \<Longrightarrow> same_ranges t v"
  by (cases t; cases u; cases v) (simp add: same_ranges_def)

lemma settled_images:
  "settled M ts \<longleftrightarrow> (\<forall>c \<in> keys_in M ` set ts. c < 6)
     \<and> (\<forall>i \<in> node_id ` set ts. \<forall>j \<in> node_id ` set ts. keys_at M ts i < keys_at M ts j + 7)"
  by (simp add: settled_def)

lemma sizes_same_ranges:
  assumes "list_all2 same_ranges ts us"
  shows "keys_at M us = keys_at M ts" "cut_work M us = cut_work M ts" "settled M us = settled M ts"
    and "(\<forall>t \<in> set us. P (keys_in M t) (node_id t)) = (\<forall>t \<in> set ts. P (keys_in M t) (node_id t))"
proof -
  show "(\<forall>t \<in> set us. P (keys_in M t) (node_id t)) = (\<forall>t \<in> set ts. P (keys_in M t) (node_id t))"
    using assms by (induction rule: list_all2_induct) (simp_all add: keys_same_ranges)
  have "map node_id us = map node_id ts \<and> map (keys_in M) us = map (keys_in M) ts
      \<and> keys_at M us = keys_at M ts \<and> cut_work M us = cut_work M ts"
    using assms
  proof (induction rule: list_all2_induct)
    case (Cons t ts u us)
    with same_ranges_fields [OF Cons(1)] keys_in_cong [of u t M] show ?case
      by (auto simp: fun_eq_iff)
  qed simp
  then show k: "keys_at M us = keys_at M ts" and "cut_work M us = cut_work M ts" by simp_all
  have "node_id ` set us = node_id ` set ts" "keys_in M ` set us = keys_in M ` set ts"
    using \<open>map node_id us = _ \<and> _\<close> by (simp_all flip: set_map)
  then show "settled M us = settled M ts" by (simp only: settled_images k)
qed

text \<open>All tablets together have no more keys than the map, so that the sums of the code do not overflow.\<close>

lemma total_keys:
  assumes "tablets_partition ts" "finite (dom M)"
  shows "sum_list (map (keys_in M) ts) \<le> card (dom M)"
proof -
  have "distinct (map start_key ts)" using partitions_sorted [OF assms(1)] by (simp add: strict_sorted_iff)
  then have "sum_list (map (keys_in M) ts) = (\<Sum>t \<in> set ts. card {k \<in> dom M. owns t k})"
    by (simp add: distinct_map sum_list_distinct_conv_sum_set keys_in_def)
  also have "\<dots> = card (\<Union>t \<in> set ts. {k \<in> dom M. owns t k})"
    by (rule card_UN_disjoint [symmetric]) (use assms partitions_unique [OF assms(1)] in auto)
  also have "\<dots> \<le> card (dom M)" by (rule card_mono) (use assms(2) in auto)
  finally show ?thesis .
qed

lemma map_fits_card:
  assumes "map_fits M"
  shows "card (dom M) < 2 ^ 32"
proof -
  have "card (dom M) = (\<Sum>k \<in> dom M. 1)" by simp
  also have "\<dots> \<le> map_bytes M" unfolding map_bytes_def by (rule sum_mono) simp
  finally show ?thesis using assms by (simp add: map_fits_def)
qed

lemma load_of_keys:
  assumes "counted M ts" "sum_list (map (keys_in M) ts) < 2 ^ 64"
  shows "unat (load_of ts i) = keys_at M ts i"
  using assms
proof (induction ts)
  case (Cons t ts)
  then have IH: "unat (load_of ts i) = keys_at M ts i" and c: "unat (key_count t) = keys_in M t"
    by (simp_all add: counted_def)
  have "keys_in M t + keys_at M ts i < 2 ^ 64"
    using Cons.prems(2) keys_at_total [of M ts i] by simp
  then have "unat (key_count t + load_of ts i) = keys_in M t + keys_at M ts i"
    by (simp add: unat_word_ariths IH c)
  then show ?case using IH by (simp add: load_of_def)
qed (simp add: load_of_def keys_at_def)

section \<open>Cutting and moving\<close>

text \<open>A cut into two parts that both have keys lowers the work that is left.\<close>

lemma cut_sizes:
  assumes "idx < length ts" "us = take idx ts @ l # r # drop (idx + 1) ts"
    and "node_id l = node_id (ts ! idx)" "node_id r = node_id (ts ! idx)"
    and "keys_in M l + keys_in M r = keys_in M (ts ! idx)"
  shows "keys_at M us = keys_at M ts"
    and "0 < keys_in M l \<Longrightarrow> 0 < keys_in M r \<Longrightarrow> cut_work M us < cut_work M ts"
proof -
  have ts: "ts = take idx ts @ ts ! idx # drop (idx + 1) ts"
    using assms(1) by (simp add: id_take_nth_drop)
  show "keys_at M us = keys_at M ts"
    by (subst ts) (use assms(3-5) in \<open>simp add: assms(2) fun_eq_iff\<close>)
  assume "0 < keys_in M l" "0 < keys_in M r"
  then have "(keys_in M l)\<^sup>2 + (keys_in M r)\<^sup>2 < (keys_in M (ts ! idx))\<^sup>2"
    unfolding assms(5) [symmetric] by (simp add: power2_eq_square algebra_simps)
  then show "cut_work M us < cut_work M ts"
    by (subst ts) (simp add: assms(2))
qed

lemma sum_two:
  fixes f :: "u32 \<Rightarrow> nat"
  assumes "i \<noteq> j"
  shows "sum f UNIV = f i + (f j + sum f (UNIV - {i} - {j}))"
  using assms by (simp add: sum.remove [of UNIV i] sum.remove [of "UNIV - {i}" j])

text \<open>A move that does not turn the order of the two nodes' loads around lowers the spread, and no cut
  is to be made again.\<close>

lemma move_sizes:
  assumes "idx < length ts" "t = ts ! idx" "dst \<noteq> node_id t"
    and "us = ts[idx := t\<lparr>node_id := dst\<rparr>]"
  shows "cut_work M us = cut_work M ts"
    and "0 < keys_in M t \<Longrightarrow> keys_at M ts dst + keys_in M t < keys_at M ts (node_id t) \<Longrightarrow>
      spread M us < spread M ts"
proof -
  let ?c = "keys_in M t" and ?src = "node_id t" and ?f = "keys_at M ts" and ?g = "keys_at M us"
  have ts: "ts = take idx ts @ t # drop (idx + 1) ts"
    using assms(1,2) by (simp add: id_take_nth_drop)
  have us: "us = take idx ts @ t\<lparr>node_id := dst\<rparr> # drop (idx + 1) ts"
    using assms(1,4) by (simp add: upd_conv_take_nth_drop)
  have c: "keys_in M (t\<lparr>node_id := j\<rparr>) = ?c" for j by (rule keys_in_cong) simp_all
  show "cut_work M us = cut_work M ts" by (subst ts) (simp add: us c)
  have f: "?f i = keys_at M (take idx ts) i + (if ?src = i then ?c else 0) + keys_at M (drop (idx + 1) ts) i" for i
    by (subst ts) simp
  have g: "?g i = keys_at M (take idx ts) i + (if dst = i then ?c else 0) + keys_at M (drop (idx + 1) ts) i" for i
    by (simp add: us c)
  have others: "?g i = ?f i" if "i \<notin> {?src, dst}" for i using that by (auto simp: f g)
  assume less: "0 < ?c" "?f dst + ?c < ?f ?src"
  obtain e where e: "?f ?src = ?f dst + ?c + e" "0 < e"
    using less(2) by (metis less_imp_add_positive)
  have "?g ?src = ?f dst + e" "?g dst = ?f dst + ?c"
    using e(1) f [of ?src] g [of ?src] f [of dst] g [of dst] assms(3) by simp_all
  then have "(?g ?src)\<^sup>2 + (?g dst)\<^sup>2 < (?f ?src)\<^sup>2 + (?f dst)\<^sup>2"
    using e less(1) by (simp add: power2_eq_square algebra_simps)
  moreover have "(\<Sum>i \<in> UNIV - {?src} - {dst}. (?g i)\<^sup>2) = (\<Sum>i \<in> UNIV - {?src} - {dst}. (?f i)\<^sup>2)"
    by (rule sum.cong) (use others in auto)
  ultimately show "spread M us < spread M ts"
    unfolding spread_def using assms(3) by (simp add: sum_two [of ?src dst])
qed

section \<open>Rounds on a store that nobody writes\<close>

text \<open>A balancing step when the counts are right and no tablet is large.\<close>

lemma balance_target_sizes:
  assumes "balance_target ts idx dst" "counted M ts" "sum_list (map (keys_in M) ts) < 2 ^ 64"
  shows "0 < keys_in M (ts ! idx)" "keys_at M ts dst + 7 \<le> keys_at M ts (node_id (ts ! idx))"
proof -
  note load = load_of_keys [OF assms(2,3)]
  have t: "ts ! idx \<in> set ts" "0 < key_count (ts ! idx)"
    "load_of ts dst < load_of ts (node_id (ts ! idx))" "7 \<le> load_of ts (node_id (ts ! idx)) - load_of ts dst"
    using assms(1) by (simp_all add: balance_target_def)
  have "unat (key_count (ts ! idx)) = keys_in M (ts ! idx)"
    using assms(2) t(1) by (simp add: counted_def)
  with t(2) show "0 < keys_in M (ts ! idx)" by (simp add: word_less_nat_alt)
  show "keys_at M ts dst + 7 \<le> keys_at M ts (node_id (ts ! idx))"
    using t(3,4) load by (simp add: word_less_nat_alt word_le_nat_alt unat_sub_if')
qed

lemma target_same_ranges:
  assumes "list_all2 same_ranges ts us" "balance_target us idx dst" "counted M us" "sum_list (map (keys_in M) us) < 2 ^ 64"
  shows "idx < length ts \<and> dst \<in> node_id ` set ts \<and> keys_at M ts dst + 7 \<le> keys_at M ts (node_id (ts ! idx))
    \<and> (\<forall>t \<in> set ts. node_id t = node_id (ts ! idx) \<longrightarrow> keys_in M t \<le> keys_in M (ts ! idx))
    \<and> list_all2 same_ranges (ts[idx := (ts ! idx)\<lparr>node_id := dst\<rparr>]) (us[idx := (us ! idx)\<lparr>node_id := dst\<rparr>])"
proof -
  note same = sizes_same_ranges [OF assms(1), where M = M]
  have us: "idx < length us" "dst \<in> node_id ` set us"
    "\<forall>u \<in> set us. node_id u = node_id (us ! idx) \<longrightarrow> key_count u \<le> key_count (us ! idx)"
    using assms(2) by (simp_all add: balance_target_def)
  then have idx: "idx < length ts" using assms(1) by (simp add: list_all2_lengthD)
  note at = list_all2_nthD [OF assms(1) idx]
  have "\<forall>u \<in> set us. node_id u = node_id (us ! idx) \<longrightarrow> keys_in M u \<le> keys_in M (us ! idx)"
    using us(1,3) assms(3) by (simp add: counted_def word_le_nat_alt)
  then have largest: "\<forall>t \<in> set ts. node_id t = node_id (ts ! idx) \<longrightarrow> keys_in M t \<le> keys_in M (ts ! idx)"
    using same(4) [of "\<lambda>c i. i = node_id (us ! idx) \<longrightarrow> c \<le> keys_in M (us ! idx)"] keys_same_ranges [OF at, of M] by simp
  have "node_id ` set us = node_id ` set ts"
    using list_all2_same_ranges [OF assms(1)] by (metis set_map)
  moreover have "same_ranges ((ts ! idx)\<lparr>node_id := dst\<rparr>) ((us ! idx)\<lparr>node_id := dst\<rparr>)"
    using at by (cases "ts ! idx"; cases "us ! idx") (simp add: same_ranges_def)
  then have "list_all2 same_ranges (ts[idx := (ts ! idx)\<lparr>node_id := dst\<rparr>]) (us[idx := (us ! idx)\<lparr>node_id := dst\<rparr>])"
    by (rule list_all2_update_cong [OF assms(1)])
  ultimately show ?thesis
    using idx us(2) balance_target_sizes(2) [OF assms(2-4)] keys_same_ranges [OF at, of M] largest same(1) by simp
qed

lemma balanced_sizes:
  assumes "counted M ts" "sum_list (map (keys_in M) ts) < 2 ^ 64" "balanced ts" "\<forall>t \<in> set ts. keys_in M t < 6"
  shows "settled M ts"
  using assms(3,4) by (simp add: balanced_def settled_def load_of_keys [OF assms(1,2)])

context cluster_rpc
begin

lemma split_sizes:
  assumes "ready w" "i < length (tablets n)" "owners_fit (nodes w) (tablets n)"
    and "placed (tablets n) (nodes w)" "store_map (tablets n) (nodes w) = M" "counted M (tablets n)"
    and "SPLIT_THRESHOLD \<le> key_count (tablets n ! i)" "boundaries (tablets n) \<union> dom M \<subseteq> names"
  obtains n' w' where "TrySplitTablet env i n w = Some (True, n', w')" "ready w'" "nodes w' = nodes w"
    "owners_fit (nodes w) (tablets n')" "placed (tablets n') (nodes w)" "store_map (tablets n') (nodes w) = M"
    "counted M (tablets n')" "keys_at M (tablets n') = keys_at M (tablets n)"
    "cut_work M (tablets n') < cut_work M (tablets n)" "6 \<le> keys_in M (tablets n ! i)"
    "boundaries (tablets n') \<union> dom M \<subseteq> names"
proof -
  let ?t = "tablets n ! i"
  have t: "?t \<in> set (tablets n)" using assms(2) by simp
  have kt: "unat (key_count ?t) = keys_in M ?t" using assms(6) t by (simp add: counted_def)
  then have six: "6 \<le> keys_in M ?t" using assms(7) by (simp add: SPLIT_THRESHOLD_def word_le_nat_alt)
  have live: "live_count (nodes w) ?t = keys_in M ?t"
    using live_count_keys_in [OF assms(4) t] assms(5) by simp
  have held: "held_keys (nodes w) = dom M" using held_keys_dom [OF assms(4)] assms(5) by simp
  from assms(1-3) assms(8) [folded held] show thesis
  proof (cases rule: TrySplitTablet_halves)
    case (unsplit w')
    with assms(7) live six show thesis by (simp add: not_less [symmetric])
  next
    case (split n' w' l r)
    have part: "tablets_partition (tablets n')"
      using split_step [OF split(1)] assms(4) by (simp add: table_step_def placed_def)
    note pl = placed_refines [OF assms(4) split_refines [OF split(1)] part]
    have M: "store_map (tablets n') (nodes w) = M" using pl(2) assms(5) by simp
    have lr: "l \<in> set (tablets n')" "r \<in> set (tablets n')" using split(4) by simp_all
    have size: "live_count (nodes w) l = keys_in M l" "live_count (nodes w) r = keys_in M r"
      using live_count_keys_in [OF pl(1)] lr M by simp_all
    have "counted M (tablets n')"
      using assms(6) split(4,6,7) size by (auto simp: counted_def dest: in_set_takeD in_set_dropD)
    moreover have "keys_in M l + keys_in M r = keys_in M ?t" "0 < keys_in M l" "0 < keys_in M r"
      using split(8,9) size live six by simp_all
    with cut_sizes [OF assms(2) split(4,14,15), of M] have "keys_at M (tablets n') = keys_at M (tablets n)"
      "cut_work M (tablets n') < cut_work M (tablets n)" by simp_all
    moreover have "boundaries (tablets n') \<union> dom M \<subseteq> names"
      using boundaries_split [OF assms(2) split(4,10-12)] split(13) assms(8) held by auto
    ultimately show thesis using that split(1-3,5) pl(1) M six by blast
  qed
qed

lemma split_loop_sizes:
  assumes "split_loop env i n w = Some r" "ready w" "owners_fit (nodes w) (tablets n)"
    and "placed (tablets n) (nodes w)" "store_map (tablets n) (nodes w) = M" "counted M (tablets n)"
    and "boundaries (tablets n) \<union> dom M \<subseteq> names"
  shows "counted M (tablets (fst r)) \<and> keys_at M (tablets (fst r)) = keys_at M (tablets n)
    \<and> (tablets (fst r) = tablets n \<and> (\<forall>t \<in> set (drop i (tablets n)). keys_in M t < 6)
       \<or> cut_work M (tablets (fst r)) < cut_work M (tablets n) \<and> (\<exists>t \<in> set (tablets n). 6 \<le> keys_in M t))"
  using assms
proof (induction rule: split_loop_induct)
  case (skip i n w r)
  have "unat (key_count (tablets n ! i)) = keys_in M (tablets n ! i)"
    using skip.prems(5) skip(1) by (simp add: counted_def)
  then have "keys_in M (tablets n ! i) < 6"
    using skip(2) by (simp add: SPLIT_THRESHOLD_def word_le_nat_alt)
  then show ?case
    using skip.IH [OF skip.prems] Cons_nth_drop_Suc [OF skip(1)] by (metis Suc_eq_plus1 set_ConsD)
next
  case (split i n w ok n' w' r)
  from split.prems(1) split(1) split.prems(2-5) split(2) split.prems(6) obtain n1 w1 where s:
    "TrySplitTablet env i n w = Some (True, n1, w1)" "ready w1" "nodes w1 = nodes w"
    "owners_fit (nodes w) (tablets n1)" "placed (tablets n1) (nodes w)" "store_map (tablets n1) (nodes w) = M"
    "counted M (tablets n1)" "keys_at M (tablets n1) = keys_at M (tablets n)"
    "cut_work M (tablets n1) < cut_work M (tablets n)" "6 \<le> keys_in M (tablets n ! i)"
    "boundaries (tablets n1) \<union> dom M \<subseteq> names" by (rule split_sizes)
  then have IH: "counted M (tablets (fst r)) \<and> keys_at M (tablets (fst r)) = keys_at M (tablets n1)
    \<and> (tablets (fst r) = tablets n1 \<and> (\<forall>t \<in> set (drop (i + 1) (tablets n1)). keys_in M t < 6)
       \<or> cut_work M (tablets (fst r)) < cut_work M (tablets n1) \<and> (\<exists>t \<in> set (tablets n1). 6 \<le> keys_in M t))"
    using split.IH split(3) by simp
  then have "cut_work M (tablets (fst r)) \<le> cut_work M (tablets n1)" by auto
  with IH s(8-10) split(1) show ?case by (metis le_less_trans nth_mem)
qed auto

text \<open>A balancing step finds nothing to do, or makes progress. It may be that a tablet is still large.\<close>

lemma DoLoadBalance_sizes:
  assumes "ready w" "small_store names (tablets n) (nodes w)" "store_map (tablets n) (nodes w) = M" "counted M (tablets n)"
    and "DoLoadBalance env n w = Some (ok, n', w')"
  shows "cut_work M (tablets n') = cut_work M (tablets n)"
    and "\<forall>t \<in> set (tablets n). keys_in M t < 6 \<Longrightarrow>
      n' = n \<and> settled M (tablets n) \<or> \<not> settled M (tablets n) \<and> spread M (tablets n') < spread M (tablets n)"
proof -
  have pl: "placed (tablets n) (nodes w)" "map_fits M" using assms(2,3) by (simp_all add: small_store_def)
  then have "tablets_partition (tablets n)" "finite (dom M)" by (simp_all add: placed_def map_fits_def)
  then have total: "sum_list (map (keys_in M) (tablets n)) < 2 ^ 64"
    using total_keys [of "tablets n" M] map_fits_card [OF pl(2)] by simp
  from DoLoadBalance_ok [OF assms(1,2)] assms(5) consider "n' = n" "balanced (tablets n)"
    | idx dst where "balance_target (tablets n) idx dst"
      "tablets n' = (tablets n)[idx := (tablets n ! idx)\<lparr>node_id := dst\<rparr>]" by auto
  then have "cut_work M (tablets n') = cut_work M (tablets n) \<and>
    ((\<forall>t \<in> set (tablets n). keys_in M t < 6) \<longrightarrow>
      n' = n \<and> settled M (tablets n) \<or> \<not> settled M (tablets n) \<and> spread M (tablets n') < spread M (tablets n))"
  proof cases
    case 1
    with balanced_sizes [OF assms(4) total] show ?thesis by simp
  next
    case (2 idx dst)
    let ?t = "tablets n ! idx"
    note size = balance_target_sizes [OF 2(1) assms(4) total]
    have idx: "idx < length (tablets n)" "dst \<noteq> node_id ?t" "?t \<in> set (tablets n)"
      and dst: "dst \<in> node_id ` set (tablets n)"
      using 2(1) by (auto simp: balance_target_def)
    note move = move_sizes [OF idx(1) refl idx(2) 2(2), of M]
    have "\<not> settled M (tablets n)"
      using size(2) idx(3) dst by (fastforce simp: settled_def)
    moreover have "spread M (tablets n') < spread M (tablets n)" if "keys_in M ?t < 6"
      using move(2) size that by simp
    ultimately show ?thesis using move(1) idx(3) by blast
  qed
  then show "cut_work M (tablets n') = cut_work M (tablets n)"
    and "\<forall>t \<in> set (tablets n). keys_in M t < 6 \<Longrightarrow>
      n' = n \<and> settled M (tablets n) \<or> \<not> settled M (tablets n) \<and> spread M (tablets n') < spread M (tablets n)"
    by blast+
qed

text \<open>A round leaves a settled table as it is, up to the counts it writes down, and lowers the measure of
  one that is not settled.\<close>

lemma balancer_round_sizes:
  assumes "ready w" "small_store names (tablets n) (nodes w)" "store_map (tablets n) (nodes w) = M"
    and "balancer_round env n w = Some (n', w')"
  shows "settled M (tablets n) \<and> list_all2 same_ranges (tablets n) (tablets n')
    \<or> \<not> settled M (tablets n) \<and> ((cut_work M (tablets n'), spread M (tablets n')),
         (cut_work M (tablets n), spread M (tablets n))) \<in> less_than <*lex*> less_than"
  using assms(1,2)
proof (rule round_parts)
  fix ts w1 n2 w2
  assume s: "SyncAllTabletStats env (tablets n) w = Some (ts, w1)" "ready w1" "nodes w1 = nodes w"
      "list_all2 same_ranges (tablets n) ts" "\<forall>u \<in> set ts. unat (key_count u) = live_count (nodes w) u"
      "small_store names ts (nodes w)" "store_map ts (nodes w) = store_map (tablets n) (nodes w)" "owners_fit (nodes w) ts"
    and l: "split_loop env 0 (n\<lparr>tablets := ts\<rparr>) w1 = Some (n2, w2)" "ready w2" "nodes w2 = nodes w"
      "small_store names (tablets n2) (nodes w)" "store_map (tablets n2) (nodes w) = store_map (tablets n) (nodes w)"
  have placed: "placed ts (nodes w)" using s(6) by (simp add: small_store_def)
  have "counted M ts"
    using s(5,7) live_count_keys_in [OF placed] assms(3) by (simp add: counted_def)
  moreover have "boundaries ts \<union> dom M \<subseteq> names"
    using s(6,7) assms(3) by (simp add: small_store_def)
  moreover note split_loop_sizes [OF l(1) s(2), of M] placed s(3,7,8) assms(3)
  ultimately
  have cut: "counted M (tablets n2)" "keys_at M (tablets n2) = keys_at M ts"
    "tablets n2 = ts \<and> (\<forall>t \<in> set ts. keys_in M t < 6)
      \<or> cut_work M (tablets n2) < cut_work M ts \<and> (\<exists>t \<in> set ts. 6 \<le> keys_in M t)" by simp_all
  obtain ok where d: "DoLoadBalance env n2 w2 = Some (ok, n', w')"
    using assms(4) s(1) l(1) by (auto simp: balancer_round_def split: bind_splits)
  have small: "small_store names (tablets n2) (nodes w2)" "store_map (tablets n2) (nodes w2) = M"
    using l(3-5) assms(3) by simp_all
  note step = DoLoadBalance_sizes [OF l(2) small cut(1) d]
    and same = sizes_same_ranges [OF s(4), where M = M]
  from cut(3) show ?thesis
  proof (elim disjE conjE)
    assume "tablets n2 = ts" "\<forall>t \<in> set ts. keys_in M t < 6"
    with step same s(4) show ?thesis by (auto simp: spread_def)
  next
    assume "cut_work M (tablets n2) < cut_work M ts" "\<exists>t \<in> set ts. 6 \<le> keys_in M t"
    moreover from this(2) have "\<not> settled M ts" by (auto simp: settled_def not_less)
    ultimately show ?thesis using step(1) same by simp
  qed
qed

text \<open>What a round does when it has nothing to cut and the loads differ: the largest tablet of a node
  moves to one that has at least seven keys less.\<close>

lemma small_round:
  assumes "ready w" "small_store names (tablets n) (nodes w)" "store_map (tablets n) (nodes w) = M"
    and "\<forall>t \<in> set (tablets n). keys_in M t < 6" "\<not> settled M (tablets n)"
  shows "\<exists>idx dst n' w'. balancer_round env n w = Some (n', w') \<and> idx < length (tablets n)
    \<and> dst \<in> node_id ` set (tablets n)
    \<and> keys_at M (tablets n) dst + 7 \<le> keys_at M (tablets n) (node_id (tablets n ! idx))
    \<and> (\<forall>t \<in> set (tablets n). node_id t = node_id (tablets n ! idx) \<longrightarrow> keys_in M t \<le> keys_in M (tablets n ! idx))
    \<and> list_all2 same_ranges ((tablets n)[idx := (tablets n ! idx)\<lparr>node_id := dst\<rparr>]) (tablets n')"
  using assms(1,2)
proof (rule round_parts)
  fix ts w1 n2 w2
  assume s: "SyncAllTabletStats env (tablets n) w = Some (ts, w1)" "ready w1" "nodes w1 = nodes w"
      "list_all2 same_ranges (tablets n) ts" "\<forall>u \<in> set ts. unat (key_count u) = live_count (nodes w) u"
      "small_store names ts (nodes w)" "store_map ts (nodes w) = store_map (tablets n) (nodes w)" "owners_fit (nodes w) ts"
    and l: "split_loop env 0 (n\<lparr>tablets := ts\<rparr>) w1 = Some (n2, w2)" "ready w2" "nodes w2 = nodes w"
      "small_store names (tablets n2) (nodes w)"
  have placed: "placed ts (nodes w)" "map_fits M" and named: "boundaries ts \<union> dom M \<subseteq> names"
    using s(6,7) assms(3) by (simp_all add: small_store_def)
  have counted: "counted M ts"
    using s(5,7) live_count_keys_in [OF placed(1)] assms(3) by (simp add: counted_def)
  have total: "sum_list (map (keys_in M) ts) < 2 ^ 64"
    using total_keys [of ts M] map_fits_card [OF placed(2)] placed by (simp add: placed_def map_fits_def)
  have "\<forall>t \<in> set ts. keys_in M t < 6" "\<not> settled M ts"
    using assms(4,5) sizes_same_ranges(3) [OF s(4), where M = M]
      sizes_same_ranges(4) [OF s(4), of "\<lambda>c i. c < 6" M] by simp_all
  with balanced_sizes [OF counted total] have small: "\<forall>t \<in> set ts. keys_in M t < 6" "\<not> balanced ts" by blast+
  with split_loop_sizes [OF l(1) s(2), of M] counted placed named s(3,7,8) assms(3) have ts: "tablets n2 = ts"
    by (auto simp: not_less [symmetric])
  have "small_store names (tablets n2) (nodes w2)" using l(3,4) by simp
  from DoLoadBalance_ok [OF l(2) this] obtain ok n' w' where d: "DoLoadBalance env n2 w2 = Some (ok, n', w')"
    "balanced (tablets n2) \<or> (\<exists>idx dst. balance_target (tablets n2) idx dst
       \<and> tablets n' = (tablets n2)[idx := (tablets n2 ! idx)\<lparr>node_id := dst\<rparr>])" by blast
  then obtain idx dst where t: "balance_target ts idx dst" "tablets n' = ts[idx := (ts ! idx)\<lparr>node_id := dst\<rparr>]"
    using small(2) unfolding ts by blast
  have "balancer_round env n w = Some (n', w')"
    using s(1) l(1) d(1) by (simp add: balancer_round_def)
  with target_same_ranges [OF s(4) t(1) counted total] t(2) show ?thesis by metis
qed

lemma BalancerLoop_add:
  "BalancerLoop env (r + q) n w = do { (n, w) \<leftarrow> BalancerLoop env r n w; BalancerLoop env q n w }"
  by (induction r arbitrary: n w) (auto split: bind_split)

text \<open>One round, with everything it keeps.\<close>

lemma balancer_round_small:
  assumes "ready w" "small_store names (tablets n) (nodes w)"
  shows "\<exists>n' w'. balancer_round env n w = Some (n', w') \<and> ready w' \<and> small_store names (tablets n') (nodes w')
    \<and> store_map (tablets n') (nodes w') = store_map (tablets n) (nodes w)"
  using BalancerLoop_ok [OF assms, of 1] by (auto split: bind_splits)

lemma BalancerLoop_settles:
  assumes "ready w" "small_store names (tablets n) (nodes w)" "store_map (tablets n) (nodes w) = M"
  shows "\<exists>rounds n' w'. BalancerLoop env rounds n w = Some (n', w') \<and> ready w' \<and> small_store names (tablets n') (nodes w')
    \<and> store_map (tablets n') (nodes w') = M \<and> settled M (tablets n')"
  using assms
proof (induction "(cut_work M (tablets n), spread M (tablets n))" arbitrary: n w
    rule: wf_induct_rule [OF wf_lex_prod [OF wf_less_than wf_less_than]])
  case (1 n w)
  show ?case
  proof (cases "settled M (tablets n)")
    case True
    with "1.prems" show ?thesis by (intro exI [of _ 0]) simp
  next
    case False
    from balancer_round_small [OF "1.prems"(1,2)] "1.prems"(3) obtain n1 w1 where r:
      "balancer_round env n w = Some (n1, w1)" "ready w1" "small_store names (tablets n1) (nodes w1)"
      "store_map (tablets n1) (nodes w1) = M" by auto
    from balancer_round_sizes [OF "1.prems" r(1)] False "1.hyps" [OF _ r(2-4)]
    obtain rounds n' w' where "BalancerLoop env rounds n1 w1 = Some (n', w')" "ready w'"
      "small_store names (tablets n') (nodes w')" "store_map (tablets n') (nodes w') = M" "settled M (tablets n')"
      by blast
    with r(1) show ?thesis by (intro exI [of _ "Suc rounds"]) simp
  qed
qed

lemma BalancerLoop_settled:
  assumes "ready w" "small_store names (tablets n) (nodes w)" "store_map (tablets n) (nodes w) = M" "settled M (tablets n)"
  shows "\<exists>n' w'. BalancerLoop env rounds n w = Some (n', w') \<and> store_map (tablets n') (nodes w') = M
    \<and> list_all2 same_ranges (tablets n) (tablets n')"
  using assms
proof (induction rounds arbitrary: n w)
  case 0
  then show ?case by (simp add: list.rel_refl)
next
  case (Suc rounds)
  from balancer_round_small [OF Suc.prems(1,2)] Suc.prems(3) obtain n1 w1 where r:
    "balancer_round env n w = Some (n1, w1)" "ready w1" "small_store names (tablets n1) (nodes w1)"
    "store_map (tablets n1) (nodes w1) = M" by auto
  have same: "list_all2 same_ranges (tablets n) (tablets n1)"
    using balancer_round_sizes [OF Suc.prems(1-3) r(1)] Suc.prems(4) by blast
  with Suc.prems(4) sizes_same_ranges(3) have "settled M (tablets n1)" by blast
  from Suc.IH [OF r(2-4) this] obtain n' w' where "BalancerLoop env rounds n1 w1 = Some (n', w')"
    "store_map (tablets n') (nodes w') = M" "list_all2 same_ranges (tablets n1) (tablets n')" by blast
  moreover from same this(3) have "list_all2 same_ranges (tablets n) (tablets n')"
    by (rule list_all2_trans [of same_ranges same_ranges same_ranges, rotated]) (rule same_ranges_trans)
  ultimately show ?case using r(1) by simp
qed

lemma BalancerLoop_converges:
  assumes "ready w" "small_store names (tablets n) (nodes w)" "store_map (tablets n) (nodes w) = M"
  shows "\<exists>enough ts. settled M ts \<and> (\<forall>rounds \<ge> enough. \<exists>n' w'. BalancerLoop env rounds n w = Some (n', w')
    \<and> list_all2 same_ranges ts (tablets n') \<and> store_map (tablets n') (nodes w') = M)"
proof -
  from BalancerLoop_settles [OF assms] obtain enough n1 w1 where l: "BalancerLoop env enough n w = Some (n1, w1)"
    "ready w1" "small_store names (tablets n1) (nodes w1)" "store_map (tablets n1) (nodes w1) = M" "settled M (tablets n1)"
    by blast
  have "\<exists>n' w'. BalancerLoop env rounds n w = Some (n', w')
      \<and> list_all2 same_ranges (tablets n1) (tablets n') \<and> store_map (tablets n') (nodes w') = M"
    if "enough \<le> rounds" for rounds
  proof -
    have "BalancerLoop env rounds n w = BalancerLoop env (rounds - enough) n1 w1"
      using BalancerLoop_add [of enough "rounds - enough" n w] that l(1) by simp
    with BalancerLoop_settled [OF l(2-5), of "rounds - enough"] show ?thesis by auto
  qed
  with l(5) show ?thesis by blast
qed

end

end
