(* ===== verification/Tablet_Store.thy ===== *)
theory Tablet_Store
  imports Tablets
begin

text \<open>
  Persistence of the routing table: \<open>to_json\<close>/\<open>from_json\<close> of \<open>Tablet\<close>
  (\<open>src/src/common/common.h\<close>), \<open>RaftNode::SaveTablets\<close>, \<open>LoadTablets\<close> and the constructor
  (\<open>src/src/kv/raft_node.cpp\<close>). The text format is the vendored JSON library's and stays a
  parameter: \<open>dump\<close> (\<open>None\<close> where it throws; \<open>documented_dump\<close> says that it throws for strings that
  are not UTF-8 and for nothing else) and \<open>parse\<close> (\<open>None\<close> where it throws). JSON values and the conversions the library makes between
  them and C++ values are modelled; floating-point numbers, which a saved table never has, are not.
\<close>

section \<open>JSON values\<close>

datatype json =
    JNull
  | JBool bool
  | JInt int                    \<comment> \<open>\<open>number_integer\<close>\<close>
  | JUnsigned u64               \<comment> \<open>\<open>number_unsigned\<close>\<close>
  | JString str
  | JArray "json list"
  | JObject "(str \<times> json) list"  \<comment> \<open>a \<open>std::map\<close>: sorted by key\<close>

text \<open>\<open>j[key] = v\<close> on an object under construction.\<close>

fun obj_set :: "str \<Rightarrow> json \<Rightarrow> (str \<times> json) list \<Rightarrow> (str \<times> json) list" where
  "obj_set k v [] = [(k, v)]"
| "obj_set k v ((k', v') # m) =
     (if k = k' then (k, v) # m
      else if k < k' then (k, v) # (k', v') # m
      else (k', v') # obj_set k v m)"

text \<open>\<open>j.at(key)\<close>, which throws when \<open>j\<close> is no object or has no such key.\<close>

fun json_at :: "json \<Rightarrow> str \<Rightarrow> json option" where
  "json_at (JObject m) k = map_of m k"
| "json_at _ k = None"

fun get_u64 :: "json \<Rightarrow> u64 option" where
  "get_u64 (JUnsigned w) = Some w"
| "get_u64 (JInt i) = Some (of_int i)"
| "get_u64 _ = None"

fun get_u32 :: "json \<Rightarrow> u32 option" where
  "get_u32 (JUnsigned w) = Some (ucast w)"
| "get_u32 (JInt i) = Some (of_int i)"
| "get_u32 (JBool b) = Some (if b then 1 else 0)"
| "get_u32 _ = None"

fun get_str :: "json \<Rightarrow> str option" where
  "get_str (JString s) = Some s"
| "get_str _ = None"

lemma map_of_obj_set [simp]: "map_of (obj_set k v m) = (map_of m)(k \<mapsto> v)"
  by (induction k v m rule: obj_set.induct) (auto simp: fun_eq_iff)

section \<open>The table as JSON\<close>

definition to_json :: "tablet \<Rightarrow> json" where
  "to_json t = JObject
     (fold (\<lambda>(k, v). obj_set k v)
       [(lit ''id'', JUnsigned (tablet_id t)), (lit ''start_key'', JString (start_key t)),
        (lit ''end_key'', JString (end_key t)), (lit ''node_id'', JUnsigned (ucast (node_id t))),
        (lit ''key_count'', JUnsigned (key_count t))] [])"

definition from_json :: "json \<Rightarrow> tablet option" where
  "from_json j = do {
     i \<leftarrow> json_at j (lit ''id'') \<bind> get_u64;
     s \<leftarrow> json_at j (lit ''start_key'') \<bind> get_str;
     e \<leftarrow> json_at j (lit ''end_key'') \<bind> get_str;
     n \<leftarrow> json_at j (lit ''node_id'') \<bind> get_u32;
     c \<leftarrow> json_at j (lit ''key_count'') \<bind> get_u64;
     Some \<lparr>tablet_id = i, start_key = s, end_key = e, node_id = n, key_count = c\<rparr>
   }"

fun get_tablets :: "json \<Rightarrow> tablet list option" where
  "get_tablets (JArray js) = those (map from_json js)"
| "get_tablets _ = None"

definition tablets_json :: "raft_node \<Rightarrow> json" where
  "tablets_json n = JObject
     (obj_set (lit ''tablets'') (JArray (map to_json (tablets n)))
       (obj_set (lit ''epoch'') (JUnsigned (epoch n))
         (obj_set (lit ''next_tablet_id'') (JUnsigned (next_tablet_id n)) [])))"

lemma ucast_id32 [simp]: "(ucast (ucast (w :: u32) :: u64) :: u32) = w"
  by (rule bit_word_eqI) (simp add: bit_simps)

lemma from_to_json [simp]: "from_json (to_json t) = Some t"
  by (simp add: from_json_def to_json_def)

lemma get_tablets_json [simp]: "get_tablets (JArray (map to_json ts)) = Some ts"
  by (induction ts) simp_all

section \<open>What the library can print\<close>

text \<open>Well-formed UTF-8, as the Unicode standard tabulates it: the first byte of a sequence says which
  bytes may follow it. \<open>utf8_from\<close> carries the ranges of the bytes that are still to come.\<close>

definition utf8_tail :: "u8 \<Rightarrow> (u8 \<times> u8) list option" where
  "utf8_tail b =
     (if b \<le> 0x7F then Some []
      else if 0xC2 \<le> b \<and> b \<le> 0xDF then Some [(0x80, 0xBF)]
      else if b = 0xE0 then Some [(0xA0, 0xBF), (0x80, 0xBF)]
      else if b = 0xED then Some [(0x80, 0x9F), (0x80, 0xBF)]
      else if 0xE1 \<le> b \<and> b \<le> 0xEF then Some [(0x80, 0xBF), (0x80, 0xBF)]
      else if b = 0xF0 then Some [(0x90, 0xBF), (0x80, 0xBF), (0x80, 0xBF)]
      else if 0xF1 \<le> b \<and> b \<le> 0xF3 then Some [(0x80, 0xBF), (0x80, 0xBF), (0x80, 0xBF)]
      else if b = 0xF4 then Some [(0x80, 0x8F), (0x80, 0xBF), (0x80, 0xBF)]
      else None)"

fun utf8_from :: "(u8 \<times> u8) list \<Rightarrow> str \<Rightarrow> bool" where
  "utf8_from rs [] = (rs = [])"
| "utf8_from [] (b # s) = (case utf8_tail b of None \<Rightarrow> False | Some rs \<Rightarrow> utf8_from rs s)"
| "utf8_from ((lo, hi) # rs) (b # s) = (lo \<le> b \<and> b \<le> hi \<and> utf8_from rs s)"

definition utf8 :: "str \<Rightarrow> bool" where
  "utf8 s = utf8_from [] s"

text \<open>All strings of a JSON value are UTF-8.\<close>

fun json_utf8 :: "json \<Rightarrow> bool" where
  "json_utf8 (JString s) = utf8 s"
| "json_utf8 (JArray js) = (\<forall>j \<in> set js. json_utf8 j)"
| "json_utf8 (JObject m) = (\<forall>kv \<in> set m. utf8 (fst kv) \<and> json_utf8 (snd kv))"
| "json_utf8 _ = True"

text \<open>The documented behaviour of \<open>dump\<close> under its default error handler, which the code uses: it
  throws (\<open>type_error.316\<close>) exactly when a string of the value is not UTF-8.\<close>

definition documented_dump :: "(json \<Rightarrow> bytes option) \<Rightarrow> bool" where
  "documented_dump dump \<longleftrightarrow> (\<forall>j. dump j \<noteq> None \<longleftrightarrow> json_utf8 j)"

lemma utf8_ascii: "\<forall>b \<in> set s. b \<le> 0x7F \<Longrightarrow> utf8 s"
  unfolding utf8_def by (induction s) (simp_all add: utf8_tail_def)

lemma json_utf8_obj_set:
  "utf8 k \<Longrightarrow> json_utf8 v \<Longrightarrow> json_utf8 (JObject m) \<Longrightarrow> json_utf8 (JObject (obj_set k v m))"
  by (induction k v m rule: obj_set.induct) auto

lemma obj_set_utf8_value: "json_utf8 (JObject (obj_set k v m)) \<Longrightarrow> json_utf8 v"
  by (induction k v m rule: obj_set.induct) (auto split: if_splits)

lemma to_json_utf8: "json_utf8 (to_json t) \<longleftrightarrow> utf8 (start_key t) \<and> utf8 (end_key t)"
proof
  show "json_utf8 (to_json t) \<Longrightarrow> utf8 (start_key t) \<and> utf8 (end_key t)"
    by (simp add: to_json_def utf8_ascii)
  show "utf8 (start_key t) \<and> utf8 (end_key t) \<Longrightarrow> json_utf8 (to_json t)"
    by (simp add: to_json_def utf8_ascii)
qed

text \<open>So a table is printed exactly when all its boundaries are UTF-8.\<close>

lemma tablets_json_utf8:
  "json_utf8 (tablets_json n) \<longleftrightarrow> (\<forall>t \<in> set (tablets n). utf8 (start_key t) \<and> utf8 (end_key t))"
proof
  assume "json_utf8 (tablets_json n)"
  then show "\<forall>t \<in> set (tablets n). utf8 (start_key t) \<and> utf8 (end_key t)"
    using obj_set_utf8_value by (fastforce simp: tablets_json_def to_json_utf8)
next
  assume "\<forall>t \<in> set (tablets n). utf8 (start_key t) \<and> utf8 (end_key t)"
  then show "json_utf8 (tablets_json n)"
    unfolding tablets_json_def by (intro json_utf8_obj_set) (auto simp: to_json_utf8 utf8_ascii)
qed

lemma documented_dump_table:
  assumes "documented_dump dump"
  shows "dump (tablets_json n) \<noteq> None
    \<longleftrightarrow> (\<forall>t \<in> set (tablets n). utf8 (start_key t) \<and> utf8 (end_key t))"
  using assms by (simp add: documented_dump_def tablets_json_utf8)

section \<open>Saving and loading\<close>

text \<open>
  The two files, and what the file system does with one save: whether the temporary file opens,
  how many of the bytes reach it (neither \<open>operator<<\<close> nor \<open>close\<close> is checked), and whether
  \<open>rename\<close> works. \<open>SaveTablets\<close> returns \<open>False\<close> when \<open>dump\<close> throws.
\<close>

record disk =
  tablet_file :: "bytes option"
  tmp_file :: "bytes option"

record io_plan =
  open_ok :: bool
  written :: nat
  rename_ok :: bool

definition SaveTablets ::
  "(json \<Rightarrow> bytes option) \<Rightarrow> io_plan \<Rightarrow> raft_node \<Rightarrow> disk \<Rightarrow> bool \<times> disk" where
  "SaveTablets dump plan n f =
     (if \<not> IsMaster n then (True, f)
      else if \<not> open_ok plan then (True, f)
      else (let f = f\<lparr>tmp_file := Some []\<rparr>
            in case dump (tablets_json n) of
                 None \<Rightarrow> (False, f)
               | Some text \<Rightarrow>
                   (let f = f\<lparr>tmp_file := Some (take (written plan) text)\<rparr>
                    in if \<not> rename_ok plan then (True, f)
                       else (True, f\<lparr>tablet_file := tmp_file f, tmp_file := None\<rparr>))))"

definition LoadTablets :: "(bytes \<Rightarrow> json option) \<Rightarrow> disk \<Rightarrow> raft_node \<Rightarrow> bool \<times> raft_node" where
  "LoadTablets parse f n =
     (if \<not> IsMaster n then (False, n)
      else (case tablet_file f of
              None \<Rightarrow> (False, n)
            | Some text \<Rightarrow>
                (case do {
                   j \<leftarrow> parse text;
                   next \<leftarrow> json_at j (lit ''next_tablet_id'') \<bind> get_u64;
                   ep \<leftarrow> json_at j (lit ''epoch'') \<bind> get_u64;
                   ts \<leftarrow> json_at j (lit ''tablets'') \<bind> get_tablets;
                   Some (next, ep, ts)
                 } of
                   Some (next, ep, ts) \<Rightarrow>
                     (True, n\<lparr>next_tablet_id := next, epoch := ep, tablets := ts\<rparr>)
                 | None \<Rightarrow> (False, n\<lparr>tablets := [], next_tablet_id := 3, epoch := 1\<rparr>))))"

section \<open>The log of transfers\<close>

text \<open>The end of \<open>RaftNode::Stop\<close>: what the master writes to \<open>transfer_time.json\<close>. The keys are Chinese
  text in UTF-8 (the number of keys moved, the milliseconds, the average), \<open>mean\<close> is the division
  of two \<open>double\<close>s and \<open>zero\<close> the \<open>double\<close> 0; \<open>dump\<close> is the library's \<open>dump(4)\<close>. As in
  \<open>SaveTablets\<close> only the opening of the file is checked.\<close>

datatype 'd log_value = Whole u64 | Real 'd

definition transfer_log :: "(u64 \<Rightarrow> u64 \<Rightarrow> 'd) \<Rightarrow> 'd \<Rightarrow> raft_node \<Rightarrow> (str \<times> 'd log_value) list" where
  "transfer_log mean zero n =
     [([232, 191, 129, 231, 167, 187, 228, 184, 170, 230, 149, 176],
       Whole (transfer_count n)),
      ([232, 191, 129, 231, 167, 187, 230, 151, 182, 233, 151, 180, 40, 109, 115, 41],
       Whole (transfer_time_ms n)),
      ([229, 185, 179, 229, 157, 135, 230, 175, 143, 228, 184, 170, 232, 191,
        129, 231, 167, 187, 232, 128, 151, 230, 151, 182, 40, 109, 115, 41],
       Real (if transfer_count n > 0 then mean (transfer_time_ms n) (transfer_count n) else zero))]"

definition write_transfer_log :: "(u64 \<Rightarrow> u64 \<Rightarrow> 'd) \<Rightarrow> 'd \<Rightarrow> ((str \<times> 'd log_value) list \<Rightarrow> bytes)
    \<Rightarrow> bool \<Rightarrow> nat \<Rightarrow> raft_node \<Rightarrow> bytes option \<Rightarrow> bytes option" where
  "write_transfer_log mean zero dump opens kept n file =
     (if \<not> IsMaster n then file
      else if opens then Some (take kept (dump (transfer_log mean zero n)))
      else file)"

section \<open>Start-up\<close>

text \<open>The constructor without its connections: \<open>opened\<close> is the database a data node opens,
  \<open>None\<close> when opening throws. \<open>None\<close> of the result is undefined behaviour.\<close>

definition RaftNode_new ::
  "(bytes \<Rightarrow> json option) \<Rightarrow> (json \<Rightarrow> bytes option) \<Rightarrow> io_plan \<Rightarrow> db option \<Rightarrow> disk
   \<Rightarrow> u64 \<Rightarrow> u16 \<Rightarrow> peer_info list \<Rightarrow> (bool \<times> raft_node \<times> disk) option" where
  "RaftNode_new parse dump plan opened f nid p ps =
     (let n = \<lparr>self_id = nid, port = p, peers = ps, tablets = [], next_tablet_id = 3, epoch = 1,
               storage = None, transfer_count = 0, transfer_time_ms = 0\<rparr>
      in if IsMaster n then
           (case LoadTablets parse f n of
              (True, n) \<Rightarrow> Some (True, n, f)
            | (False, n) \<Rightarrow> do {
                n \<leftarrow> BuildInitialTablets n;
                let (ok, f) = SaveTablets dump plan n f;
                Some (ok, n, f)
              })
         else Some (True, n\<lparr>storage := opened\<rparr>, f))"

lemma LoadTablets_saved:
  assumes "IsMaster n" "tablet_file f = Some text" "parse text = Some (tablets_json m)"
  shows "LoadTablets parse f n
    = (True, n\<lparr>next_tablet_id := next_tablet_id m, epoch := epoch m, tablets := tablets m\<rparr>)"
  using assms by (simp add: LoadTablets_def tablets_json_def del: get_tablets.simps)

lemma LoadTablets_garbage:
  assumes "IsMaster n" "tablet_file f = Some text" "parse text = None"
  shows "LoadTablets parse f n = (False, n\<lparr>tablets := [], next_tablet_id := 3, epoch := 1\<rparr>)"
  using assms by (simp add: LoadTablets_def)

lemma SaveTablets_file:
  "tablet_file (snd (SaveTablets dump plan n f)) =
     (if IsMaster n \<and> open_ok plan \<and> rename_ok plan
      then (case dump (tablets_json n) of None \<Rightarrow> tablet_file f
            | Some text \<Rightarrow> Some (take (written plan) text))
      else tablet_file f)"
  by (auto simp: SaveTablets_def Let_def split: option.split)

text \<open>Property C12 (restart recovers the table). A master that saved its table, the write being
  complete, and is started again with the same peers has the same routing table, tablet counter
  and epoch, provided the JSON library reads back what it wrote for this table.\<close>
theorem restart_recovers:
  assumes "port n = LEADER_PORT" "open_ok plan" "rename_ok plan"
    and "dump (tablets_json n) = Some text" "length text \<le> written plan"
    and "parse text = Some (tablets_json n)"
  shows "\<exists>n'. RaftNode_new parse dump plan' opened (snd (SaveTablets dump plan n f))
      (self_id n) LEADER_PORT (peers n) = Some (True, n', snd (SaveTablets dump plan n f))
    \<and> tablets n' = tablets n \<and> next_tablet_id n' = next_tablet_id n \<and> epoch n' = epoch n
    \<and> (\<forall>key. GetTabletRoute n' key = GetTabletRoute n key)"
proof -
  let ?f = "snd (SaveTablets dump plan n f)"
  have "tablet_file ?f = Some text"
    using assms by (simp add: SaveTablets_file IsMaster_def)
  note load = LoadTablets_saved [where parse = parse, OF _ this assms(6)]
  show ?thesis
    by (simp add: RaftNode_new_def Let_def load IsMaster_def GetTabletRoute_def FindTabletIndex_def)
qed

text \<open>Property C30 (replacing the table file). A save leaves the table file as it was, or replaces
  it by what reached the temporary file: the new table when all bytes were written, but a strict
  prefix of it when they were not, since no write is checked. A master started on a file that does
  not parse forgets the table and goes back to two initial tablets at epoch 1.\<close>
theorem SaveTablets_replaces:
  assumes "port n = LEADER_PORT" "dump (tablets_json n) = Some text"
  shows "tablet_file (snd (SaveTablets dump plan n f))
      \<in> {tablet_file f, Some (take (written plan) text)}
    \<and> (open_ok plan \<and> rename_ok plan \<and> parse (take (written plan) text) = None \<longrightarrow>
        (\<forall>n' f'. RaftNode_new parse dump plan' opened (snd (SaveTablets dump plan n f))
             (self_id n) LEADER_PORT (peers n) = Some (True, n', f') \<longrightarrow>
           epoch n' = 1 \<and> next_tablet_id n' = 3 \<and> length (tablets n') \<le> 2))"
proof -
  let ?f = "snd (SaveTablets dump plan n f)"
  have "epoch n' = 1 \<and> next_tablet_id n' = 3 \<and> length (tablets n') \<le> 2"
    if "open_ok plan" "rename_ok plan" "parse (take (written plan) text) = None"
      "RaftNode_new parse dump plan' opened ?f (self_id n) LEADER_PORT (peers n) = Some (True, n', f')"
    for n' f'
  proof -
    have "tablet_file ?f = Some (take (written plan) text)"
      using assms that by (simp add: SaveTablets_file IsMaster_def)
    note load = LoadTablets_garbage [where parse = parse, OF _ this that(3)]
    show ?thesis using that(4)
      by (auto simp: RaftNode_new_def Let_def load IsMaster_def BuildInitialTablets_def
          split: list.splits prod.splits)
  qed
  then show ?thesis
    using assms by (auto simp: SaveTablets_file IsMaster_def)
qed

text \<open>A text format for the witnesses: it knows one document, and no strict prefix of its text.\<close>

theorem restart_recovers_witness:
  "\<exists>n'. RaftNode_new (\<lambda>t. if t = [123, 125] then Some (tablets_json sample_master) else None)
      (\<lambda>j. Some [123, 125]) \<lparr>open_ok = False, written = 0, rename_ok = False\<rparr> None
      (snd (SaveTablets (\<lambda>j. Some [123, 125]) \<lparr>open_ok = True, written = 2, rename_ok = True\<rparr>
        sample_master \<lparr>tablet_file = None, tmp_file = None\<rparr>)) 1 LEADER_PORT (peers sample_master)
    = Some (True, n', \<lparr>tablet_file = Some [123, 125], tmp_file = None\<rparr>)
    \<and> tablets n' = tablets sample_master"
  using restart_recovers [of sample_master "\<lparr>open_ok = True, written = 2, rename_ok = True\<rparr>"
      "\<lambda>j. Some [123, 125]" "[123, 125]"
      "\<lambda>t. if t = [123, 125] then Some (tablets_json sample_master) else None"
      "\<lparr>open_ok = False, written = 0, rename_ok = False\<rparr>" None "\<lparr>tablet_file = None, tmp_file = None\<rparr>"]
  by (auto simp: sample_master_def SaveTablets_def IsMaster_def)

theorem SaveTablets_replaces_witness:
  "\<exists>n' f'. RaftNode_new (\<lambda>t. if t = [123, 125] then Some (tablets_json sample_master) else None)
      (\<lambda>j. Some [123, 125]) \<lparr>open_ok = True, written = 2, rename_ok = True\<rparr> None
      (snd (SaveTablets (\<lambda>j. Some [123, 125]) \<lparr>open_ok = True, written = 1, rename_ok = True\<rparr>
        sample_master \<lparr>tablet_file = Some [123, 125], tmp_file = None\<rparr>))
      1 LEADER_PORT (peers sample_master)
    = Some (True, n', f') \<and> epoch n' = 1 \<and> length (tablets n') \<le> 2"
proof -
  let ?r = "RaftNode_new (\<lambda>t. if t = [123, 125] then Some (tablets_json sample_master) else None)
      (\<lambda>j. Some [123, 125]) \<lparr>open_ok = True, written = 2, rename_ok = True\<rparr> None
      (snd (SaveTablets (\<lambda>j. Some [123, 125]) \<lparr>open_ok = True, written = 1, rename_ok = True\<rparr>
        sample_master \<lparr>tablet_file = Some [123, 125], tmp_file = None\<rparr>))
      1 LEADER_PORT (peers sample_master)"
  have "map_option fst ?r = Some True" by code_simp
  then obtain n' f' where "?r = Some (True, n', f')" by auto
  then show ?thesis
    using SaveTablets_replaces [of sample_master "\<lambda>j. Some [123, 125]" "[123, 125]"
        "\<lparr>open_ok = True, written = 1, rename_ok = True\<rparr>"
        "\<lparr>tablet_file = Some [123, 125], tmp_file = None\<rparr>"
        "\<lambda>t. if t = [123, 125] then Some (tablets_json sample_master) else None"
        "\<lparr>open_ok = True, written = 2, rename_ok = True\<rparr>" None]
    by (auto simp: sample_master_def)
qed

end
