(* ===== verification/Cluster.thy ===== *)
theory Cluster
  imports Convergence Tablet_Store
begin

text \<open>
  The whole system around the balancer: for every data node the master's \<open>RpcClient\<close>, the
  server connection at the other end and the node behind it. One send of the client runs the
  server's loop on the bytes that got through, whose answer waits on the link; one receive takes
  from the link what has arrived. Schedules say what the kernel does: how it cuts writes
  (\<open>sends\<close>), which bytes of an answer arrive during a receive call and in which pieces
  (\<open>arrivals\<close>), and how saving the table goes (\<open>saves\<close>); an exhausted schedule means that
  everything works at once. A data node whose handler has undefined behaviour is gone from then on.
\<close>

section \<open>Links\<close>

record link =
  client :: rpc_client
  server_buf :: bytes   \<comment> \<open>received by the server, not yet consumed\<close>
  to_client :: bytes    \<comment> \<open>sent by the server, not yet received\<close>
  ended :: bool         \<comment> \<open>the server has closed the connection\<close>

text \<open>A receive plan: the sizes of the pieces that arrive, 0 standing for an \<open>EAGAIN\<close>, and
  whether the rest arrives too before the call gives up.\<close>

type_synonym recv_plan = "nat list \<times> bool"

fun chunks :: "nat list \<Rightarrow> bytes \<Rightarrow> recv_event list \<times> bytes" where
  "chunks [] b = ([], b)"
| "chunks (0 # ks) b = (case chunks ks b of (es, r) \<Rightarrow> (Again # es, r))"
| "chunks (Suc k # ks) b =
     (if b = [] then chunks ks b
      else (case chunks ks (drop (Suc k) b) of (es, r) \<Rightarrow> (Data (take (Suc k) b) # es, r)))"

definition arriving :: "recv_plan \<Rightarrow> bytes \<Rightarrow> recv_event list \<times> bytes" where
  "arriving plan b =
     (case chunks (fst plan) b of (es, r) \<Rightarrow>
        if snd plan then (if r = [] then es else es @ [Data r], []) else (es, r))"

record cluster =
  links :: "u32 \<Rightarrow> link option"
  data_nodes :: "u32 \<Rightarrow> raft_node option"
  sends :: "send_event list list"
  arrivals :: "recv_plan list"
  saves :: "io_plan list"
  clock_ms :: u64
  store :: disk

definition next_send :: "cluster \<Rightarrow> send_event list" where
  "next_send w = (case sends w of [] \<Rightarrow> [] | ss # _ \<Rightarrow> ss)"

definition next_arrival :: "cluster \<Rightarrow> recv_plan" where
  "next_arrival w = (case arrivals w of [] \<Rightarrow> ([], True) | p # _ \<Rightarrow> p)"

definition next_save :: "cluster \<Rightarrow> bytes \<Rightarrow> io_plan" where
  "next_save w text = (case saves w of
     [] \<Rightarrow> \<lparr>open_ok = True, written = length text, rename_ok = True\<rparr> | p # _ \<Rightarrow> p)"

section \<open>The environment of the balancer\<close>

definition link_connected :: "u32 \<Rightarrow> cluster \<Rightarrow> bool" where
  "link_connected i w = (case links w i of None \<Rightarrow> False | Some l \<Rightarrow> IsConnected (client l))"

definition link_send :: "u32 \<Rightarrow> bytes \<Rightarrow> cluster \<Rightarrow> send_result \<times> cluster" where
  "link_send i data w =
     (case links w i of
        None \<Rightarrow> (SendFailed, w)
      | Some l \<Rightarrow>
          (case Send (client l) data (next_send w) of (ok, wire, _) \<Rightarrow>
             (let w = w\<lparr>sends := tl (sends w)\<rparr>
              in case data_nodes w i of
                   None \<Rightarrow> (ok, w)
                 | Some n \<Rightarrow>
                     if ended l \<or> wire = [] then (ok, w)
                     else (case HandleClient HandleBinaryRequest (server_buf l) [Data wire] [] n of
                             None \<Rightarrow> (ok, w\<lparr>data_nodes := (data_nodes w)(i := None),
                                             links := (links w)(i \<mapsto> l\<lparr>ended := True\<rparr>)\<rparr>)
                           | Some (out, e, b, n) \<Rightarrow>
                               (ok, w\<lparr>data_nodes := (data_nodes w)(i \<mapsto> n),
                                      links := (links w)(i \<mapsto> l\<lparr>server_buf := b,
                                        to_client := to_client l @ out, ended := (e = Closed)\<rparr>)\<rparr>)))))"

definition link_recv :: "u32 \<Rightarrow> int \<Rightarrow> cluster \<Rightarrow> bytes option \<times> cluster" where
  "link_recv i timeout w =
     (case links w i of
        None \<Rightarrow> (None, w)
      | Some l \<Rightarrow>
          (case arriving (next_arrival w) (to_client l) of (es, rest) \<Rightarrow>
             (case RecvFrame timeout (client l) (es @ (if ended l \<and> rest = [] then [Eof] else [])) of
                (frame, c, es') \<Rightarrow>
                  (frame, w\<lparr>arrivals := tl (arrivals w),
                            links := (links w)(i \<mapsto> l\<lparr>client := c, to_client := stream es' @ rest\<rparr>)\<rparr>))))"

definition link_save :: "(json \<Rightarrow> bytes option) \<Rightarrow> raft_node \<Rightarrow> cluster \<Rightarrow> cluster option" where
  "link_save dump n w =
     (let text = (case dump (tablets_json n) of None \<Rightarrow> [] | Some text \<Rightarrow> text)
      in case SaveTablets dump (next_save w text) n (store w) of
           (ok, f) \<Rightarrow> if ok then Some (w\<lparr>saves := tl (saves w), store := f\<rparr>) else None)"

definition cluster_env :: "(json \<Rightarrow> bytes option) \<Rightarrow> cluster env" where
  "cluster_env dump = \<lparr>is_connected = link_connected, net_send = link_send, net_recv = link_recv,
     save = link_save dump, elapsed = clock_ms\<rparr>"

section \<open>A cluster on which nothing fails\<close>

definition idle_link :: "link \<Rightarrow> bool" where
  "idle_link l \<longleftrightarrow> client_fd (client l) \<ge> 0 \<and> client_buf (client l) = [] \<and> server_buf l = []
     \<and> to_client l = [] \<and> \<not> ended l"

definition prompt :: "recv_plan \<Rightarrow> bool" where
  "prompt plan \<longleftrightarrow> snd plan \<and> 10 * length (filter (\<lambda>k. k = 0) (fst plan)) < 3000"

definition whole_send :: "send_event list \<Rightarrow> bool" where
  "whole_send ss \<longleftrightarrow> (\<forall>e \<in> set ss. e = SendAgain \<or> (\<exists>k. e = Sent (Suc k)))"

definition healthy :: "cluster \<Rightarrow> bool" where
  "healthy w \<longleftrightarrow> (\<forall>i l. links w i = Some l \<longrightarrow> idle_link l)
     \<and> (\<forall>i. data_nodes w i \<noteq> None \<longrightarrow> links w i \<noteq> None)
     \<and> (\<forall>p \<in> set (arrivals w). prompt p) \<and> (\<forall>ss \<in> set (sends w). whole_send ss)"

lemma chunks_stream:
  "stream (fst (chunks ks b)) @ snd (chunks ks b) = b"
proof (induction ks b rule: chunks.induct)
  case (3 k ks b)
  obtain es r where "chunks ks (drop (Suc k) b) = (es, r)"
    by (cases "chunks ks (drop (Suc k) b)") auto
  with 3 append_take_drop_id [of "Suc k" b] show ?case by auto
qed (auto split: prod.split)

lemma chunks_quiet:
  "(\<forall>e \<in> set (fst (chunks ks b)). quiet_event e)
   \<and> agains (fst (chunks ks b)) = length (filter (\<lambda>k. k = 0) ks)"
  by (induction ks b rule: chunks.induct)
    (auto split: prod.splits simp: quiet_event_def neq_Nil_conv)

lemma agains_append [simp]: "agains (es @ fs) = agains es + agains fs"
  by (induction es rule: agains.induct) auto

lemma arriving_prompt:
  assumes "prompt plan" "3000 \<le> t"
  shows "\<exists>es. arriving plan b = (es, []) \<and> stream es = b \<and> calm t es"
proof -
  obtain es r where c: "chunks (fst plan) b = (es, r)" by (cases "chunks (fst plan) b") auto
  have "stream es @ r = b" "\<forall>e \<in> set es. quiet_event e"
    "agains es = length (filter (\<lambda>k. k = 0) (fst plan))"
    using chunks_stream [of "fst plan" b] chunks_quiet [of "fst plan" b] c by simp_all
  then show ?thesis
    using assms c by (auto simp: arriving_def prompt_def calm_def quiet_event_def neq_Nil_conv)
qed

lemma send_loop_whole: "whole_send ss \<Longrightarrow> \<exists>ss'. send_loop data ss = (SendDone, data, ss')"
proof (induction data ss rule: send_loop.induct)
  case (2 data e ss)
  then have tl: "whole_send ss" and e: "e = SendAgain \<or> (\<exists>k. e = Sent (Suc k))"
    by (auto simp: whole_send_def)
  show ?case
  proof (cases "data = []")
    case True
    then show ?thesis by simp
  next
    case False
    from e show ?thesis
    proof
      assume "e = SendAgain"
      with False "2.IH"(2) tl show ?thesis by simp
    next
      assume "\<exists>k. e = Sent (Suc k)"
      then obtain k where k: "e = Sent (Suc k)" by blast
      with False "2.IH"(1) [OF False k] tl obtain ss' where
        "send_loop (drop (Suc k) data) ss = (SendDone, drop (Suc k) data, ss')" by auto
      with False k show ?thesis by simp
    qed
  qed
qed simp

lemma healthy_next:
  assumes "healthy w"
  shows "whole_send (next_send w)" "prompt (next_arrival w)"
proof -
  show "whole_send (next_send w)"
    using assms by (cases "sends w") (simp_all add: healthy_def next_send_def whole_send_def)
  show "prompt (next_arrival w)"
    using assms by (cases "arrivals w") (simp_all add: healthy_def next_arrival_def prompt_def)
qed

lemma respond_frame:
  assumes "r \<noteq> []"
  shows "respond rid r = EncodeCustomRequest rid (response_payload (hd r) (tl r))"
  using assms by (simp add: respond_def EncodeResponse_custom)

lemma link_send_answer:
  assumes "links w i = Some l" "client_fd (client l) \<ge> 0" "server_buf l = []" "\<not> ended l"
    and "whole_send (next_send w)" "data_nodes w i = Some n" "frame_fits p"
    and "HandleBinaryRequest n rid p = Some (r, n')"
  shows "link_send i (EncodeCustomRequest rid p) w =
    (SendDone, w\<lparr>sends := tl (sends w), data_nodes := (data_nodes w)(i \<mapsto> n'),
             links := (links w)(i \<mapsto> l\<lparr>to_client := to_client l @ respond rid r\<rparr>)\<rparr>)"
proof -
  let ?f = "EncodeCustomRequest rid p"
  from send_loop_whole [OF assms(5), of ?f] obtain ss' where
    "send_loop ?f (next_send w) = (SendDone, ?f, ss')" by blast
  then have snd: "Send (client l) ?f (next_send w) = (SendDone, ?f, ss')"
    using assms(2) by (simp add: Send_def)
  have ne: "?f \<noteq> []" by (simp add: EncodeCustomRequest_def be32_def Let_def)
  have "calm 5000 [Data ?f]" using ne by (auto simp: calm_def quiet_event_def neq_Nil_conv)
  then have srv: "HandleClient HandleBinaryRequest [] [Data ?f] [] n = Some (respond rid r, Waiting, [], n')"
    using HandleClient_run [of "[Data ?f]" "[(rid, p)]" "[]" HandleBinaryRequest n] assms(7,8) by simp
  have l': "l\<lparr>server_buf := [], to_client := to_client l @ respond rid r, ended := False\<rparr>
      = l\<lparr>to_client := to_client l @ respond rid r\<rparr>"
    using assms(3,4) by (cases l) simp
  have "link_send i ?f w =
    (SendDone, w\<lparr>sends := tl (sends w), data_nodes := (data_nodes w)(i \<mapsto> n'), links := (links w)(i \<mapsto>
        l\<lparr>server_buf := [], to_client := to_client l @ respond rid r, ended := False\<rparr>)\<rparr>)"
    using assms(1,3,4,6) snd ne srv by (simp add: link_send_def Let_def)
  then show ?thesis unfolding l' .
qed

lemma respond_fits:
  assumes "r \<noteq> []" "14 + length r < 2 ^ 32"
  shows "frame_fits (response_payload (hd r) (tl r))"
  using assms by (cases r) (simp_all add: frame_fits_def)

lemma link_recv_answer:
  assumes "links w i = Some l" "client_fd (client l) \<ge> 0" "client_buf (client l) = []" "\<not> ended l"
    and "prompt (next_arrival w)" "3000 \<le> t" "to_client l = respond rid r @ rest"
    and "r \<noteq> []" "14 + length r < 2 ^ 32"
  shows "\<exists>c b. link_recv i t w = (Some (respond rid r),
      w\<lparr>arrivals := tl (arrivals w), links := (links w)(i \<mapsto> l\<lparr>client := c, to_client := b\<rparr>)\<rparr>)
    \<and> client_fd c = client_fd (client l) \<and> client_buf c @ b = rest"
proof -
  obtain es where es: "arriving (next_arrival w) (to_client l) = (es, [])"
    "stream es = to_client l" "calm t es"
    using arriving_prompt [OF assms(5,6)] by blast
  obtain c es' where rc: "RecvFrame t (client l) es = (Some (respond rid r), c, es')"
    "client_fd c = client_fd (client l)" "client_buf c @ stream es' = rest"
    using RecvFrame_run [of "client l" t es "response_payload (hd r) (tl r)" rid rest]
      es(2,3) respond_fits [OF assms(8,9)] assms(2,3,7)
    by (auto simp: respond_frame [OF assms(8)])
  with es(1) assms(1,4) show ?thesis by (auto simp: link_recv_def)
qed

lemma in_set_tl: "x \<in> set (tl xs) \<Longrightarrow> x \<in> set xs"
  by (cases xs) auto

lemma healthy_exchange:
  assumes "healthy w" "data_nodes w i = Some n" "frame_fits p"
    and "HandleBinaryRequest n rid p = Some (r, n')" "14 + length r < 2 ^ 32" "3000 \<le> t"
  shows "\<exists>w1 w2. link_send i (EncodeCustomRequest rid p) w = (SendDone, w1)
    \<and> link_recv i t w1 = (Some (respond rid r), w2)
    \<and> healthy w2 \<and> data_nodes w2 = (data_nodes w)(i \<mapsto> n')"
proof -
  have "links w i \<noteq> None" using assms(1,2) unfolding healthy_def by blast
  then obtain l where l: "links w i = Some l" by blast
  then have "idle_link l" using assms(1) by (auto simp: healthy_def)
  then have idle: "client_fd (client l) \<ge> 0" "client_buf (client l) = []" "server_buf l = []"
    "to_client l = []" "\<not> ended l" by (simp_all add: idle_link_def)
  let ?l1 = "l\<lparr>to_client := respond rid r\<rparr>"
  let ?w1 = "w\<lparr>sends := tl (sends w), data_nodes := (data_nodes w)(i \<mapsto> n'), links := (links w)(i \<mapsto> ?l1)\<rparr>"
  have w1: "link_send i (EncodeCustomRequest rid p) w = (SendDone, ?w1)"
    using link_send_answer [OF l idle(1,3,5) healthy_next(1) [OF assms(1)] assms(2-4)] idle(4) by simp
  have r: "r \<noteq> []" by (rule HandleBinaryRequest_step(1) [OF assms(4)])
  have "prompt (next_arrival ?w1)"
    using healthy_next(2) [OF assms(1)] by (simp add: next_arrival_def)
  from link_recv_answer [of ?w1 i ?l1, OF _ _ _ _ this assms(6) _ r assms(5), of rid "[]"] idle
  obtain c b where w2: "link_recv i t ?w1 = (Some (respond rid r),
      ?w1\<lparr>arrivals := tl (arrivals w), links := (links w)(i \<mapsto> ?l1\<lparr>client := c, to_client := b\<rparr>)\<rparr>)"
    "client_fd c = client_fd (client l)" "client_buf c @ b = []"
    by auto
  let ?w2 = "?w1\<lparr>arrivals := tl (arrivals w), links := (links w)(i \<mapsto> ?l1\<lparr>client := c, to_client := b\<rparr>)\<rparr>"
  have "idle_link (?l1\<lparr>client := c, to_client := b\<rparr>)"
    using w2(2,3) idle by (simp add: idle_link_def)
  then have "healthy ?w2"
    using assms(1) unfolding healthy_def by (auto dest: in_set_tl)
  with w1 w2(1) show ?thesis by auto
qed

text \<open>Saving works for the tables that the JSON library can print. \<open>writes_tables\<close> names a set of keys
  such that every table with boundaries in the set is printed; for the library as documented, any
  set of UTF-8 keys is one.\<close>

definition writes_tables :: "(json \<Rightarrow> bytes option) \<Rightarrow> str set \<Rightarrow> bool" where
  "writes_tables dump B \<longleftrightarrow> (\<forall>n. boundaries (tablets n) \<subseteq> B \<longrightarrow> dump (tablets_json n) \<noteq> None)"

lemma documented_writes:
  assumes "documented_dump dump" "\<forall>b \<in> B. utf8 b"
  shows "writes_tables dump B"
  unfolding writes_tables_def documented_dump_table [OF assms(1)]
  using assms(2) by (auto simp: boundaries_def image_subset_iff)

lemma healthy_save:
  assumes "healthy w" "dump (tablets_json n) \<noteq> None"
  shows "\<exists>w'. link_save dump n w = Some w' \<and> healthy w' \<and> data_nodes w' = data_nodes w"
proof -
  have "fst (SaveTablets dump plan n f)" for plan f
    using assms(2) by (auto simp: SaveTablets_def Let_def)
  then show ?thesis
    using assms(1) by (auto simp: link_save_def healthy_def Let_def case_prod_beta)
qed

interpretation ex: cluster_exchange "cluster_env dump" data_nodes healthy
proof
  fix w :: cluster and i :: u32
  assume "healthy w" "data_nodes w i \<noteq> None"
  then have "links w i \<noteq> None" unfolding healthy_def by blast
  then obtain l where "links w i = Some l" by blast
  with \<open>healthy w\<close> show "is_connected (cluster_env dump) i w"
    by (auto simp: cluster_env_def link_connected_def healthy_def idle_link_def IsConnected_def)
qed (use healthy_exchange in \<open>simp add: cluster_env_def\<close>)

interpretation cl: cluster_rpc "cluster_env dump" data_nodes "\<lambda>w. healthy w \<and> writes_tables dump B" B
proof
  fix w :: cluster and i :: u32
  assume "healthy w \<and> writes_tables dump B" "data_nodes w i \<noteq> None"
  then show "is_connected (cluster_env dump) i w" using ex.connected by blast
next
  fix w :: cluster and i :: u32 and n p rid r n' and t :: int
  assume "healthy w \<and> writes_tables dump B" "data_nodes w i = Some n" "frame_fits p"
    "HandleBinaryRequest n rid p = Some (r, n')" "14 + length r < 2 ^ 32" "3000 \<le> t"
  then show "\<exists>w1 w2. net_send (cluster_env dump) i (EncodeCustomRequest rid p) w = (SendDone, w1)
      \<and> net_recv (cluster_env dump) i t w1 = (Some (respond rid r), w2)
      \<and> (healthy w2 \<and> writes_tables dump B) \<and> data_nodes w2 = (data_nodes w)(i \<mapsto> n')"
    using ex.exchange by blast
next
  fix w :: cluster and n :: raft_node
  assume "healthy w \<and> writes_tables dump B" "boundaries (tablets n) \<subseteq> B"
  then show "\<exists>w'. save (cluster_env dump) n w = Some w' \<and> (healthy w' \<and> writes_tables dump B)
      \<and> data_nodes w' = data_nodes w"
    using healthy_save [of w dump n] by (auto simp: cluster_env_def writes_tables_def)
qed


section \<open>A sample cluster\<close>

definition sample_link :: link where
  "sample_link = \<lparr>client = \<lparr>client_fd = 3, client_buf = []\<rparr>, server_buf = [], to_client = [],
     ended = False\<rparr>"

text \<open>Node 2 has two keys of the first tablet, node 3 the database \<open>d\<close>.\<close>

definition sample_cluster :: "db \<Rightarrow> cluster" where
  "sample_cluster d = \<lparr>links = [2 \<mapsto> sample_link, 3 \<mapsto> sample_link],
     data_nodes = [2 \<mapsto> sample_node, 3 \<mapsto> sample_node\<lparr>self_id := 3, storage := Some d\<rparr>],
     sends = [], arrivals = [], saves = [], clock_ms = 0,
     store = \<lparr>tablet_file = None, tmp_file = None\<rparr>\<rparr>"

text \<open>A \<open>dump\<close> that fails where the library's does.\<close>

definition sample_dump :: "json \<Rightarrow> bytes option" where
  "sample_dump j = (if json_utf8 j then Some [] else None)"

lemma sample_dump_documented [simp]: "documented_dump sample_dump"
  by (simp add: documented_dump_def sample_dump_def)

lemma sample_table_utf8 [simp]: "b \<in> boundaries (tablets sample_master) \<Longrightarrow> utf8 b"
  by (auto simp: boundaries_def sample_master_def utf8_ascii)

lemma sample_dump_writes [simp]: "writes_tables sample_dump (boundaries (tablets sample_master))"
  by (rule documented_writes) simp_all

lemma sample_cluster_healthy [simp]: "healthy (sample_cluster d)"
  by (auto simp: healthy_def sample_cluster_def idle_link_def sample_link_def)

lemma sample_pairs [simp]:
  "node_pairs sample_node [] [109] = [([97], [1]), ([98], [2])]"
proof -
  have "takeWhile (\<lambda>p. before_end [109] (fst p)) (db_scan [] sample_db) = [([97], [1]), ([98], [2])]"
    by code_simp
  then show ?thesis by (simp add: node_pairs_def ldb.range_pairs_def)
qed

lemma sample_node_port [simp]: "port sample_node = 9002"
  by (simp add: sample_node_def)

lemma sample_facts [simp]:
  "data_nodes (sample_cluster d) 2 = Some sample_node"
  "data_nodes (sample_cluster d) 3 = Some (sample_node\<lparr>self_id := 3, storage := Some d\<rparr>)"
  "data_node sample_node"
  "db_inv d \<Longrightarrow> data_node (sample_node\<lparr>self_id := 3, storage := Some d\<rparr>)"
  "range_fits sample_node [] [109]"
  "tablets_partition (tablets sample_master)" "length (tablets sample_master) = 2"
  "start_key (tablets sample_master ! 0) = []" "end_key (tablets sample_master ! 0) = [109]"
  "node_id (tablets sample_master ! 0) = 2"
  by (simp_all add: sample_cluster_def data_node_def sample_master_def IsMaster_def
      LEADER_PORT_def node_inv_def range_fits_def entry_fits_def scan_body_def)

section \<open>Migration, end to end\<close>

text \<open>Property C6 (migration preserves the data). On a healthy cluster, moving a tablet to a data
  node that accepts writes and has no key of the tablet's range succeeds, and every key of the
  store is found with the same value, or the same absence, as before.\<close>
theorem migration_preserves:
  assumes "healthy w" "tablets_partition (tablets n)" "idx < length (tablets n)"
    and "t = tablets n ! idx" "dst \<noteq> node_id t"
    and "data_nodes w (node_id t) = Some a" "data_nodes w dst = Some b" "data_node a" "data_node b"
    and "range_fits a (start_key t) (end_key t)" "writes_tables dump (boundaries (tablets n))"
    and "node_writable b" "\<forall>k. owns t k \<longrightarrow> node_get b k = None"
  shows "\<exists>n' w'. MigrateTablet (cluster_env dump) idx dst n w = Some (True, n', w')
    \<and> tablets n' = (tablets n)[idx := t\<lparr>node_id := dst\<rparr>] \<and> epoch n' = epoch n + 1 \<and> healthy w'
    \<and> (\<forall>k. cluster_get n' (data_nodes w') k = cluster_get n (data_nodes w) k)"
proof -
  from cl.MigrateTablet_lookup [OF conjI [OF assms(1,11)] assms(2-10) order_refl] obtain n' w' where m:
    "MigrateTablet (cluster_env dump) idx dst n w = Some (True, n', w')"
    "healthy w'" "epoch n' = epoch n + 1" "tablets n' = (tablets n)[idx := t\<lparr>node_id := dst\<rparr>]"
    "\<forall>k. cluster_get n' (data_nodes w') k =
         (if owns t k then
            (if node_writable b
             then (case cluster_get n (data_nodes w) k of Some v \<Rightarrow> Some v | None \<Rightarrow> node_get b k)
             else node_get b k)
          else cluster_get n (data_nodes w) k)" by blast
  have "cluster_get n' (data_nodes w') k = cluster_get n (data_nodes w) k" for k
    using m(5) assms(12,13)
    by (cases "owns t k"; cases "cluster_get n (data_nodes w) k") simp_all
  with m(1-4) show ?thesis by blast
qed

theorem migration_preserves_witness:
  "\<exists>n' w'. MigrateTablet (cluster_env sample_dump) 0 3 sample_master (sample_cluster DB_Open)
      = Some (True, n', w')
    \<and> node_id (tablets n' ! 0) = 3 \<and> cluster_get n' (data_nodes w') [97] = Some [1]"
proof -
  have "node_writable (sample_node\<lparr>self_id := 3, storage := Some DB_Open\<rparr>)" by code_simp
  moreover have "node_get (sample_node\<lparr>self_id := 3, storage := Some DB_Open\<rparr>) k = None" for k
    by (simp add: node_get_def DB_Get_def DB_Open_def MemTable_Get_def MemTable_Seek_def)
  moreover have "cluster_get sample_master (data_nodes (sample_cluster DB_Open)) [97] = Some [1]"
    by code_simp
  ultimately show ?thesis
    using migration_preserves [of "sample_cluster DB_Open" sample_master 0
        "tablets sample_master ! 0" 3 _ _ sample_dump] by fastforce
qed

text \<open>Property C25 (migration to a node that cannot write loses the data). When the destination's
  database refuses writes, each PUT of the transfer is answered with \<open>ST_TIMEOUT\<close>, which
  \<open>ScanAndTransferData\<close> counts as a transferred key: the migration reports success and
  switches the route, and no key of the tablet is found any more.\<close>
theorem migration_loses_data:
  assumes "healthy w" "tablets_partition (tablets n)" "idx < length (tablets n)"
    and "t = tablets n ! idx" "dst \<noteq> node_id t"
    and "data_nodes w (node_id t) = Some a" "data_nodes w dst = Some b" "data_node a" "data_node b"
    and "range_fits a (start_key t) (end_key t)" "writes_tables dump (boundaries (tablets n))"
    and "\<not> node_writable b" "\<forall>k. owns t k \<longrightarrow> node_get b k = None"
  shows "\<exists>n' w'. MigrateTablet (cluster_env dump) idx dst n w = Some (True, n', w')
    \<and> (\<forall>k. cluster_get n' (data_nodes w') k
          = (if owns t k then None else cluster_get n (data_nodes w) k))"
  using cl.MigrateTablet_lookup [OF conjI [OF assms(1,11)] assms(2-10) order_refl] assms(12,13) by auto

theorem migration_loses_data_witness:
  "cluster_get sample_master (data_nodes (sample_cluster (DB_Open\<lparr>log_ok := False\<rparr>))) [97] = Some [1]
   \<and> (\<exists>n' w'. MigrateTablet (cluster_env sample_dump) 0 3 sample_master
        (sample_cluster (DB_Open\<lparr>log_ok := False\<rparr>)) = Some (True, n', w')
      \<and> cluster_get n' (data_nodes w') [97] = None)"
proof -
  let ?d = "DB_Open\<lparr>log_ok := False\<rparr>"
  have "db_inv ?d" by (simp add: db_inv_def DB_Open_def)
  moreover have "\<not> node_writable (sample_node\<lparr>self_id := 3, storage := Some ?d\<rparr>)" by code_simp
  moreover have "node_get (sample_node\<lparr>self_id := 3, storage := Some ?d\<rparr>) k = None" for k
    by (simp add: node_get_def DB_Get_def DB_Open_def MemTable_Get_def MemTable_Seek_def)
  moreover have "cluster_get sample_master (data_nodes (sample_cluster ?d)) [97] = Some [1]"
    by code_simp
  moreover have "owns (tablets sample_master ! 0) [97]" by (simp add: in_range_def)
  ultimately show ?thesis
    using migration_loses_data [of "sample_cluster ?d" sample_master 0
        "tablets sample_master ! 0" 3 _ _ sample_dump] by fastforce
qed

text \<open>Migration can resurrect deleted keys. A key that the store does not have, but of
  which the destination kept an old value (from an earlier migration whose range deletion failed),
  is there again after the migration, with the old value.\<close>
lemma migration_resurrects:
  assumes "healthy w" "tablets_partition (tablets n)" "idx < length (tablets n)"
    and "t = tablets n ! idx" "dst \<noteq> node_id t"
    and "data_nodes w (node_id t) = Some a" "data_nodes w dst = Some b" "data_node a" "data_node b"
    and "range_fits a (start_key t) (end_key t)" "writes_tables dump (boundaries (tablets n))"
    and "owns t k" "cluster_get n (data_nodes w) k = None" "node_get b k = Some v"
  shows "\<exists>n' w'. MigrateTablet (cluster_env dump) idx dst n w = Some (True, n', w')
    \<and> cluster_get n' (data_nodes w') k = Some v"
  using cl.MigrateTablet_lookup [OF conjI [OF assms(1,11)] assms(2-10) order_refl] assms(12-14) by auto

section \<open>Statistics and splitting, end to end\<close>

text \<open>A round's statistics and splits. On a healthy cluster whose tablets belong to
  running data nodes, a synchronisation gives every tablet its exact number of live keys, and the
  split loop that follows ends, with a table that still partitions the key space.\<close>
lemma sync_and_split_ends:
  assumes "healthy w" "owners_fit (data_nodes w) (tablets n)" "tablets_partition (tablets n)"
    and "writes_tables dump (boundaries (tablets n) \<union> held_keys (data_nodes w))"
  shows "\<exists>ts w1 n' w'. SyncAllTabletStats (cluster_env dump) (tablets n) w = Some (ts, w1)
    \<and> (\<forall>t \<in> set ts. unat (key_count t) = live_count (data_nodes w) t)
    \<and> split_loop (cluster_env dump) 0 (n\<lparr>tablets := ts\<rparr>) w1 = Some (n', w')
    \<and> data_nodes w' = data_nodes w \<and> tablets_partition (tablets n')"
proof -
  from ex.SyncAllTabletStats_ok [OF assms(1,2)] obtain ts w1 where s:
    "SyncAllTabletStats (cluster_env dump) (tablets n) w = Some (ts, w1)" "healthy w1"
    "data_nodes w1 = data_nodes w" "list_all2 same_ranges (tablets n) ts"
    "\<forall>u \<in> set ts. unat (key_count u) = live_count (data_nodes w) u" by blast
  have "owners_fit (data_nodes w1) (tablets (n\<lparr>tablets := ts\<rparr>))"
    using owners_fit_sync [OF s(4) assms(2)] s(3) by simp
  moreover have "boundaries (tablets (n\<lparr>tablets := ts\<rparr>)) \<union> held_keys (data_nodes w1)
      \<subseteq> boundaries (tablets n) \<union> held_keys (data_nodes w)"
    using boundaries_sync [OF s(4)] s(3) by simp
  ultimately obtain n' w' where l:
    "split_loop (cluster_env dump) 0 (n\<lparr>tablets := ts\<rparr>) w1 = Some (n', w')"
    "data_nodes w' = data_nodes w"
    using cl.split_loop_ends [OF conjI [OF s(2) assms(4)], where i = 0] s(3) by fastforce
  from table_step_trans [OF sync_step [OF s(1)] split_loop_step [OF l(1)]] assms(3)
  have "tablets_partition (tablets n')" by (simp add: table_step_def)
  with s l show ?thesis by blast
qed

text \<open>Splits are even. On a healthy cluster a split that takes place replaces the tablet
  by two whose recorded key counts are the exact numbers of live keys of their ranges: half of the
  keys, rounded down, and the rest.\<close>
lemma split_is_even:
  assumes "healthy w" "idx < length (tablets n)" "owners_fit (data_nodes w) (tablets n)"
    and "writes_tables dump (boundaries (tablets n) \<union> held_keys (data_nodes w))"
    and "TrySplitTablet (cluster_env dump) idx n w = Some (True, n', w')"
  shows "\<exists>l r. tablets n' = take idx (tablets n) @ l # r # drop (idx + 1) (tablets n)
    \<and> unat (key_count l) = live_count (data_nodes w) l \<and> unat (key_count r) = live_count (data_nodes w) r
    \<and> live_count (data_nodes w) l = live_count (data_nodes w) (tablets n ! idx) div 2
    \<and> live_count (data_nodes w) l + live_count (data_nodes w) r = live_count (data_nodes w) (tablets n ! idx)
    \<and> data_nodes w' = data_nodes w"
proof (rule cl.TrySplitTablet_halves [OF conjI [OF assms(1,4)] assms(2,3) order_refl])
qed (use assms(5) in auto)


section \<open>Rounds of the balancer, end to end\<close>

text \<open>Property C4 (the balancer keeps the map). Take the JSON library as documented and a healthy cluster
  whose tablets are at data nodes that accept writes, in which no node has keys of a tablet that is
  somewhere else, whose data fits one scan response and whose keys and boundaries are UTF-8. Any
  number of rounds (statistics, splits and a migration each) comes to its end, leaves such a
  cluster, and every key is found with the value it had.\<close>
theorem balancer_keeps_map:
  assumes "documented_dump dump" "healthy w" "placed (tablets n) (data_nodes w)"
    and "map_fits (store_map (tablets n) (data_nodes w))" "\<forall>b \<in> boundaries (tablets n). length b < 2 ^ 16"
    and "\<forall>k \<in> boundaries (tablets n) \<union> dom (store_map (tablets n) (data_nodes w)). utf8 k"
  shows "\<exists>n' w'. BalancerLoop (cluster_env dump) rounds n w = Some (n', w') \<and> healthy w'
    \<and> placed (tablets n') (data_nodes w') \<and> (\<forall>b \<in> boundaries (tablets n'). utf8 b)
    \<and> (\<forall>k. cluster_get n' (data_nodes w') k = cluster_get n (data_nodes w) k)"
proof -
  let ?B = "boundaries (tablets n) \<union> dom (store_map (tablets n) (data_nodes w))"
  have "small_store ?B (tablets n) (data_nodes w)" using assms(3-5) by (simp add: small_store_def)
  from cl.BalancerLoop_ok [OF conjI [OF assms(2) documented_writes [OF assms(1,6)]] this, of rounds]
  obtain n' w' where l: "BalancerLoop (cluster_env dump) rounds n w = Some (n', w')" "healthy w'"
    "small_store ?B (tablets n') (data_nodes w')"
    "store_map (tablets n') (data_nodes w') = store_map (tablets n) (data_nodes w)" by blast
  then have "tablets_partition (tablets n')" "tablets_partition (tablets n)" "placed (tablets n') (data_nodes w')"
    and "boundaries (tablets n') \<subseteq> ?B"
    using assms(3) by (simp_all add: small_store_def placed_def)
  moreover from this(4) assms(6) have "\<forall>b \<in> boundaries (tablets n'). utf8 b" by blast
  ultimately show ?thesis using l(1,2,4) cluster_get_store_map by fastforce
qed

text \<open>Property C5 (the balancer settles). On such a cluster, while no client writes, there is a number of
  rounds after which the balancer has nothing left to do: every tablet has less than six keys, the
  loads of any two nodes with tablets differ by less than seven keys, and further rounds change no
  range and no node of a tablet. Every key still has its value.\<close>
theorem balancer_settles:
  assumes "documented_dump dump" "healthy w" "placed (tablets n) (data_nodes w)"
    and "map_fits (cluster_get n (data_nodes w))" "\<forall>b \<in> boundaries (tablets n). length b < 2 ^ 16"
    and "\<forall>k \<in> boundaries (tablets n) \<union> dom (cluster_get n (data_nodes w)). utf8 k"
  shows "\<exists>enough ts. settled (cluster_get n (data_nodes w)) ts
    \<and> (\<forall>rounds \<ge> enough. \<exists>n' w'. BalancerLoop (cluster_env dump) rounds n w = Some (n', w')
         \<and> list_all2 same_ranges ts (tablets n') \<and> cluster_get n' (data_nodes w') = cluster_get n (data_nodes w))"
proof -
  let ?B = "boundaries (tablets n) \<union> dom (cluster_get n (data_nodes w))"
  have part: "tablets_partition (tablets n)" using assms(3) by (simp add: placed_def)
  note M = cluster_get_store_map [OF part, of "data_nodes w"]
  have "small_store ?B (tablets n) (data_nodes w)" using assms(3-5) by (simp add: small_store_def M)
  from cl.BalancerLoop_converges [OF conjI [OF assms(2) documented_writes [OF assms(1,6)]] this M [symmetric]]
  obtain enough ts where "settled (cluster_get n (data_nodes w)) ts"
    "\<And>rounds. enough \<le> rounds \<Longrightarrow> \<exists>n' w'. BalancerLoop (cluster_env dump) rounds n w = Some (n', w')
       \<and> list_all2 same_ranges ts (tablets n') \<and> store_map (tablets n') (data_nodes w') = cluster_get n (data_nodes w)"
    by blast
  moreover have "cluster_get n' ns = store_map (tablets n') ns"
    if "BalancerLoop (cluster_env dump) rounds n w = Some (n', w')" for rounds n' w' ns
    using loop_step [OF that] part cluster_get_store_map by (simp add: table_step_def)
  ultimately show ?thesis by metis
qed

section \<open>A late answer\<close>

lemma QueryTabletStats_response:
  assumes "is_connected env i w" "length m < 2 ^ 16"
    and "call env i (range_payload OP_TABLET_STATS s e) 3000 w
      = Some (Some (response_payload ST_OK (be32 c @ be16 (of_nat (length m)) @ m)), w')"
  shows "QueryTabletStats env i s e w = Some (Some (ucast c, m), w')"
  using assms stats_response_reads [OF assms(2), of c]
  by (simp add: QueryTabletStats_def unat_of_nat16)

definition stats_answer :: "raft_node \<Rightarrow> str \<Rightarrow> str \<Rightarrow> bytes" where
  "stats_answer n s e = ST_OK # be32 (of_nat (length (node_pairs n s e)))
     @ be16 (of_nat (length (node_median n s e))) @ node_median n s e"

lemma stats_request:
  assumes "data_node n" "range_fits n s e"
  shows "HandleBinaryRequest n 1 (range_payload OP_TABLET_STATS s e) = Some (stats_answer n s e, n)"
    and "frame_fits (range_payload OP_TABLET_STATS s e)" "14 + length (stats_answer n s e) < 2 ^ 32"
    and "stats_answer n s e \<noteq> []"
  using assms HandleDataNodeTabletStats_range [of n s e] range_fits_median [OF assms(2)]
  by (auto simp: range_fits_def data_node_def range_dispatch frame_fits_def stats_answer_def)

text \<open>The state between the two requests: the first answer waits on a link that is idle otherwise.\<close>

definition answer_waits :: "u32 \<Rightarrow> raft_node \<Rightarrow> bytes \<Rightarrow> cluster \<Rightarrow> bool" where
  "answer_waits i n r w \<longleftrightarrow> (\<exists>l. links w i = Some (l\<lparr>to_client := respond 1 r\<rparr>) \<and> idle_link l)
     \<and> whole_send (next_send w) \<and> data_nodes w i = Some n \<and> arrivals w = []"

lemma link_connected_idle:
  "links w i = Some (l\<lparr>to_client := b\<rparr>) \<Longrightarrow> idle_link l \<Longrightarrow> is_connected (cluster_env dump) i w"
  by (simp add: link_connected_def IsConnected_def idle_link_def cluster_env_def)

lemma late_answer:
  assumes "healthy (w\<lparr>arrivals := []\<rparr>)" "arrivals w = [([], False)]"
    and "data_nodes w i = Some n" "data_node n" "range_fits n s e"
  shows "\<exists>w1. QueryTabletStats (cluster_env dump) i s e w = Some (None, w1)
    \<and> answer_waits i n (stats_answer n s e) w1"
proof -
  let ?r = "stats_answer n s e"
  note q = stats_request [OF assms(4,5)]
  have "links w i \<noteq> None" using assms(1,3) unfolding healthy_def by auto
  then obtain l where l: "links w i = Some l" by blast
  then have il: "idle_link l" using assms(1) by (auto simp: healthy_def)
  then have idle: "client_fd (client l) \<ge> 0" "client_buf (client l) = []" "server_buf l = []"
    "to_client l = []" "\<not> ended l" by (simp_all add: idle_link_def)
  have sends: "\<forall>ss \<in> set (sends w). whole_send ss"
    using assms(1) by (simp add: healthy_def)
  have whole: "whole_send (next_send w)"
    using sends by (cases "sends w") (simp_all add: next_send_def whole_send_def)
  let ?w1 = "w\<lparr>sends := tl (sends w), data_nodes := (data_nodes w)(i \<mapsto> n),
      links := (links w)(i \<mapsto> l\<lparr>to_client := respond 1 ?r\<rparr>)\<rparr>"
  let ?w2 = "?w1\<lparr>arrivals := []\<rparr>"
  have send: "link_send i (EncodeCustomRequest 1 (range_payload OP_TABLET_STATS s e)) w = (SendDone, ?w1)"
    using link_send_answer [OF l idle(1,3,5) whole assms(3) q(2,1)] idle(4) by simp
  have same: "l\<lparr>client := client l\<lparr>client_buf := []\<rparr>, to_client := respond 1 ?r\<rparr> = l\<lparr>to_client := respond 1 ?r\<rparr>"
    using idle(2) by (cases l; cases "client l") simp
  have "link_recv i 3000 ?w1 = (None, ?w1\<lparr>arrivals := [], links := (links w)(i \<mapsto>
      l\<lparr>client := client l\<lparr>client_buf := []\<rparr>, to_client := respond 1 ?r\<rparr>)\<rparr>)"
    using idle assms(2)
    by (simp add: link_recv_def next_arrival_def arriving_def RecvFrame_def RecvAll_def)
  then have recv: "link_recv i 3000 ?w1 = (None, ?w2)"
    unfolding same by simp
  have "is_connected (cluster_env dump) i w"
    using link_connected_idle [where l = l and b = "to_client l"] l il by simp
  then have "QueryTabletStats (cluster_env dump) i s e w = Some (None, ?w2)"
    using send recv by (simp add: QueryTabletStats_def call_def cluster_env_def)
  moreover have "whole_send (next_send ?w2)"
    using sends by (cases "sends w"; cases "tl (sends w)") (simp_all add: next_send_def whole_send_def)
  with il have "answer_waits i n ?r ?w2" by (auto simp: answer_waits_def)
  ultimately show ?thesis by blast
qed

lemma waiting_answer_taken:
  assumes "answer_waits i n (stats_answer n s1 e1) w"
    and "data_node n" "range_fits n s1 e1" "range_fits n s2 e2"
  shows "\<exists>w2. QueryTabletStats (cluster_env dump) i s2 e2 w
      = Some (Some (ucast (of_nat (length (node_pairs n s1 e1)) :: u32), node_median n s1 e1), w2)"
proof -
  let ?r1 = "stats_answer n s1 e1" and ?r2 = "stats_answer n s2 e2"
  note q1 = stats_request [OF assms(2,3)] and q2 = stats_request [OF assms(2,4)]
  obtain l where l: "links w i = Some (l\<lparr>to_client := respond 1 ?r1\<rparr>)" and il: "idle_link l"
    using assms(1) by (auto simp: answer_waits_def)
  have w: "whole_send (next_send w)" "data_nodes w i = Some n" "arrivals w = []"
    using assms(1) by (simp_all add: answer_waits_def)
  let ?l2 = "l\<lparr>to_client := respond 1 ?r1 @ respond 1 ?r2\<rparr>"
  let ?w3 = "w\<lparr>sends := tl (sends w), data_nodes := (data_nodes w)(i \<mapsto> n), links := (links w)(i \<mapsto> ?l2)\<rparr>"
  have send: "link_send i (EncodeCustomRequest 1 (range_payload OP_TABLET_STATS s2 e2)) w = (SendDone, ?w3)"
    using link_send_answer [OF l _ _ _ w(1,2) q2(2,1)] il by (simp add: idle_link_def)
  obtain w4 where recv: "link_recv i 3000 ?w3 = (Some (respond 1 ?r1), w4)"
    using link_recv_answer [of ?w3 i ?l2 3000 1 ?r1 "respond 1 ?r2"] il w(3) q1(3,4)
    by (auto simp: next_arrival_def prompt_def idle_link_def)
  have "TryDecode (respond 1 ?r1)
      = Some (10 + length (response_payload (hd ?r1) (tl ?r1)), Some (1, response_payload (hd ?r1) (tl ?r1)))"
    using TryDecode_frame [OF respond_fits [OF q1(4,3)], of 1 "[]"] by (simp add: respond_frame [OF q1(4)])
  then have "call (cluster_env dump) i (range_payload OP_TABLET_STATS s2 e2) 3000 w
      = Some (Some (response_payload (hd ?r1) (tl ?r1)), w4)"
    using send recv by (simp add: call_def cluster_env_def)
  then have "QueryTabletStats (cluster_env dump) i s2 e2 w
      = Some (Some (ucast (of_nat (length (node_pairs n s1 e1)) :: u32), node_median n s1 e1), w4)"
    using QueryTabletStats_response [OF link_connected_idle [OF l il] range_fits_median [OF assms(3)]]
    by (simp add: stats_answer_def)
  then show ?thesis by blast
qed

text \<open>Property C29 (a late answer is taken for the next one). The balancer numbers all its requests 1
  and never compares the number of an answer. When the answer to a statistics request arrives only
  after the receive call gave up, that request fails, and the next statistics request to the same
  node, for another range, is told the key count and median key of the first range.\<close>
theorem stale_statistics:
  assumes "healthy (w\<lparr>arrivals := []\<rparr>)" "arrivals w = [([], False)]"
    and "data_nodes w i = Some n" "data_node n" "range_fits n s1 e1" "range_fits n s2 e2"
  shows "\<exists>w1 w2. QueryTabletStats (cluster_env dump) i s1 e1 w = Some (None, w1)
    \<and> QueryTabletStats (cluster_env dump) i s2 e2 w1
      = Some (Some (ucast (of_nat (length (node_pairs n s1 e1)) :: u32), node_median n s1 e1), w2)"
  using late_answer [OF assms(1-5)] waiting_answer_taken [OF _ assms(4-6)] by blast

section \<open>The remaining witnesses\<close>

lemma sample_pairs_2 [simp]: "node_pairs sample_node [98] [109] = [([98], [2])]"
proof -
  have "takeWhile (\<lambda>p. before_end [109] (fst p)) (db_scan [98] sample_db) = [([98], [2])]"
    by code_simp
  then show ?thesis by (simp add: node_pairs_def ldb.range_pairs_def)
qed

lemma sample_node_map: "node_get sample_node = [[97] \<mapsto> [1], [98] \<mapsto> [2]]"
proof -
  have "takeWhile (\<lambda>p. before_end [] (fst p)) (db_scan [] sample_db) = [([97], [1]), ([98], [2])]"
    by code_simp
  then have "node_pairs sample_node [] [] = [([97], [1]), ([98], [2])]"
    by (simp add: node_pairs_def ldb.range_pairs_def)
  then have "node_get sample_node k = map_of [([97], [1]), ([98], [2])] k" for k
    using node_pairs_map [of sample_node "[]" "[]" k] by (simp add: in_range_def)
  then show ?thesis by auto
qed

lemma empty_node_map: "node_get (sample_node\<lparr>self_id := i, storage := Some DB_Open\<rparr>) = Map.empty"
  by (auto simp: node_get_def DB_Get_def DB_Open_def MemTable_Get_def MemTable_Seek_def)

lemma sample_store:
  "placed (tablets sample_master) (data_nodes (sample_cluster DB_Open))"
  "store_map (tablets sample_master) (data_nodes (sample_cluster DB_Open)) = [[97] \<mapsto> [1], [98] \<mapsto> [2]]"
  "map_fits (store_map (tablets sample_master) (data_nodes (sample_cluster DB_Open)))"
  "\<forall>b \<in> boundaries (tablets sample_master). length b < 2 ^ 16"
proof -
  have wr: "node_writable sample_node" "node_writable (sample_node\<lparr>self_id := 3, storage := Some DB_Open\<rparr>)"
    by code_simp+
  have ts: "tablets sample_master = [\<lparr>tablet_id = 1, start_key = [], end_key = lit ''m'', node_id = 2, key_count = 9\<rparr>,
     \<lparr>tablet_id = 2, start_key = lit ''m'', end_key = [], node_id = 3, key_count = 0\<rparr>]"
    by (simp add: sample_master_def)
  have nodes: "data_nodes (sample_cluster DB_Open)
      = [2 \<mapsto> sample_node, 3 \<mapsto> sample_node\<lparr>self_id := 3, storage := Some DB_Open\<rparr>]"
    by (simp add: sample_cluster_def)
  show "placed (tablets sample_master) (data_nodes (sample_cluster DB_Open))"
    using wr sample_facts(3) sample_facts(4) [of DB_Open] sample_facts(6)
    by (auto simp: placed_def ts nodes sample_node_map empty_node_map in_range_def lit_def split: if_splits)
  show M: "store_map (tablets sample_master) (data_nodes (sample_cluster DB_Open)) = [[97] \<mapsto> [1], [98] \<mapsto> [2]]"
    by (auto simp: fun_eq_iff store_map_def ts nodes sample_node_map empty_node_map in_range_def lit_def)
  show "map_fits (store_map (tablets sample_master) (data_nodes (sample_cluster DB_Open)))"
    by (simp add: M map_fits_def map_bytes_def entry_fits_def)
  show "\<forall>b \<in> boundaries (tablets sample_master). length b < 2 ^ 16"
    by (simp add: boundaries_def ts)
qed

theorem balancer_keeps_map_witness:
  "\<exists>n' w'. BalancerLoop (cluster_env sample_dump) 3 sample_master (sample_cluster DB_Open) = Some (n', w')
    \<and> cluster_get n' (data_nodes w') [97] = Some [1]"
proof -
  have "cluster_get sample_master (data_nodes (sample_cluster DB_Open)) [97] = Some [1]" by code_simp
  then show ?thesis
    using balancer_keeps_map [OF sample_dump_documented sample_cluster_healthy sample_store(1,3,4), of 3]
      sample_store(2) by (auto simp: utf8_ascii)
qed

theorem balancer_settles_witness:
  "\<exists>enough ts. settled [[97] \<mapsto> [1], [98] \<mapsto> [2]] ts
    \<and> (\<forall>rounds \<ge> enough. \<exists>n' w'.
         BalancerLoop (cluster_env sample_dump) rounds sample_master (sample_cluster DB_Open) = Some (n', w')
         \<and> list_all2 same_ranges ts (tablets n') \<and> cluster_get n' (data_nodes w') [97] = Some [1])"
proof -
  have M: "cluster_get sample_master (data_nodes (sample_cluster DB_Open)) = [[97] \<mapsto> [1], [98] \<mapsto> [2]]"
    using cluster_get_store_map [of sample_master] sample_facts(6) sample_store(2) by metis
  have "map_fits (cluster_get sample_master (data_nodes (sample_cluster DB_Open)))"
    using sample_store(2,3) M by metis
  moreover have "\<forall>k \<in> boundaries (tablets sample_master)
      \<union> dom (cluster_get sample_master (data_nodes (sample_cluster DB_Open))). utf8 k"
    by (auto simp: M utf8_ascii split: if_splits)
  ultimately show ?thesis
    using balancer_settles [OF sample_dump_documented sample_cluster_healthy sample_store(1) _ sample_store(4)]
    unfolding M by fastforce
qed

theorem stale_statistics_witness:
  "\<exists>w1 w2. QueryTabletStats (cluster_env sample_dump) 2 [] [109]
        (sample_cluster DB_Open\<lparr>arrivals := [([], False)]\<rparr>) = Some (None, w1)
    \<and> QueryTabletStats (cluster_env sample_dump) 2 [98] [109] w1 = Some (Some (2, [98]), w2)"
proof -
  have "healthy (sample_cluster DB_Open\<lparr>arrivals := [([], False)], arrivals := []\<rparr>)"
    using sample_cluster_healthy [of DB_Open] by (simp add: healthy_def)
  moreover have "range_fits sample_node [98] [109]"
    by (simp add: range_fits_def entry_fits_def scan_body_def)
  moreover have "data_nodes (sample_cluster DB_Open\<lparr>arrivals := [([], False)]\<rparr>) 2 = Some sample_node"
    by simp
  ultimately show ?thesis
    using stale_statistics [of "sample_cluster DB_Open\<lparr>arrivals := [([], False)]\<rparr>" 2
        sample_node "[]" "[109]" "[98]" "[109]" sample_dump]
    by (simp add: node_median_def)
qed

text \<open>A balancer without connections goes through a round.\<close>

lemma sample_cut_off_round:
  "\<exists>r. BalancerLoop (cluster_env sample_dump) 1 sample_master (sample_cluster DB_Open\<lparr>links := Map.empty\<rparr>) = Some r"
proof -
  let ?env = "cluster_env sample_dump" and ?w = "sample_cluster DB_Open\<lparr>links := Map.empty\<rparr>"
  have try_split: "TrySplitTablet ?env i sample_master ?w = Some (False, sample_master, ?w)" for i
    by (simp add: TrySplitTablet_def QueryTabletStats_def cluster_env_def link_connected_def Let_def)
  have sync: "SyncAllTabletStats ?env ts ?w = Some (ts, ?w)" for ts
    by (induction ts) (simp_all add: QueryTabletStats_def cluster_env_def link_connected_def)
  have split: "split_loop ?env i sample_master ?w = Some (sample_master, ?w)" for i
  proof (induction "length (tablets sample_master) - i" arbitrary: i)
    case 0
    then show ?case by (subst split_loop.simps) simp
  next
    case (Suc k)
    then show ?case by (subst split_loop.simps) (simp add: try_split)
  qed
  have "map_option fst (DoLoadBalance ?env sample_master ?w) = Some False" by code_simp
  then show ?thesis
    by (auto simp: balancer_round_def sync split)
qed

theorem BalancerLoop_keeps_table_witness:
  "\<exists>n' w'. BalancerLoop (cluster_env sample_dump) 1 sample_master
      (sample_cluster DB_Open\<lparr>links := Map.empty\<rparr>) = Some (n', w')
    \<and> tablets_partition (tablets n')
    \<and> node_id ` set (tablets n') \<subseteq> node_id ` set (tablets sample_master)"
proof -
  obtain n' w' where "BalancerLoop (cluster_env sample_dump) 1 sample_master
      (sample_cluster DB_Open\<lparr>links := Map.empty\<rparr>) = Some (n', w')"
    using sample_cut_off_round by auto
  with BalancerLoop_keeps_table [OF _ this] sample_facts(6) show ?thesis by blast
qed

end
