(* ===== verification/Connections.thy ===== *)
theory Connections
  imports Cluster
begin

text \<open>
  The master's connections. The constructor of \<open>RaftNode\<close> connects to every data node once
  (\<open>src/src/kv/raft_node.cpp\<close>) and nothing connects again: when every data node is up the cluster
  is healthy, and a node that was down keeps its tablets, and stops the balancer when it has the
  least keys.
\<close>

section \<open>The connections of the constructor\<close>

text \<open>The loop over the peers; \<open>sock\<close> is what \<open>socket()\<close> gives for a peer and \<open>up\<close> whether
  \<open>connect()\<close> works. \<open>node_clients_\<close> is keyed by the id as a \<open>uint32_t\<close>, and a later peer with
  the same id replaces the earlier.\<close>

definition new_link :: "rpc_client \<Rightarrow> link" where
  "new_link c = \<lparr>client = c, server_buf = [], to_client = [], ended = False\<rparr>"

fun connect_peers :: "(peer_info \<Rightarrow> int) \<Rightarrow> (peer_info \<Rightarrow> bool) \<Rightarrow> peer_info list
    \<Rightarrow> (u32 \<Rightarrow> link option) \<Rightarrow> u32 \<Rightarrow> link option" where
  "connect_peers sock up [] ls = ls"
| "connect_peers sock up (p # ps) ls =
     (if peer_port p = LEADER_PORT then connect_peers sock up ps ls
      else (case Connect (sock p) (up p) new_client of
          (True, c) \<Rightarrow> connect_peers sock up ps (ls(ucast (peer_id p) \<mapsto> new_link c))
        | (False, _) \<Rightarrow> connect_peers sock up ps ls))"

lemma connect_peers_links:
  "connect_peers sock up ps ls i = Some l \<Longrightarrow> ls i = Some l \<or>
     (\<exists>p \<in> set ps. ucast (peer_id p) = i \<and> peer_port p \<noteq> LEADER_PORT \<and> 0 \<le> sock p \<and> up p
        \<and> l = new_link \<lparr>client_fd = sock p, client_buf = []\<rparr>)"
proof (induction sock up ps ls rule: connect_peers.induct)
  case (2 sock up p ps ls)
  obtain ok c where c: "Connect (sock p) (up p) new_client = (ok, c)" by fastforce
  have cc: "ok \<Longrightarrow> 0 \<le> sock p \<and> up p \<and> c = \<lparr>client_fd = sock p, client_buf = []\<rparr>"
    using c by (auto simp: Connect_def Close_def new_client_def Let_def split: if_splits)
  show ?case
  proof (cases "peer_port p = LEADER_PORT \<or> \<not> ok")
    case True
    with 2 c show ?thesis by (cases "peer_port p = LEADER_PORT") auto
  next
    case False
    then have s: "Connect (sock p) (up p) new_client = (True, c)" and p: "peer_port p \<noteq> LEADER_PORT"
      using c by simp_all
    have "connect_peers sock up ps (ls(ucast (peer_id p) \<mapsto> new_link c)) i = Some l"
      using "2.prems" s p by simp
    from "2.IH"(2) [OF p s [symmetric] refl this] have "(ls(ucast (peer_id p) \<mapsto> new_link c)) i = Some l
      \<or> (\<exists>p \<in> set ps. ucast (peer_id p) = i \<and> peer_port p \<noteq> LEADER_PORT \<and> 0 \<le> sock p \<and> up p
          \<and> l = new_link \<lparr>client_fd = sock p, client_buf = []\<rparr>)" .
    then show ?thesis using False cc p by (cases "ucast (peer_id p) = i") auto
  qed
qed simp

lemma connect_peers_idle:
  assumes "connect_peers sock up ps Map.empty i = Some l"
  shows "idle_link l"
  using connect_peers_links [OF assms] by (auto simp: idle_link_def new_link_def)

lemma connect_peers_kept: "ls i \<noteq> None \<Longrightarrow> connect_peers sock up ps ls i \<noteq> None"
proof (induction ps arbitrary: ls)
  case (Cons p ps)
  obtain ok c where c: "Connect (sock p) (up p) new_client = (ok, c)" by fastforce
  have "connect_peers sock up ps (ls(ucast (peer_id p) \<mapsto> new_link c)) i \<noteq> None"
    by (rule Cons.IH) (use Cons.prems in simp)
  moreover have "connect_peers sock up ps ls i \<noteq> None" by (rule Cons.IH) (use Cons.prems in simp)
  ultimately show ?case using c by (cases ok) simp_all
qed simp

lemma connect_peers_up:
  assumes "p \<in> set ps" "peer_port p \<noteq> LEADER_PORT" "0 \<le> sock p" "up p"
  shows "connect_peers sock up ps ls (ucast (peer_id p)) \<noteq> None"
  using assms(1)
proof (induction ps arbitrary: ls)
  case (Cons q qs)
  obtain ok c where c: "Connect (sock q) (up q) new_client = (ok, c)" by fastforce
  show ?case
  proof (cases "p = q")
    case True
    then have "ok" using c assms(3,4) by (auto simp: Connect_def Let_def split: if_splits)
    with True c assms(2) show ?thesis by (simp add: connect_peers_kept)
  next
    case False
    with Cons c show ?thesis by (cases ok) auto
  qed
qed simp

text \<open>A world in which nothing fails, whatever the links are.\<close>

definition calm_world :: "cluster \<Rightarrow> bool" where
  "calm_world w \<longleftrightarrow> (\<forall>p \<in> set (arrivals w). prompt p)
     \<and> (\<forall>ss \<in> set (sends w). whole_send ss)"

lemma connected_healthy:
  assumes "calm_world w" "links w = connect_peers sock up ps Map.empty"
    and "\<forall>i. ns i \<noteq> None \<longrightarrow> (\<exists>p \<in> set ps. ucast (peer_id p) = i \<and> peer_port p \<noteq> LEADER_PORT \<and> 0 \<le> sock p \<and> up p)"
  shows "healthy (w\<lparr>data_nodes := ns\<rparr>)"
  unfolding healthy_def
proof (intro conjI allI impI)
  fix i l
  assume "links (w\<lparr>data_nodes := ns\<rparr>) i = Some l"
  then show "idle_link l" using connect_peers_idle [of sock up ps i l] assms(2) by simp
next
  fix i
  assume "data_nodes (w\<lparr>data_nodes := ns\<rparr>) i \<noteq> None"
  then obtain p where p: "p \<in> set ps" "ucast (peer_id p) = i" "peer_port p \<noteq> LEADER_PORT" "0 \<le> sock p" "up p"
    using assms(3) by auto
  have "connect_peers sock up ps Map.empty (ucast (peer_id p)) \<noteq> None"
    by (rule connect_peers_up [where sock = sock and up = up, OF p(1,3-5)])
  then show "links (w\<lparr>data_nodes := ns\<rparr>) i \<noteq> None" using assms(2) p(2) by simp
qed (use assms(1) in \<open>simp_all add: calm_world_def\<close>)

section \<open>What the balancer cannot change in its environment\<close>

text \<open>A fact about the world that no request, answer or save changes stays through every part of
  the balancer.\<close>

locale env_invariant =
  fixes env :: "('w, 'z) env_scheme" and P :: "'w \<Rightarrow> bool"
  assumes send_inv: "P w \<Longrightarrow> P (snd (net_send env i d w))"
    and recv_inv: "P w \<Longrightarrow> P (snd (net_recv env i t w))"
    and save_inv: "P w \<Longrightarrow> save env n w = Some w' \<Longrightarrow> P w'"
begin

lemma send_fact: "net_send env i d w = (ok, w') \<Longrightarrow> P w \<Longrightarrow> P w'"
  using send_inv [of w i d] by simp

lemma recv_fact: "net_recv env i t w = (f, w') \<Longrightarrow> P w \<Longrightarrow> P w'"
  using recv_inv [of w i t] by simp

lemma call_inv: "call env i p t w = Some (r, w') \<Longrightarrow> P w \<Longrightarrow> P w'"
  by (auto simp: call_def split: prod.splits send_result.splits option.splits bind_splits
      dest: send_fact recv_fact)

lemma QueryTabletStats_inv: "QueryTabletStats env i s e w = Some (r, w') \<Longrightarrow> P w \<Longrightarrow> P w'"
  by (auto simp: QueryTabletStats_def split: if_splits bind_splits option.splits dest: call_inv)

lemma SyncAllTabletStats_inv: "SyncAllTabletStats env ts w = Some (us, w') \<Longrightarrow> P w \<Longrightarrow> P w'"
proof (induction ts arbitrary: w us)
  case (Cons t ts)
  from Cons.prems(1) obtain r w1 vs where q: "QueryTabletStats env (node_id t) (start_key t) (end_key t) w = Some (r, w1)"
    "SyncAllTabletStats env ts w1 = Some (vs, w')" by (auto split: bind_splits)
  from Cons.IH [OF q(2)] QueryTabletStats_inv [OF q(1)] Cons.prems(2) show ?case by blast
qed simp

lemma TrySplitTablet_inv: "TrySplitTablet env idx n w = Some (ok, n', w') \<Longrightarrow> P w \<Longrightarrow> P w'"
  by (simp add: TrySplitTablet_def Let_def split: if_splits bind_splits option.splits prod.splits)
    ((elim disjE conjE exE)?; use QueryTabletStats_inv save_inv in \<open>metis\<close>)+

lemma transfer_loop_inv: "transfer_loop env dst p c i pos tr w = Some (r, w') \<Longrightarrow> P w \<Longrightarrow> P w'"
proof (induction c arbitrary: i pos tr w)
  case (Suc left)
  show ?case
  proof (cases "\<exists>tr' i' pos' w1. P w1 \<and> transfer_loop env dst p left i' pos' tr' w1 = Some (r, w')")
    case True
    then show ?thesis using Suc.IH by blast
  next
    case False
    have go: "P w'" if "net_send env dst f w = (ok, w1)" "ok \<noteq> SendKilled" "ok = SendDone \<longrightarrow> (\<exists>fr w2. net_recv env dst 5000 w1 = (fr, w2)
        \<and> transfer_loop env dst p left i' pos' tr' w2 = Some (r, w'))"
      "ok = SendFailed \<longrightarrow> transfer_loop env dst p left i' pos' tr' w1 = Some (r, w')" for f ok w1 i' pos' tr'
      using that False send_fact [OF that(1) Suc.prems(2)] recv_fact by (cases ok) blast+
    show ?thesis
      using Suc.prems(1) go Suc.prems(2)
      by (auto simp: Let_def split: if_splits bind_splits prod.splits send_result.splits option.splits)
  qed
qed simp

lemma SendDeleteRange_inv: "SendDeleteRange env i s e w = Some (r, w') \<Longrightarrow> P w \<Longrightarrow> P w'"
  by (simp add: SendDeleteRange_def split: if_splits bind_splits option.splits prod.splits)
    ((elim disjE conjE exE)?; use call_inv in \<open>metis\<close>)+

lemma ScanAndTransferData_inv: "ScanAndTransferData env src dst s e w = Some (r, w') \<Longrightarrow> P w \<Longrightarrow> P w'"
  by (simp add: ScanAndTransferData_def split: if_splits bind_splits option.splits prod.splits)
    ((elim disjE conjE exE)?; use call_inv transfer_loop_inv in \<open>metis\<close>)+

lemma MigrateTablet_inv: "MigrateTablet env idx dst n w = Some (ok, n', w') \<Longrightarrow> P w \<Longrightarrow> P w'"
  by (simp add: MigrateTablet_def Let_def split: if_splits bind_splits prod.splits)
    ((elim disjE conjE exE)?; use ScanAndTransferData_inv SendDeleteRange_inv save_inv in \<open>metis\<close>)+

lemma DoLoadBalance_inv:
  assumes "DoLoadBalance env n w = Some (ok, n', w')" "P w"
  shows "P w'"
proof (cases rule: DoLoadBalance_target [of env n w])
  case idle
  with assms show ?thesis by simp
next
  case (tried idx dst)
  with assms MigrateTablet_inv show ?thesis by (auto split: option.splits)
qed

lemma split_loop_inv:
  assumes "split_loop env i n w = Some r" "P w"
  shows "P (snd r)"
  using assms by (induction rule: split_loop_induct) (auto dest: TrySplitTablet_inv)

lemma balancer_round_inv: "balancer_round env n w = Some (n', w') \<Longrightarrow> P w \<Longrightarrow> P w'"
  by (simp add: balancer_round_def split: bind_splits prod.splits)
    (use SyncAllTabletStats_inv split_loop_inv DoLoadBalance_inv in \<open>metis snd_conv\<close>)

end

section \<open>A node that is cut off\<close>

definition tablets_of :: "u32 \<Rightarrow> tablet list \<Rightarrow> tablet list" where
  "tablets_of i ts = filter (\<lambda>t. node_id t = i) ts"

lemma tablets_of_append [simp]: "tablets_of i (ts @ us) = tablets_of i ts @ tablets_of i us"
  by (simp add: tablets_of_def)

lemma tablets_of_update:
  "idx < length ts \<Longrightarrow> node_id (ts ! idx) \<noteq> i \<Longrightarrow> node_id u \<noteq> i \<Longrightarrow> tablets_of i (ts[idx := u]) = tablets_of i ts"
proof (induction ts arbitrary: idx)
  case (Cons t ts)
  then show ?case by (cases idx) (simp_all add: tablets_of_def)
qed simp

locale cut_off = env_invariant env P for env :: "('w, 'z) env_scheme" and P +
  fixes i :: u32
  assumes cut: "P w \<Longrightarrow> \<not> is_connected env i w"
begin

lemma sync_frozen:
  assumes "SyncAllTabletStats env ts w = Some (us, w')" "P w"
  shows "tablets_of i us = tablets_of i ts"
  using assms
proof (induction ts arbitrary: w us)
  case (Cons t ts)
  from Cons.prems(1) obtain r w1 vs where q: "QueryTabletStats env (node_id t) (start_key t) (end_key t) w = Some (r, w1)"
    "SyncAllTabletStats env ts w1 = Some (vs, w')"
    "us = (case r of None \<Rightarrow> t | Some (kc, _) \<Rightarrow> if key_count t \<noteq> kc then t\<lparr>key_count := kc\<rparr> else t) # vs"
    by (auto simp: Let_def split: bind_splits)
  have "r = None" if "node_id t = i"
    using q(1) cut [OF Cons.prems(2)] that by (simp add: QueryTabletStats_def)
  then show ?case
    using Cons.IH [OF q(2) QueryTabletStats_inv [OF q(1) Cons.prems(2)]] q(3)
    by (cases "node_id t = i") (auto simp: tablets_of_def split: option.split)
qed simp

lemma split_frozen:
  assumes "TrySplitTablet env idx n w = Some (ok, n', w')" "P w"
  shows "tablets_of i (tablets n') = tablets_of i (tablets n)"
  using assms(1)
proof (cases rule: TrySplitTablet_cases)
  case (split xs t ys m kc)
  then have "node_id t \<noteq> i"
    using cut [OF assms(2)] by (auto simp: QueryTabletStats_def)
  then show ?thesis by (simp add: split(2,7) tablets_of_def)
qed simp

lemma split_loop_frozen:
  assumes "split_loop env idx n w = Some r" "P w"
  shows "tablets_of i (tablets (fst r)) = tablets_of i (tablets n)"
  using assms
proof (induction rule: split_loop_induct)
  case (split idx n w ok n' w' r)
  with TrySplitTablet_inv split_frozen show ?case by metis
qed simp_all

lemma migrate_stays:
  assumes "P w" "dst = i \<or> idx < length (tablets n) \<and> node_id (tablets n ! idx) = i"
  shows "MigrateTablet env idx dst n w = Some (False, n, w)"
  using cut [OF assms(1)] assms(2) by (auto simp: MigrateTablet_def ScanAndTransferData_def Let_def)

lemma migrate_frozen:
  assumes "MigrateTablet env idx dst n w = Some (ok, n', w')" "P w"
  shows "tablets_of i (tablets n') = tablets_of i (tablets n)"
  using assms(1)
proof (cases rule: MigrateTablet_cases)
  case (moved t w1 w2 dok)
  have "dst \<noteq> i" "node_id t \<noteq> i"
    using migrate_stays [OF assms(2), of dst idx n] assms(1) moved(1-3) by auto
  then have "tablets_of i ((tablets n)[idx := t\<lparr>node_id := dst\<rparr>]) = tablets_of i (tablets n)"
    using moved(2,3) by (intro tablets_of_update) simp_all
  then show ?thesis unfolding moved(5) by simp
qed simp

text \<open>A balancing step does nothing to the node's tablets, and nothing at all when the node is the
  one with the least keys.\<close>

lemma balance_frozen:
  assumes "DoLoadBalance env n w = Some (ok, n', w')" "P w"
  shows "tablets_of i (tablets n') = tablets_of i (tablets n)"
proof (cases rule: DoLoadBalance_target [of env n w])
  case idle
  with assms show ?thesis by simp
next
  case (tried idx dst)
  with assms migrate_frozen show ?thesis by (auto split: option.splits)
qed

lemma balance_blocked:
  assumes "P w" "i \<in> node_id ` set (tablets n)"
    and "\<forall>j \<in> node_id ` set (tablets n). j \<noteq> i \<longrightarrow> load_of (tablets n) i < load_of (tablets n) j"
  shows "\<exists>n'. DoLoadBalance env n w = Some (False, n', w) \<and> tablets n' = tablets n \<and> epoch n' = epoch n"
proof (cases rule: DoLoadBalance_target [of env n w])
  case idle
  then show ?thesis by simp
next
  case (tried idx dst)
  then have "dst \<in> node_id ` set (tablets n)" "load_of (tablets n) dst \<le> load_of (tablets n) i"
    using assms(2) unfolding balance_target_def by blast+
  then have "dst = i" using assms(3) by (auto simp: not_le [symmetric])
  then show ?thesis using tried(2) migrate_stays [OF assms(1)] by simp
qed

lemma round_frozen:
  assumes "balancer_round env n w = Some (n', w')" "P w"
  shows "tablets_of i (tablets n') = tablets_of i (tablets n)"
proof -
  from assms(1) obtain ts w1 n2 w2 ok where r:
    "SyncAllTabletStats env (tablets n) w = Some (ts, w1)"
    "split_loop env 0 (n\<lparr>tablets := ts\<rparr>) w1 = Some (n2, w2)"
    "DoLoadBalance env n2 w2 = Some (ok, n', w')"
    by (auto simp: balancer_round_def split: bind_splits)
  have w: "P w1" "P w2"
    using SyncAllTabletStats_inv [OF r(1) assms(2)] split_loop_inv [OF r(2)] by simp_all
  from sync_frozen [OF r(1) assms(2)] split_loop_frozen [OF r(2) w(1)] balance_frozen [OF r(3) w(2)]
  show ?thesis by simp
qed

lemma loop_frozen:
  assumes "BalancerLoop env rounds n w = Some (n', w')" "P w"
  shows "P w' \<and> tablets_of i (tablets n') = tablets_of i (tablets n)"
  using assms
proof (induction rounds arbitrary: n w)
  case (Suc rounds)
  then obtain n1 w1 where r: "balancer_round env n w = Some (n1, w1)"
    "BalancerLoop env rounds n1 w1 = Some (n', w')" by (auto split: bind_splits)
  from Suc.IH [OF r(2) balancer_round_inv [OF r(1) Suc.prems(2)]] round_frozen [OF r(1) Suc.prems(2)]
  show ?case by simp
qed simp

end

section \<open>In the cluster\<close>

lemma RecvFrame_fd: "client_fd (fst (snd (RecvFrame t c es))) = client_fd c"
  by (auto simp: RecvFrame_def RecvAll_def split: prod.split option.split bool.split)

lemma link_connected_send: "link_connected i (snd (link_send j d w)) = link_connected i w"
  by (auto simp: link_send_def link_connected_def Let_def split: option.split prod.split)

lemma link_connected_recv: "link_connected i (snd (link_recv j t w)) = link_connected i w"
proof (cases "links w j")
  case (Some l)
  obtain es rest where a: "arriving (next_arrival w) (to_client l) = (es, rest)" by fastforce
  obtain f c es' where r: "RecvFrame t (client l) (es @ (if ended l \<and> rest = [] then [Eof] else [])) = (f, c, es')"
    by (metis prod_cases3)
  have "client_fd c = client_fd (client l)"
    using RecvFrame_fd [of t "client l" "es @ (if ended l \<and> rest = [] then [Eof] else [])"] r by simp
  with Some a r show ?thesis by (simp add: link_recv_def link_connected_def IsConnected_def)
qed (simp add: link_recv_def)

lemma link_connected_save: "link_save dump n w = Some w' \<Longrightarrow> link_connected i w' = link_connected i w"
  by (auto simp: link_save_def link_connected_def Let_def split: if_splits prod.splits)

interpretation apart: cut_off "cluster_env dump" "\<lambda>w. \<not> link_connected i w" i
  by unfold_locales
    (simp_all add: cluster_env_def link_connected_send link_connected_recv link_connected_save)

text \<open>A split at a key that is not UTF-8. The library throws in \<open>SaveTablets\<close>, nothing in the balancer
  thread catches it, and the master's process ends.\<close>

lemma link_saves_send: "saves (snd (link_send j d w)) = saves w"
  by (auto simp: link_send_def Let_def split: option.split prod.split)

lemma link_saves_recv: "saves (snd (link_recv j t w)) = saves w"
  by (auto simp: link_recv_def split: option.split prod.split)

interpretation saving: env_invariant "cluster_env dump" "\<lambda>w. saves w = []"
proof
  show "saves w' = []" if "saves w = []" "save (cluster_env dump) n w = Some w'" for w n w'
    using that by (auto simp: cluster_env_def link_save_def Let_def split: if_splits prod.splits)
qed (simp_all add: cluster_env_def link_saves_send link_saves_recv)

lemma unprintable_save:
  assumes "saves w = []" "IsMaster n" "dump (tablets_json n) = None"
  shows "link_save dump n w = None"
  using assms by (simp add: link_save_def next_save_def SaveTablets_def Let_def)

lemma split_at_bad_key:
  assumes "documented_dump dump" "healthy w" "saves w = []" "IsMaster n"
    and "idx < length (tablets n)" "t = tablets n ! idx" "SPLIT_THRESHOLD \<le> key_count t"
    and "data_nodes w (node_id t) = Some d" "data_node d" "range_fits d (start_key t) (end_key t)"
    and "2 \<le> length (node_pairs d (start_key t) (end_key t))" "\<not> utf8 (node_median d (start_key t) (end_key t))"
  shows "TrySplitTablet (cluster_env dump) idx n w = None"
    and "split_loop (cluster_env dump) idx n w = None"
proof -
  let ?m = "node_median d (start_key t) (end_key t)"
  from ex.QueryTabletStats_ok [OF assms(2,8-10)] obtain c w1 where q:
    "QueryTabletStats (cluster_env dump) (node_id t) (start_key t) (end_key t) w = Some (Some (c, ?m), w1)" by blast
  have "saves w1 = []" by (rule saving.QueryTabletStats_inv [OF q assms(3)])
  then have none: "save (cluster_env dump) (n\<lparr>next_tablet_id := i, tablets := xs @ l # ys, epoch := e\<rparr>) w1 = None"
    if "end_key l = ?m" for i xs l ys e
    using unprintable_save [of w1 "n\<lparr>next_tablet_id := i, tablets := xs @ l # ys, epoch := e\<rparr>" dump]
      documented_dump_table [OF assms(1), of "n\<lparr>next_tablet_id := i, tablets := xs @ l # ys, epoch := e\<rparr>"]
      assms(4,12) that
    by (simp add: cluster_env_def IsMaster_def)
  show "TrySplitTablet (cluster_env dump) idx n w = None"
    using assms(5-7) q node_median_inside [OF assms(9,11)]
    by (simp add: TrySplitTablet_def Let_def none [unfolded assms(6)] not_le [symmetric])
  then show "split_loop (cluster_env dump) idx n w = None"
    using assms(5-7) by (simp add: split_loop.simps [of _ idx])
qed

text \<open>Property C28 (a data node that was down when the master started). If no peer entry with the
  node's id could be connected to by the constructor, the node keeps exactly its tablets, with
  the key counts of the table, however many rounds the balancer runs and whatever comes over the
  network; and in every later state in which it has fewer keys than every other node, a balancing
  step moves no tablet of any node.\<close>
theorem unreachable_node_blocks:
  assumes "links w = connect_peers sock up (peers n) Map.empty"
    and "\<forall>p \<in> set (peers n). ucast (peer_id p) = i \<longrightarrow> \<not> up p"
    and "BalancerLoop (cluster_env dump) rounds n w = Some (n', w')"
  shows "tablets_of i (tablets n') = tablets_of i (tablets n)
    \<and> (i \<in> node_id ` set (tablets n')
       \<and> (\<forall>j \<in> node_id ` set (tablets n'). j \<noteq> i \<longrightarrow> load_of (tablets n') i < load_of (tablets n') j)
       \<longrightarrow> (\<exists>n2. DoLoadBalance (cluster_env dump) n' w' = Some (False, n2, w') \<and> tablets n2 = tablets n'))"
proof -
  have "\<not> link_connected i w"
    using connect_peers_links [of sock up "peers n" Map.empty i] assms(1,2)
    by (auto simp: link_connected_def split: option.split)
  from apart.loop_frozen [OF assms(3) this] apart.balance_blocked [of i w' n' dump] show ?thesis
    by blast
qed

theorem unreachable_node_blocks_witness:
  "(\<exists>n' w'. BalancerLoop (cluster_env sample_dump) 1 sample_master
        (sample_cluster DB_Open\<lparr>links := Map.empty\<rparr>) = Some (n', w')
      \<and> tablets_of 3 (tablets n') = [\<lparr>tablet_id = 2, start_key = lit ''m'', end_key = [], node_id = 3, key_count = 0\<rparr>])
   \<and> (\<exists>n2. DoLoadBalance (cluster_env sample_dump) sample_master (sample_cluster DB_Open\<lparr>links := Map.empty\<rparr>)
        = Some (False, n2, sample_cluster DB_Open\<lparr>links := Map.empty\<rparr>) \<and> tablets n2 = tablets sample_master)"
proof -
  let ?w = "sample_cluster DB_Open\<lparr>links := Map.empty\<rparr>"
  have links: "links ?w = connect_peers (\<lambda>p. 3) (\<lambda>p. False) (peers sample_master) Map.empty"
    by (simp add: sample_master_def Connect_def Close_def Let_def)
  note u = unreachable_node_blocks [OF links, of 3 sample_dump]
  have ts: "tablets sample_master = [\<lparr>tablet_id = 1, start_key = [], end_key = lit ''m'', node_id = 2, key_count = 9\<rparr>,
     \<lparr>tablet_id = 2, start_key = lit ''m'', end_key = [], node_id = 3, key_count = 0\<rparr>]"
    by (simp add: sample_master_def)
  obtain n' w' where r: "BalancerLoop (cluster_env sample_dump) 1 sample_master ?w = Some (n', w')"
    using sample_cut_off_round by auto
  have "tablets_of 3 (tablets n') = [\<lparr>tablet_id = 2, start_key = lit ''m'', end_key = [], node_id = 3, key_count = 0\<rparr>]"
    using u [OF _ r] by (simp add: ts tablets_of_def)
  moreover have "\<exists>n2. DoLoadBalance (cluster_env sample_dump) sample_master ?w = Some (False, n2, ?w)
      \<and> tablets n2 = tablets sample_master"
    using u [of 0 sample_master ?w] by (simp add: ts load_of_def)
  ultimately show ?thesis using r by blast
qed

end
