(* ===== verification/Text_Stream.thy ===== *)
theory Text_Stream
  imports Tablets
begin

text \<open>
  What the text code uses of the C++ library: \<open>std::istringstream\<close> with \<open>>>\<close> and
  \<open>std::getline\<close>, \<open>find_first_not_of\<close>, \<open>tolower\<close>, \<open>toupper\<close> and the
  conversions \<open>stoull\<close>, \<open>stoul\<close> and \<open>stoi\<close>, in the classic locale. The failed read
  that leaves its target as it was, on which the text protocol depends, is in \<open>read_word\<close>.
\<close>

section \<open>Characters\<close>

definition is_space :: "u8 \<Rightarrow> bool" where
  "is_space c \<longleftrightarrow> c = 32 \<or> 9 \<le> c \<and> c \<le> 13"

definition tolower :: "u8 \<Rightarrow> u8" where
  "tolower c = (if 65 \<le> c \<and> c \<le> 90 then c + 32 else c)"

definition toupper :: "u8 \<Rightarrow> u8" where
  "toupper c = (if 97 \<le> c \<and> c \<le> 122 then c - 32 else c)"

lemma is_digit_not_space [simp]: "is_digit c \<Longrightarrow> \<not> is_space c"
  by (auto simp: is_digit_def is_space_def word_le_nat_alt)

section \<open>Input streams\<close>

record istream =
  in_rest :: str
  in_eof :: bool
  in_fail :: bool

definition istringstream :: "str \<Rightarrow> istream" where
  "istringstream s = \<lparr>in_rest = s, in_eof = False, in_fail = False\<rparr>"

abbreviation good :: "istream \<Rightarrow> bool" where
  "good st \<equiv> \<not> in_eof st \<and> \<not> in_fail st"

text \<open>\<open>st >> s\<close>: on a failure the string keeps its old value.\<close>

definition read_word :: "str \<Rightarrow> istream \<Rightarrow> str \<times> istream" where
  "read_word s st =
     (if \<not> good st then (s, st\<lparr>in_fail := True\<rparr>)
      else (let r = dropWhile is_space (in_rest st)
        in if r = [] then (s, \<lparr>in_rest = [], in_eof = True, in_fail = True\<rparr>)
        else (let rest = dropWhile (\<lambda>c. \<not> is_space c) r
          in (takeWhile (\<lambda>c. \<not> is_space c) r,
              \<lparr>in_rest = rest, in_eof = (rest = []), in_fail = False\<rparr>))))"

text \<open>\<open>std::getline(st, s)\<close>.\<close>

definition getline :: "str \<Rightarrow> istream \<Rightarrow> str \<times> istream" where
  "getline s st =
     (if \<not> good st then (s, st\<lparr>in_fail := True\<rparr>)
      else (let r = in_rest st
        in if r = [] then ([], \<lparr>in_rest = [], in_eof = True, in_fail = True\<rparr>)
        else (case dropWhile (\<lambda>c. c \<noteq> 10) r of
                [] \<Rightarrow> (r, \<lparr>in_rest = [], in_eof = True, in_fail = False\<rparr>)
              | _ # rest \<Rightarrow> (takeWhile (\<lambda>c. c \<noteq> 10) r, st\<lparr>in_rest := rest\<rparr>))))"

text \<open>Removing leading spaces the two ways the code does: \<open>erase(0, find_first_not_of(' '))\<close>
  empties a string of spaces, \<open>if (pos != npos) substr(pos)\<close> keeps it.\<close>

definition erase_spaces :: "str \<Rightarrow> str" where
  "erase_spaces s = dropWhile (\<lambda>c. c = 32) s"

definition skip_spaces :: "str \<Rightarrow> str" where
  "skip_spaces s = (if dropWhile (\<lambda>c. c = 32) s = [] then s else dropWhile (\<lambda>c. c = 32) s)"

section \<open>Words of a line\<close>

text \<open>All words that \<open>while (st >> s)\<close> reads.\<close>

function words :: "istream \<Rightarrow> str list" where
  "words st =
     (case read_word [] st of (s, st') \<Rightarrow> if in_fail st' then [] else s # words st')"
  by pat_completeness auto
termination
proof (relation "measure (\<lambda>st. length (in_rest st))")
  fix st s st'
  assume x: "(s, st') = read_word [] st" "\<not> in_fail st'"
  let ?r = "dropWhile is_space (in_rest st)"
  have r: "?r \<noteq> []" "in_rest st' = dropWhile (\<lambda>c. \<not> is_space c) ?r"
    using x by (auto simp: read_word_def Let_def split: if_splits)
  have "\<not> is_space (hd ?r)" using r(1) by (rule hd_dropWhile)
  with r(1) have "length (dropWhile (\<lambda>c. \<not> is_space c) ?r) < length ?r"
    by (cases ?r) (auto simp: less_Suc_eq_le length_dropWhile_le)
  also have "\<dots> \<le> length (in_rest st)" by (rule length_dropWhile_le)
  finally show "(st', st) \<in> measure (\<lambda>st. length (in_rest st))" using r(2) by simp
qed simp

declare words.simps [simp del]

definition is_word :: "str \<Rightarrow> bool" where
  "is_word s \<longleftrightarrow> s \<noteq> [] \<and> (\<forall>c \<in> set s. \<not> is_space c)"

lemma is_word_hd: "is_word s \<Longrightarrow> dropWhile is_space (s @ t) = s @ t"
  by (cases s) (auto simp: is_word_def)

lemma is_word_span:
  assumes "is_word s" "t = [] \<or> is_space (hd t)"
  shows "takeWhile (\<lambda>c. \<not> is_space c) (s @ t) = s" "dropWhile (\<lambda>c. \<not> is_space c) (s @ t) = t"
  using assms by (cases t; auto simp: is_word_def takeWhile_append2 dropWhile_append2)+

lemma read_word_word:
  assumes "is_word s" "t = [] \<or> is_space (hd t)"
  shows "read_word z \<lparr>in_rest = s @ t, in_eof = False, in_fail = False\<rparr>
    = (s, \<lparr>in_rest = t, in_eof = (t = []), in_fail = False\<rparr>)"
  using is_word_span [OF assms] assms(1)
  by (simp add: read_word_def is_word_hd [OF assms(1)] Let_def) (simp add: is_word_def)

lemma read_word_space:
  assumes "is_space c"
  shows "read_word z \<lparr>in_rest = c # t, in_eof = False, in_fail = False\<rparr>
    = read_word z \<lparr>in_rest = t, in_eof = False, in_fail = False\<rparr>"
  using assms by (simp add: read_word_def)

text \<open>Words separated by single spaces.\<close>

fun spaced :: "str list \<Rightarrow> str" where
  "spaced [] = []"
| "spaced [s] = s"
| "spaced (s # t # ss) = s @ [32] @ spaced (t # ss)"

lemma is_space_32 [simp]: "is_space 32"
  by (simp add: is_space_def)

lemma words_done [simp]:
  "words \<lparr>in_rest = s, in_eof = True, in_fail = f\<rparr> = []"
  "words \<lparr>in_rest = s, in_eof = e, in_fail = True\<rparr> = []"
  "words \<lparr>in_rest = [], in_eof = e, in_fail = f\<rparr> = []"
  by (subst words.simps; simp add: read_word_def Let_def)+

lemma words_space:
  "is_space c \<Longrightarrow> words \<lparr>in_rest = c # t, in_eof = False, in_fail = False\<rparr>
    = words \<lparr>in_rest = t, in_eof = False, in_fail = False\<rparr>"
  by (subst (1 2) words.simps) (simp add: read_word_space)

lemma words_word:
  assumes "is_word s" "t = [] \<or> is_space (hd t)"
  shows "words \<lparr>in_rest = s @ t, in_eof = False, in_fail = False\<rparr>
    = s # words \<lparr>in_rest = t, in_eof = False, in_fail = False\<rparr>"
  by (subst words.simps) (use read_word_word [OF assms, of "[]"] in \<open>cases t; simp\<close>)

lemma words_spaced:
  "\<forall>s \<in> set ss. is_word s \<Longrightarrow>
    words \<lparr>in_rest = spaced ss, in_eof = False, in_fail = False\<rparr> = ss"
proof (induction ss rule: spaced.induct)
  case (2 s)
  then show ?case using words_word [of s "[]"] by simp
next
  case (3 s t ss)
  then show ?case by (simp add: words_word words_space)
qed simp

section \<open>Numbers\<close>

definition digit :: "u8 \<Rightarrow> nat" where
  "digit c = unat c - 48"

definition decimal :: "str \<Rightarrow> nat" where
  "decimal s = foldl (\<lambda>n c. 10 * n + digit c) 0 s"

text \<open>An optional sign and the digits after it, with the rest; \<open>None\<close> without a digit.\<close>

definition read_number :: "str \<Rightarrow> (bool \<times> nat \<times> str) option" where
  "read_number s =
     (let r = dropWhile is_space s;
          neg = (r \<noteq> [] \<and> hd r = 45);
          r = (if r \<noteq> [] \<and> (hd r = 43 \<or> hd r = 45) then tl r else r);
          ds = takeWhile is_digit r
      in if ds = [] then None else Some (neg, decimal ds, dropWhile is_digit r))"

text \<open>\<open>strtoull\<close> and \<open>strtoul\<close> (64 bits): a sign negates modulo \<open>2 ^ 64\<close>. \<open>None\<close> is an exception
  of \<open>std::stoull\<close>, or a failed \<open>>>\<close> into a \<open>size_t\<close>.\<close>

definition stoull :: "str \<Rightarrow> (u64 \<times> str) option" where
  "stoull s = (case read_number s of
     None \<Rightarrow> None
   | Some (neg, n, rest) \<Rightarrow>
       if 2 ^ 64 \<le> n then None
       else Some (if neg then - of_nat n else of_nat n, rest))"

definition stoi :: "str \<Rightarrow> int option" where
  "stoi s = (case read_number s of
     None \<Rightarrow> None
   | Some (neg, n, rest) \<Rightarrow>
       (let i = (if neg then - int n else int n)
        in if i < - (2 ^ 31) \<or> 2 ^ 31 \<le> i then None else Some i))"

text \<open>\<open>st >> n\<close> for a \<open>size_t\<close>: the number, or a failed stream.\<close>

definition read_size :: "istream \<Rightarrow> istream" where
  "read_size st =
     (if \<not> good st then st\<lparr>in_fail := True\<rparr>
      else (case stoull (in_rest st) of
              None \<Rightarrow> st\<lparr>in_fail := True\<rparr>
            | Some (n, rest) \<Rightarrow> \<lparr>in_rest = rest, in_eof = (rest = []), in_fail = False\<rparr>))"

lemma decimal_snoc: "decimal (s @ [c]) = 10 * decimal s + digit c"
  by (simp add: decimal_def)

lemma decimal_to_string: "decimal (to_string n) = n"
proof (induction n rule: to_string.induct)
  case (1 n)
  show ?case
  proof (cases "n < 10")
    case True
    then show ?thesis
      by (subst to_string.simps) (simp add: decimal_def digit_def digit_char)
  next
    case False
    with 1 have "decimal (to_string n) = 10 * (n div 10) + digit (48 + of_nat (n mod 10))"
      by (subst to_string.simps) (simp add: decimal_snoc)
    then show ?thesis using digit_char [of "n mod 10"] by (simp add: digit_def)
  qed
qed

lemma to_string_hd: "is_digit (hd (to_string n))"
  by (rule to_string_digits [of _ n]) simp

lemma digit_not_sign: "is_digit c \<Longrightarrow> c \<noteq> 43 \<and> c \<noteq> 45"
  by (auto simp: is_digit_def word_le_nat_alt)

lemma read_number_to_string:
  assumes "t = [] \<or> \<not> is_digit (hd t)"
  shows "read_number (to_string n @ t) = Some (False, n, t)"
proof -
  have d: "\<forall>c \<in> set (to_string n). is_digit c" by (simp add: to_string_digits)
  have sp: "dropWhile is_space (to_string n @ t) = to_string n @ t"
    using to_string_hd [of n] by (cases "to_string n") auto
  have "takeWhile is_digit (to_string n @ t) = to_string n" "dropWhile is_digit (to_string n @ t) = t"
    using d assms by (cases t; auto simp: takeWhile_append2 dropWhile_append2)+
  then show ?thesis
    using digit_not_sign [OF to_string_hd [of n]] sp by (simp add: read_number_def decimal_to_string Let_def)
qed

lemma is_word_to_string: "is_word (to_string n)"
  by (auto simp: is_word_def dest: to_string_digits)

end
