(* ===== verification/Lekv_Cli.thy ===== *)
theory Lekv_Cli
  imports Text_Stream Rpc_Client Node_Server
begin

text \<open>
  The command line client, \<open>src/src/lekv_cli.cpp\<close>: fetching and parsing the routing table,
  routing a key, the request to the data node and the commands. The sockets are the environment
  \<open>os\<close>: what \<open>connect\<close> returns, how the kernel takes the bytes of a \<open>Send\<close> and what arrives
  for a \<open>RecvFrame\<close>. An exception that nothing catches, undefined behaviour, \<open>SIGPIPE\<close>
  and \<open>exit(0)\<close> are the left side of the results.
\<close>

section \<open>Results\<close>

datatype cli_stop = Exit_0 | Uncaught_exception | Undefined_behaviour | Killed_by_SIGPIPE

definition and_then :: "cli_stop + 'a \<Rightarrow> ('a \<Rightarrow> cli_stop + 'b) \<Rightarrow> cli_stop + 'b" where
  "and_then r f = (case r of Inl e \<Rightarrow> Inl e | Inr x \<Rightarrow> f x)"

lemma and_then_simps [simp]:
  "and_then (Inl e) f = Inl e" "and_then (Inr x) f = f x"
  by (simp_all add: and_then_def)

section \<open>The sockets\<close>

record 'w os =
  os_connect :: "str \<Rightarrow> u16 \<Rightarrow> 'w \<Rightarrow> (int \<times> bool) \<times> 'w"
  os_close :: "int \<Rightarrow> 'w \<Rightarrow> 'w"
  os_send_plan :: "int \<Rightarrow> 'w \<Rightarrow> send_event list"
  os_sent :: "int \<Rightarrow> bytes \<Rightarrow> 'w \<Rightarrow> 'w"
  os_recv_plan :: "int \<Rightarrow> 'w \<Rightarrow> recv_event list"
  os_received :: "int \<Rightarrow> recv_event list \<Rightarrow> 'w \<Rightarrow> 'w"

definition cli_close :: "('w, 'z) os_scheme \<Rightarrow> rpc_client \<Rightarrow> 'w \<Rightarrow> rpc_client \<times> 'w" where
  "cli_close os c w = (Close c, if IsConnected c then os_close os (client_fd c) w else w)"

definition cli_connect ::
  "('w, 'z) os_scheme \<Rightarrow> str \<Rightarrow> u16 \<Rightarrow> rpc_client \<Rightarrow> 'w \<Rightarrow> bool \<times> rpc_client \<times> 'w" where
  "cli_connect os ip prt c w =
     (case cli_close os c w of (c, w) \<Rightarrow>
        (case os_connect os ip prt w of ((sock, accepted), w) \<Rightarrow>
           (case Connect sock accepted c of (ok, c) \<Rightarrow> (ok, c, w))))"

section \<open>The client\<close>

record cached_tablet =
  ct_id :: u64
  ct_start :: str
  ct_end :: str
  ct_addr :: str

record cli =
  master_ip :: str
  master_port :: u16
  proxy_conn :: rpc_client
  req_id :: u32

definition Init :: "str \<Rightarrow> u16 \<Rightarrow> cli" where
  "Init ip p = \<lparr>master_ip = ip, master_port = p, proxy_conn = new_client, req_id = 1\<rparr>"

definition NextReqId :: "cli \<Rightarrow> u32 \<times> cli" where
  "NextReqId cli = (req_id cli, cli\<lparr>req_id := req_id cli + 1\<rparr>)"

text \<open>The id and payload of the answer, or \<open>None\<close> where the code returns \<open>false\<close>.\<close>

definition SendAndRecv ::
  "('w, 'z) os_scheme \<Rightarrow> rpc_client \<Rightarrow> bytes \<Rightarrow> 'w
   \<Rightarrow> cli_stop + ((u32 \<times> bytes) option \<times> rpc_client \<times> 'w)" where
  "SendAndRecv os c req w =
     (case Send c req (os_send_plan os (client_fd c) w) of (ok, wire, _) \<Rightarrow>
        (let w = (if wire = [] then w else os_sent os (client_fd c) wire w)
         in if ok = SendKilled then Inl Killed_by_SIGPIPE
         else if ok = SendFailed then Inr (None, c, w)
         else (case RecvFrame 5000 c (os_recv_plan os (client_fd c) w) of (frame, c, es) \<Rightarrow>
           (let w = os_received os (client_fd c) es w
            in case frame of
                 None \<Rightarrow> Inr (None, c, w)
               | Some f \<Rightarrow> (case TryDecode f of
                   None \<Rightarrow> Inl Undefined_behaviour
                 | Some (consumed, decoded) \<Rightarrow> Inr (decoded, c, w))))))"

section \<open>The routing table\<close>

text \<open>The loop over \<open>segment.find(':', pos)\<close>.\<close>

function split_colon :: "str \<Rightarrow> str list" where
  "split_colon s = (case dropWhile (\<lambda>c. c \<noteq> 58) s of
     [] \<Rightarrow> [s]
   | _ # rest \<Rightarrow> takeWhile (\<lambda>c. c \<noteq> 58) s # split_colon rest)"
  by pat_completeness auto
termination
proof (relation "measure length")
  fix s rest :: str and c
  assume "dropWhile (\<lambda>c. c \<noteq> 58) s = c # rest"
  then show "(rest, s) \<in> measure length"
    using length_dropWhile_le [of "\<lambda>c. c \<noteq> 58" s] by simp
qed simp

declare split_colon.simps [simp del]

text \<open>With exactly four parts, \<open>parts[4]\<close> is read out of range.\<close>

fun parse_segments :: "str list \<Rightarrow> cached_tablet list \<Rightarrow> cli_stop + cached_tablet list" where
  "parse_segments [] out = Inr out"
| "parse_segments (segment # segments) out =
     (let parts = split_colon segment
      in if 4 \<le> length parts then
           (case stoull (parts ! 0) of
              None \<Rightarrow> Inl Uncaught_exception
            | Some (i, _) \<Rightarrow>
                if length parts = 4 then Inl Undefined_behaviour
                else parse_segments segments (out @ [\<lparr>ct_id = i, ct_start = parts ! 1,
                       ct_end = parts ! 2, ct_addr = parts ! 3 @ lit '':'' @ parts ! 4\<rparr>]))
         else parse_segments segments out)"

definition parse_table :: "str \<Rightarrow> cli_stop + cached_tablet list" where
  "parse_table body =
     and_then (parse_segments (words (read_size (istringstream body))) [])
       (\<lambda>out. Inr (sort_key ct_start out))"

definition FetchRouteTable ::
  "('w, 'z) os_scheme \<Rightarrow> cli \<Rightarrow> 'w \<Rightarrow> cli_stop + (bool \<times> cached_tablet list \<times> cli \<times> 'w)" where
  "FetchRouteTable os cli w =
     (case (if IsConnected (proxy_conn cli) then (True, proxy_conn cli, w)
            else cli_connect os (master_ip cli) (master_port cli) (proxy_conn cli) w) of (ok, c, w) \<Rightarrow>
      if \<not> ok then Inr (False, [], cli\<lparr>proxy_conn := c\<rparr>, w)
      else (case NextReqId cli of (rid, cli) \<Rightarrow>
        (let req = EncodeRequest rid OP_SHARDS [] []
         in and_then (SendAndRecv os c req w) (\<lambda>(resp, c, w).
           and_then
             (case resp of
                Some r \<Rightarrow> Inr (Some r, c, w)
              | None \<Rightarrow>
                  (case cli_close os c w of (c, w) \<Rightarrow>
                   (case cli_connect os (master_ip cli) (master_port cli) c w of (ok, c, w) \<Rightarrow>
                      if \<not> ok then Inr (None, c, w) else SendAndRecv os c req w)))
             (\<lambda>(resp, c, w).
               let cli = cli\<lparr>proxy_conn := c\<rparr>
               in case resp of
                    None \<Rightarrow> Inr (False, [], cli, w)
                  | Some (resp_req_id, payload) \<Rightarrow>
                      if resp_req_id \<noteq> rid \<or> payload = [] \<or> hd payload \<noteq> ST_OK
                      then Inr (False, [], cli, w)
                      else if length payload < 5 then Inl Undefined_behaviour
                      else and_then (parse_table (drop 5 payload))
                             (\<lambda>out. Inr (out \<noteq> [], out, cli, w)))))))"

section \<open>Routing and requests\<close>

definition FindRoute :: "cached_tablet list \<Rightarrow> str \<Rightarrow> str option" where
  "FindRoute ts key =
     (if ts = [] then None
      else (let left = upper_bound_loop ct_start ts key 0 (length ts)
        in if left = 0 then None
        else (let t = ts ! (left - 1)
          in if ct_end t \<noteq> [] \<and> ct_end t \<le> key then None else Some (ct_addr t))))"

definition DoDataNodeRequest ::
  "('w, 'z) os_scheme \<Rightarrow> cli \<Rightarrow> str \<Rightarrow> u8 \<Rightarrow> str \<Rightarrow> str \<Rightarrow> 'w
   \<Rightarrow> cli_stop + (bool \<times> u8 \<times> str \<times> cli \<times> 'w)" where
  "DoDataNodeRequest os cli addr opcode key value w =
     (case dropWhile (\<lambda>c. c \<noteq> 58) addr of
        [] \<Rightarrow> Inr (False, ST_BAD_REQUEST, lit ''Invalid addr format'', cli, w)
      | _ # port_str \<Rightarrow>
          (let ip = takeWhile (\<lambda>c. c \<noteq> 58) addr
           in case stoi port_str of
                None \<Rightarrow> Inl Uncaught_exception
              | Some p \<Rightarrow>
                  (case cli_connect os ip (of_int p) new_client w of (ok, dn, w) \<Rightarrow>
                   if \<not> ok then
                     Inr (False, ST_TIMEOUT, lit ''Connect to '' @ addr @ lit '' failed'', cli,
                          snd (cli_close os dn w))
                   else (case NextReqId cli of (rid, cli) \<Rightarrow>
                     and_then (SendAndRecv os dn (EncodeRequest rid opcode key value) w)
                       (\<lambda>(resp, dn, w).
                         let w = snd (cli_close os dn w)
                         in case resp of
                              None \<Rightarrow> Inr (False, ST_TIMEOUT, lit ''Recv timeout from '' @ addr, cli, w)
                            | Some (_, payload) \<Rightarrow>
                                if payload = [] then
                                  Inr (False, ST_BAD_REQUEST, lit ''Empty payload'', cli, w)
                                else (case rd32 payload 1 of
                                    None \<Rightarrow> Inr (True, hd payload, [], cli, w)
                                  | Some val_len \<Rightarrow>
                                      if 0 < val_len \<and> unat (5 + val_len) \<le> length payload then
                                        (case subbuf payload 5 (unat val_len) of
                                           None \<Rightarrow> Inl Undefined_behaviour
                                         | Some result \<Rightarrow> Inr (True, hd payload, result, cli, w))
                                      else Inr (True, hd payload, [], cli, w)))))))"

section \<open>Commands\<close>

text \<open>The lines a command prints; the prompt is left out.\<close>

datatype printed = Stdout str | Stderr str

definition print_tablet :: "cached_tablet \<Rightarrow> printed" where
  "print_tablet t = Stdout (lit '' Tablet '' @ to_string (unat (ct_id t)) @ lit '' ['' @ ct_start t
     @ lit '','' @ ct_end t @ lit '') -> '' @ ct_addr t)"

definition print_status :: "str \<Rightarrow> u8 \<Rightarrow> str \<Rightarrow> printed" where
  "print_status cmd status result =
     (if status = ST_OK then
        (if cmd = lit ''get'' then Stdout (if result = [] then lit ''(empty)'' else result)
         else Stdout (lit ''OK''))
      else if status = ST_NOT_FOUND then Stdout (lit ''Key not found'')
      else if status = ST_NOT_MY_SHARD then
        Stderr (lit ''Error: Route stale (NOT_MY_SHARD), the tablet may have just moved. Retry the command.'')
      else Stderr (lit ''Error: status = '' @ to_string (unat status)
             @ (if result = [] then [] else lit '' '' @ result)))"

definition opcode_of :: "str \<Rightarrow> u8" where
  "opcode_of cmd =
     (if cmd = lit ''get'' then OP_GET
      else if cmd = lit ''put'' then OP_PUT
      else if cmd = lit ''delete'' \<or> cmd = lit ''del'' then OP_DELETE
      else OP_GET)"

text \<open>The key and the value of a command: the rest of the line after the key, for \<open>put\<close>.\<close>

definition read_args :: "str \<Rightarrow> istream \<Rightarrow> str \<times> str" where
  "read_args cmd iss =
     (case read_word [] iss of (key, iss) \<Rightarrow>
        (key, if cmd = lit ''put'' then skip_spaces (fst (getline [] iss)) else []))"

definition run_request ::
  "('w, 'z) os_scheme \<Rightarrow> cli \<Rightarrow> str \<Rightarrow> str \<Rightarrow> str \<Rightarrow> 'w
   \<Rightarrow> printed list \<times> (cli_stop + (bool \<times> cli \<times> 'w))" where
  "run_request os cli cmd key value w =
     (case FetchRouteTable os cli w of
        Inl e \<Rightarrow> ([], Inl e)
      | Inr (False, _, cli, w) \<Rightarrow>
          ([Stderr (lit ''Failed to fetch route table from proxy'')], Inr (False, cli, w))
      | Inr (True, ts, cli, w) \<Rightarrow>
          (case FindRoute ts key of
             None \<Rightarrow> ([Stderr (lit ''Failed to find route for key: '' @ key)], Inr (False, cli, w))
           | Some addr \<Rightarrow>
               (case DoDataNodeRequest os cli addr (opcode_of cmd) key value w of
                  Inl e \<Rightarrow> ([], Inl e)
                | Inr (False, _, result, cli, w) \<Rightarrow>
                    ([Stderr (lit ''Error: '' @ result)], Inr (False, cli, w))
                | Inr (True, status, result, cli, w) \<Rightarrow>
                    ([print_status cmd status result], Inr (True, cli, w)))))"

definition Execute ::
  "('w, 'z) os_scheme \<Rightarrow> cli \<Rightarrow> str \<Rightarrow> 'w \<Rightarrow> printed list \<times> (cli_stop + (bool \<times> cli \<times> 'w))" where
  "Execute os cli line w =
     (case read_word [] (istringstream line) of (cmd, iss) \<Rightarrow>
      if cmd = [] then ([], Inr (True, cli, w))
      else (let cmd = map tolower cmd
        in if cmd = lit ''exit'' \<or> cmd = lit ''quit'' then ([Stdout (lit ''Bye!'')], Inl Exit_0)
        else if cmd = lit ''help'' then
          (map Stdout [lit ''Commands:'', lit ''  put <key> <value>'', lit ''  get <key>'',
             lit ''  delete <key>'', lit ''  tablets'', lit ''  exit / quit''], Inr (True, cli, w))
        else if cmd = lit ''tablets'' then
          (case FetchRouteTable os cli w of
             Inl e \<Rightarrow> ([], Inl e)
           | Inr (False, _, cli, w) \<Rightarrow>
               ([Stderr (lit ''Failed to fetch route table from proxy'')], Inr (False, cli, w))
           | Inr (True, ts, cli, w) \<Rightarrow> (map print_tablet ts, Inr (True, cli, w)))
        else (case read_args cmd iss of (key, value) \<Rightarrow>
          if key = [] then ([Stderr (lit ''Error: key is required'')], Inr (False, cli, w))
          else run_request os cli cmd key value w)))"

text \<open>\<open>Run\<close> on the lines of the standard input.\<close>

fun cli_run ::
  "('w, 'z) os_scheme \<Rightarrow> cli \<Rightarrow> str list \<Rightarrow> 'w \<Rightarrow> printed list \<times> (cli_stop + (cli \<times> 'w))" where
  "cli_run os cli [] w = ([], Inr (cli, w))"
| "cli_run os cli (line # lines) w =
     (case Execute os cli line w of
        (out, Inl e) \<Rightarrow> (out, Inl e)
      | (out, Inr (_, cli, w)) \<Rightarrow>
          (case cli_run os cli lines w of (out', r) \<Rightarrow> (out @ out', r)))"

section \<open>The client reads the table the master printed\<close>

definition clean :: "str \<Rightarrow> bool" where
  "clean s \<longleftrightarrow> (\<forall>c \<in> set s. \<not> is_space c \<and> c \<noteq> 58)"

definition node_peer :: "raft_node \<Rightarrow> u32 \<Rightarrow> peer_info option" where
  "node_peer n i = find (\<lambda>p. peer_id p = ucast i) (peers n)"

definition readable_tablet :: "raft_node \<Rightarrow> tablet \<Rightarrow> bool" where
  "readable_tablet n t \<longleftrightarrow> clean (start_key t) \<and> clean (end_key t)
     \<and> (case node_peer n (node_id t) of None \<Rightarrow> False | Some p \<Rightarrow> clean (peer_ip p))"

definition segment :: "raft_node \<Rightarrow> tablet \<Rightarrow> str" where
  "segment n t = to_string (unat (tablet_id t)) @ [58] @ start_key t @ [58] @ end_key t @ [58]
     @ GetNodeAddr n (node_id t)"

definition cached :: "raft_node \<Rightarrow> tablet \<Rightarrow> cached_tablet" where
  "cached n t = \<lparr>ct_id = tablet_id t, ct_start = start_key t, ct_end = end_key t,
     ct_addr = GetNodeAddr n (node_id t)\<rparr>"

lemma lit_chars [simp]: "lit '':'' = [58]" "lit '' '' = [32]"
  by (simp_all add: lit_def)

lemma clean_to_string [simp]: "clean (to_string n)"
proof -
  have "\<not> is_digit 58" by (simp add: is_digit_def)
  then show ?thesis using to_string_digits [of _ n] by (auto simp: clean_def)
qed

lemma split_colon_last: "clean s \<Longrightarrow> split_colon s = [s]"
proof -
  assume "clean s"
  then have d: "dropWhile (\<lambda>c. c \<noteq> 58) s = []" by (auto simp: clean_def dropWhile_eq_Nil_conv)
  show ?thesis by (subst split_colon.simps) (simp add: d)
qed

lemma split_colon_part: "clean s \<Longrightarrow> split_colon (s @ 58 # t) = s # split_colon t"
proof -
  assume "clean s"
  then have "\<forall>c \<in> set s. c \<noteq> 58" by (auto simp: clean_def)
  then have d: "dropWhile (\<lambda>c. c \<noteq> 58) (s @ 58 # t) = 58 # t" "takeWhile (\<lambda>c. c \<noteq> 58) (s @ 58 # t) = s"
    by (auto simp: dropWhile_append2 takeWhile_append2)
  show ?thesis by (subst split_colon.simps) (simp add: d)
qed

lemma stoull_to_string: "n < 2 ^ 64 \<Longrightarrow> t = [] \<or> \<not> is_digit (hd t) \<Longrightarrow> stoull (to_string n @ t) = Some (of_nat n, t)"
  by (simp add: stoull_def read_number_to_string)

lemma unat_u64: "unat (x :: u64) < 2 ^ 64"
  using unsigned_less [of x] by simp

lemma readable_addr:
  assumes "readable_tablet n t"
  obtains p where "node_peer n (node_id t) = Some p" "clean (peer_ip p)"
    "GetNodeAddr n (node_id t) = peer_ip p @ 58 # to_string (unat (peer_port p))"
  using assms that by (auto simp: readable_tablet_def node_peer_def GetNodeAddr_def split: option.splits)

lemma parse_segments_readable:
  assumes "\<forall>t \<in> set ts. readable_tablet n t"
  shows "parse_segments (map (segment n) ts) out = Inr (out @ map (cached n) ts)"
  using assms
proof (induction ts arbitrary: out)
  case (Cons t ts)
  then have "readable_tablet n t" by simp
  then obtain p where p: "node_peer n (node_id t) = Some p" "clean (peer_ip p)"
    "GetNodeAddr n (node_id t) = peer_ip p @ 58 # to_string (unat (peer_port p))"
    by (rule readable_addr)
  have "split_colon (segment n t) = [to_string (unat (tablet_id t)), start_key t, end_key t, peer_ip p,
      to_string (unat (peer_port p))]"
    using Cons.prems p by (simp add: segment_def split_colon_part split_colon_last readable_tablet_def)
  moreover have "stoull (to_string (unat (tablet_id t))) = Some (tablet_id t, [])"
    using stoull_to_string [OF unat_u64, of "[]" "tablet_id t"] by simp
  ultimately show ?case
    using Cons p(3) by (simp add: cached_def numeral_eq_Suc)
qed simp

lemma segment_word: "readable_tablet n t \<Longrightarrow> is_word (segment n t)"
proof -
  assume r: "readable_tablet n t"
  obtain p where p: "node_peer n (node_id t) = Some p" "clean (peer_ip p)"
    "GetNodeAddr n (node_id t) = peer_ip p @ 58 # to_string (unat (peer_port p))"
    using r by (rule readable_addr)
  have "\<not> is_space 58" by (simp add: is_space_def)
  moreover have "clean (to_string k)" for k by simp
  ultimately show ?thesis
    using r p by (auto simp: is_word_def segment_def readable_tablet_def clean_def simp del: clean_to_string)
qed

lemma shards_loop_text:
  "shards_loop n False ts body = body @ concat (map (\<lambda>t. 32 # segment n t) ts)"
  "ts \<noteq> [] \<Longrightarrow> shards_loop n True ts body = body @ spaced (map (segment n) ts)"
proof -
  have spaced: "spaced (s # ss) = s @ concat (map (\<lambda>t. 32 # t) ss)" for s ss
    by (induction ss arbitrary: s) auto
  show f: "shards_loop n False ts body = body @ concat (map (\<lambda>t. 32 # segment n t) ts)" for ts body
    by (induction ts arbitrary: body) (simp_all add: segment_def)
  show "ts \<noteq> [] \<Longrightarrow> shards_loop n True ts body = body @ spaced (map (segment n) ts)"
    by (cases ts) (simp_all add: f spaced segment_def comp_def)
qed

definition shards_text :: "raft_node \<Rightarrow> str" where
  "shards_text n = shards_loop n True (tablets n) (to_string (length (tablets n)) @ lit '' '')"

lemma parse_table_shards:
  assumes "tablets n \<noteq> []" "\<forall>t \<in> set (tablets n). readable_tablet n t" "length (tablets n) < 2 ^ 64"
    and "sorted (map start_key (tablets n))"
  shows "parse_table (shards_text n) = Inr (map (cached n) (tablets n))"
proof -
  let ?ts = "tablets n"
  have "shards_text n = to_string (length ?ts) @ 32 # spaced (map (segment n) ?ts)"
    using assms(1) by (simp add: shards_text_def shards_loop_text(2))
  moreover have "\<not> is_digit 32" by (simp add: is_digit_def)
  ultimately have "read_size (istringstream (shards_text n))
      = \<lparr>in_rest = 32 # spaced (map (segment n) ?ts), in_eof = False, in_fail = False\<rparr>"
    using assms(3) by (simp add: read_size_def istringstream_def stoull_to_string)
  then have "words (read_size (istringstream (shards_text n))) = map (segment n) ?ts"
    using assms(2) segment_word by (simp add: words_space words_spaced)
  moreover have "sort_key ct_start (map (cached n) ?ts) = map (cached n) ?ts"
    by (rule sort_key_id_if_sorted) (use assms(4) in \<open>simp add: comp_def cached_def\<close>)
  ultimately show ?thesis
    using parse_segments_readable [OF assms(2), of "[]"] by (simp add: parse_table_def)
qed

lemma upper_bound_map:
  assumes "sorted (map (lo \<circ> f) ts)"
  shows "upper_bound_loop lo (map f ts) key 0 (length ts) = upper_bound_loop (lo \<circ> f) ts key 0 (length ts)"
proof -
  let ?u = "upper_bound_loop lo (map f ts) key 0 (length ts)" and ?v = "upper_bound_loop (lo \<circ> f) ts key 0 (length ts)"
  have "?u \<le> length ts" "\<forall>i < length ts. lo (f (ts ! i)) \<le> key \<longleftrightarrow> i < ?u"
    using upper_bound_border [of lo "map f ts" key] assms by auto
  moreover have "?v \<le> length ts" "\<forall>i < length ts. lo (f (ts ! i)) \<le> key \<longleftrightarrow> i < ?v"
    using upper_bound_border [of "lo \<circ> f" ts key] assms by auto
  ultimately have "i < ?u \<longleftrightarrow> i < ?v" if "i < length ts" for i
    using that by blast
  from this [of ?u] this [of ?v] \<open>?u \<le> length ts\<close> \<open>?v \<le> length ts\<close> show ?thesis
    by linarith
qed

lemma FindRoute_cached:
  assumes "sorted (map start_key (tablets n))"
  shows "FindRoute (map (cached n) (tablets n)) key
    = map_option (\<lambda>t. GetNodeAddr n (node_id t)) (GetTabletRoute n key)"
proof -
  let ?ts = "tablets n"
  let ?u = "upper_bound_loop start_key ?ts key 0 (length ?ts)"
  have c: "ct_start \<circ> cached n = start_key" "ct_end \<circ> cached n = end_key"
    by (auto simp: cached_def)
  then have u: "upper_bound_loop ct_start (map (cached n) ?ts) key 0 (length ?ts) = ?u"
    using upper_bound_map [of ct_start "cached n" ?ts key] assms by simp
  have le: "?u \<le> length ?ts" using upper_bound_border [OF assms] by blast
  have nth: "map (cached n) ?ts ! (?u - 1) = cached n (?ts ! (?u - 1))" if "0 < ?u"
    using le that by simp
  show ?thesis
  proof (cases "?u = 0")
    case True
    then show ?thesis
      by (simp add: FindRoute_def GetTabletRoute_lookup [OF assms] lookup_range_def u)
  next
    case False
    then have "?ts \<noteq> []" using le by auto
    with False nth show ?thesis
      by (simp add: FindRoute_def GetTabletRoute_lookup [OF assms] lookup_range_def u Let_def cached_def)
  qed
qed

text \<open>Property C14 (the client routes as the master does). When the table partitions the key space
  and no boundary key or address has a colon too many or a space, the text with which the master
  answers is parsed back into the same tablets, and the client sends every key to the address
  of the node that owns it.\<close>
theorem client_routes_like_master:
  assumes "tablets_partition (tablets n)" "\<forall>t \<in> set (tablets n). readable_tablet n t"
    and "length (tablets n) < 2 ^ 64"
  shows "\<exists>body. HandleMasterShards n = Some (ST_OK # body, n)
    \<and> parse_table body = Inr (map (cached n) (tablets n))
    \<and> (\<exists>t \<in> set (tablets n). owns t key \<and> GetTabletRoute n key = Some t
        \<and> FindRoute (map (cached n) (tablets n)) key = Some (GetNodeAddr n (node_id t)))"
proof -
  have "sorted (map start_key (tablets n))"
    using partitions_sorted [OF assms(1)] by (simp add: strict_sorted_iff)
  moreover have "tablets n \<noteq> []" using assms(1) by auto
  moreover have "HandleMasterShards n = Some (ST_OK # shards_text n, n)"
    by (simp add: HandleMasterShards_def shards_text_def)
  ultimately show ?thesis
    using parse_table_shards [OF _ assms(2,3)] FindRoute_cached [of n key] GetTabletRoute_finds [OF assms(1), of key]
    by auto
qed

lemma sample_readable: "\<forall>t \<in> set (tablets sample_master). readable_tablet sample_master t"
  by code_simp

lemma sample_addr: "GetNodeAddr sample_master 3 = lit ''h:9003''" "GetNodeAddr sample_master 2 = lit ''h:9002''"
  by (simp_all add: GetNodeAddr_def sample_master_def LEADER_PORT_def lit_def to_string.simps)

theorem client_routes_like_master_witness:
  "\<exists>body. HandleMasterShards sample_master = Some (ST_OK # body, sample_master)
    \<and> parse_table body = Inr (map (cached sample_master) (tablets sample_master))
    \<and> FindRoute (map (cached sample_master) (tablets sample_master)) (lit ''x'') = Some (lit ''h:9003'')"
proof -
  have ts: "tablets_partition (tablets sample_master)" "length (tablets sample_master) < 2 ^ 64"
    by (simp_all add: sample_master_def)
  obtain body t where r: "HandleMasterShards sample_master = Some (ST_OK # body, sample_master)"
    "parse_table body = Inr (map (cached sample_master) (tablets sample_master))"
    "t \<in> set (tablets sample_master)" "owns t (lit ''x'')"
    "FindRoute (map (cached sample_master) (tablets sample_master)) (lit ''x'')
      = Some (GetNodeAddr sample_master (node_id t))"
    using client_routes_like_master [OF ts(1) sample_readable ts(2), of "lit ''x''"] by metis
  have "node_id t = 3"
    using r(3,4) by (auto simp: sample_master_def in_range_def)
  with r(1,2,5) sample_addr(1) show ?thesis by metis
qed

text \<open>What the text makes of other boundary keys.\<close>

lemma split_colon_word:
  "clean s \<Longrightarrow> split_colon (58 # s) = [[], s]" "split_colon (58 # 58 # s) = [] # [] # split_colon s"
  "split_colon (58 # t) = [] # split_colon t"
  using split_colon_part [of "[]"] split_colon_last [of s] by (simp_all add: clean_def)

lemma spaceless:
  "clean s \<Longrightarrow> c \<in> set s \<Longrightarrow> \<not> is_space c" "c \<in> set (to_string n) \<Longrightarrow> \<not> is_space c"
  "\<not> is_space 58"
  using clean_to_string [of n] by (auto simp: clean_def is_space_def simp del: clean_to_string)

lemma parse_two_tablets:
  assumes "tablets n = [t1, t2]" "segment n t1 @ 32 # segment n t2 = spaced ws" "\<forall>s \<in> set ws. is_word s"
  shows "parse_table (shards_text n) = and_then (parse_segments ws []) (\<lambda>out. Inr (sort_key ct_start out))"
proof -
  have "shards_text n = to_string 2 @ 32 # segment n t1 @ 32 # segment n t2"
    using assms(1) by (simp add: shards_text_def segment_def numeral_2_eq_2)
  moreover have "read_size (istringstream (to_string 2 @ 32 # x))
      = \<lparr>in_rest = 32 # x, in_eof = False, in_fail = False\<rparr>" for x
    by (simp add: read_size_def istringstream_def stoull_to_string is_digit_def)
  ultimately show ?thesis using assms(2,3) by (simp add: parse_table_def words_space words_spaced)
qed

lemma GetNodeAddr_peer:
  "node_peer n i = Some p \<Longrightarrow> GetNodeAddr n i = peer_ip p @ 58 # to_string (unat (peer_port p))"
  by (simp add: GetNodeAddr_def node_peer_def)

lemma space_boundary:
  assumes "tablets n = [t1, t2]" "start_key t1 = []" "end_key t1 = m" "start_key t2 = m" "end_key t2 = []"
    and "node_peer n (node_id t1) = Some p1" "node_peer n (node_id t2) = Some p2"
    and "clean (peer_ip p1)" "clean (peer_ip p2)" "clean u" "clean v" "m = u @ 32 # v"
  shows "parse_table (shards_text n) \<in> {Inl Uncaught_exception, Inl Undefined_behaviour}"
proof -
  let ?ws = "[to_string (unat (tablet_id t1)) @ 58 # 58 # u,
    v @ 58 # peer_ip p1 @ 58 # to_string (unat (peer_port p1)),
    to_string (unat (tablet_id t2)) @ 58 # u,
    v @ 58 # 58 # peer_ip p2 @ 58 # to_string (unat (peer_port p2))]"
  have "segment n t1 @ 32 # segment n t2 = spaced ?ws"
    using assms(2-5,12) by (simp add: segment_def GetNodeAddr_peer [OF assms(6)] GetNodeAddr_peer [OF assms(7)])
  moreover have "\<forall>s \<in> set ?ws. is_word s"
    using assms(8-11) by (auto simp: is_word_def spaceless)
  ultimately have "parse_table (shards_text n) = and_then (parse_segments ?ws []) (\<lambda>out. Inr (sort_key ct_start out))"
    by (rule parse_two_tablets [OF assms(1)])
  then show ?thesis using assms(8-11)
    by (cases "stoull v") (auto simp: split_colon_part split_colon_last split_colon_word)
qed

lemma colon_boundary:
  assumes "tablets n = [t1, t2]" "start_key t1 = []" "end_key t1 = [58]" "start_key t2 = [58]" "end_key t2 = []"
    and "node_peer n (node_id t1) = Some p1" "node_peer n (node_id t2) = Some p2"
    and "clean (peer_ip p1)" "clean (peer_ip p2)"
  shows "parse_table (shards_text n) = Inr
    [\<lparr>ct_id = tablet_id t1, ct_start = [], ct_end = [], ct_addr = 58 # peer_ip p1\<rparr>,
     \<lparr>ct_id = tablet_id t2, ct_start = [], ct_end = [], ct_addr = 58 # peer_ip p2\<rparr>]"
proof -
  let ?w = "\<lambda>t p. to_string (unat (tablet_id t)) @ 58 # 58 # 58 # 58 # peer_ip p @ 58 # to_string (unat (peer_port p))"
  have "segment n t1 @ 32 # segment n t2 = spaced [?w t1 p1, ?w t2 p2]"
    using assms(2-5) by (simp add: segment_def GetNodeAddr_peer [OF assms(6)] GetNodeAddr_peer [OF assms(7)])
  moreover have "\<forall>s \<in> set [?w t1 p1, ?w t2 p2]. is_word s"
    using assms(8,9) by (auto simp: is_word_def spaceless)
  ultimately have "parse_table (shards_text n)
      = and_then (parse_segments [?w t1 p1, ?w t2 p2] []) (\<lambda>out. Inr (sort_key ct_start out))"
    by (rule parse_two_tablets [OF assms(1)])
  moreover have "stoull (to_string (unat (x :: u64))) = Some (x, [])" for x
    using stoull_to_string [OF unat_u64, of "[]" x] by simp
  ultimately show ?thesis using assms(8,9)
    by (simp add: split_colon_part split_colon_last split_colon_word numeral_eq_Suc)
qed

text \<open>Property C36 (boundary keys with a space or a colon). Two tablets split at a key that
  contains a space make the client read a table entry that throws out of \<open>std::stoull\<close> or is
  indexed out of range, so that every command that needs the table ends the client; split at the
  key \<open>:\<close>, the client gets a table that sends every key to an address without a host.\<close>
theorem client_misreads_boundary:
  assumes "tablets n = [t1, t2]" "start_key t1 = []" "end_key t1 = m" "start_key t2 = m" "end_key t2 = []"
    and "node_peer n (node_id t1) = Some p1" "node_peer n (node_id t2) = Some p2"
    and "clean (peer_ip p1)" "clean (peer_ip p2)" "clean u" "clean v"
  shows "(m = u @ 32 # v \<longrightarrow>
      parse_table (shards_text n) \<in> {Inl Uncaught_exception, Inl Undefined_behaviour})
    \<and> (m = [58] \<longrightarrow> (\<exists>ts. parse_table (shards_text n) = Inr ts
      \<and> FindRoute ts key \<in> {Some (58 # peer_ip p1), Some (58 # peer_ip p2)}))"
proof (intro conjI impI)
  show "parse_table (shards_text n) \<in> {Inl Uncaught_exception, Inl Undefined_behaviour}" if "m = u @ 32 # v"
    using space_boundary [OF assms that] .
  assume m: "m = [58]"
  let ?c = "\<lambda>t p. \<lparr>ct_id = tablet_id t, ct_start = [], ct_end = [], ct_addr = 58 # peer_ip p\<rparr>"
  have "upper_bound_loop ct_start [?c t1 p1, ?c t2 p2] key 0 2 = 2"
    using upper_bound_border [of ct_start "[?c t1 p1, ?c t2 p2]" key] by (auto simp: numeral_2_eq_2 le_Suc_eq)
  then have "FindRoute [?c t1 p1, ?c t2 p2] key \<in> {Some (58 # peer_ip p1), Some (58 # peer_ip p2)}"
    by (simp add: FindRoute_def numeral_2_eq_2)
  moreover have "parse_table (shards_text n) = Inr [?c t1 p1, ?c t2 p2]"
    using assms m by (intro colon_boundary) simp_all
  ultimately show "\<exists>ts. parse_table (shards_text n) = Inr ts
      \<and> FindRoute ts key \<in> {Some (58 # peer_ip p1), Some (58 # peer_ip p2)}" by blast
qed

definition spaced_master :: "str \<Rightarrow> raft_node" where
  "spaced_master m = sample_master\<lparr>tablets :=
     [\<lparr>tablet_id = 3, start_key = [], end_key = m, node_id = 2, key_count = 3\<rparr>,
      \<lparr>tablet_id = 4, start_key = m, end_key = [], node_id = 3, key_count = 3\<rparr>]\<rparr>"

theorem client_misreads_boundary_witness:
  "parse_table (shards_text (spaced_master (lit ''a b'')))
     \<in> {Inl Uncaught_exception, Inl Undefined_behaviour}
   \<and> (\<exists>ts. parse_table (shards_text (spaced_master (lit '':''))) = Inr ts
        \<and> FindRoute ts (lit ''x'') = Some (lit '':h''))"
proof -
  let ?p = "\<lambda>i q. \<lparr>peer_id = i, peer_ip = lit ''h'', peer_port = q\<rparr>"
  have p: "node_peer (spaced_master m) 2 = Some (?p 2 9002)" "node_peer (spaced_master m) 3 = Some (?p 3 9003)" for m
    by (simp_all add: node_peer_def spaced_master_def sample_master_def)
  have c: "clean (lit ''h'')" "clean [97]" "clean [98]"
    by (simp_all add: clean_def lit_def is_space_def)
  note r = client_misreads_boundary [where ?n = "spaced_master m" and ?u = "[97]" and ?v = "[98]"
      and ?t1.0 = "tablets (spaced_master m) ! 0" and ?t2.0 = "tablets (spaced_master m) ! 1"
      and ?p1.0 = "?p 2 9002" and ?p2.0 = "?p 3 9003" and ?m = m and ?key = "lit ''x''" for m]
  have m: "tablets (spaced_master m) = [tablets (spaced_master m) ! 0, tablets (spaced_master m) ! 1]"
    "start_key (tablets (spaced_master m) ! 0) = []" "end_key (tablets (spaced_master m) ! 0) = m"
    "start_key (tablets (spaced_master m) ! 1) = m" "end_key (tablets (spaced_master m) ! 1) = []"
    "node_id (tablets (spaced_master m) ! 0) = 2" "node_id (tablets (spaced_master m) ! 1) = 3" for m
    by (simp_all add: spaced_master_def)
  have "lit ''a b'' = [97] @ 32 # [98]" "lit '':h'' = 58 # lit ''h''" by (simp_all add: lit_def)
  with r [OF m(1-5), unfolded m(6,7), OF p _ _ c(2,3), of "lit ''a b''"]
    r [OF m(1-5), unfolded m(6,7), OF p _ _ c(2,3), of "lit '':''"] c(1)
  show ?thesis by simp
qed

end

