(* ===== verification/Cli_Session.thy ===== *)
theory Cli_Session
  imports Lekv_Cli Cluster
begin

text \<open>
  Command line sessions against running nodes. The locale \<open>cli_net\<close> is what the client
  relies on: connecting to a listening address works, and a request frame sent on a connection
  is handled by \<open>HandleBinaryRequest\<close> of the node behind it and answered in time. It is
  interpreted on sockets that run the server's connection loop behind every connection.
\<close>

section \<open>The client's connection to the master\<close>

type_synonym address = "str \<times> u16"

definition linked :: "(int \<Rightarrow> address option) \<Rightarrow> cli \<Rightarrow> bool" where
  "linked conns cli \<longleftrightarrow> client_buf (proxy_conn cli) = []
     \<and> (IsConnected (proxy_conn cli)
         \<longrightarrow> conns (client_fd (proxy_conn cli)) = Some (master_ip cli, master_port cli))"

text \<open>A master whose table the client can read.\<close>

definition readable_master :: "raft_node \<Rightarrow> bool" where
  "readable_master m \<longleftrightarrow> IsMaster m \<and> tablets_partition (tablets m)
     \<and> (\<forall>t \<in> set (tablets m). readable_tablet m t) \<and> length (tablets m) < 2 ^ 64
     \<and> 15 + length (shards_text m) < 2 ^ 32"

definition same_master :: "cli \<Rightarrow> cli \<Rightarrow> bool" where
  "same_master cli cli' \<longleftrightarrow> master_ip cli' = master_ip cli \<and> master_port cli' = master_port cli"

lemma same_master_simps [simp]:
  "same_master cli cli" "same_master cli (cli\<lparr>req_id := i\<rparr>)" "same_master cli (cli\<lparr>req_id := i, proxy_conn := c\<rparr>)"
  by (simp_all add: same_master_def)

lemma map_le_fresh [simp]: "f x = None \<Longrightarrow> f \<subseteq>\<^sub>m f(x \<mapsto> y)"
  by (auto simp: map_le_def dom_def)

lemma stoi_port: "stoi (to_string (unat (p :: u16))) = Some (int (unat p))"
proof -
  have "unat p < 2 ^ 16" using unsigned_less [of p] by simp
  then show ?thesis using read_number_to_string [of "[]" "unat p"] by (simp add: stoi_def Let_def)
qed

text \<open>The store as the clients of a master see it: the value at the node that owns the key.\<close>

definition client_view :: "raft_node \<Rightarrow> (address \<Rightarrow> raft_node option) \<Rightarrow> str \<Rightarrow> str option" where
  "client_view m ns k =
     (case GetTabletRoute m k of
        None \<Rightarrow> None
      | Some t \<Rightarrow> (case node_peer m (node_id t) of
          None \<Rightarrow> None
        | Some p \<Rightarrow> (case ns (peer_ip p, peer_port p) of None \<Rightarrow> None | Some n \<Rightarrow> node_get n k)))"

lemma client_view_update:
  assumes "GetTabletRoute m k = Some t" "node_peer m (node_id t) = Some p" "ns (peer_ip p, peer_port p) = Some n"
    and "node_get n' = (node_get n)(k := x)"
  shows "client_view m (ns((peer_ip p, peer_port p) \<mapsto> n')) = (client_view m ns)(k := x)"
proof
  fix k'
  show "client_view m (ns((peer_ip p, peer_port p) \<mapsto> n')) k' = ((client_view m ns)(k := x)) k'"
    using assms by (cases "k' = k") (auto simp: client_view_def split: option.split)
qed

text \<open>Every tablet of the master is at a running data node that accepts writes.\<close>

definition served :: "raft_node \<Rightarrow> (address \<Rightarrow> raft_node option) \<Rightarrow> bool" where
  "served m ns \<longleftrightarrow> (\<forall>t \<in> set (tablets m). \<exists>p n. node_peer m (node_id t) = Some p
     \<and> ns (peer_ip p, peer_port p) = Some n \<and> data_node n \<and> node_writable n)"

text \<open>What a command that writes does to the nodes: one of them, the owner of the key, changes, and
  for that key only.\<close>

definition wrote :: "raft_node \<Rightarrow> str \<Rightarrow> str option \<Rightarrow> (address \<Rightarrow> raft_node option)
    \<Rightarrow> (address \<Rightarrow> raft_node option) \<Rightarrow> bool" where
  "wrote m k x ns ns' \<longleftrightarrow> (\<exists>t p n n'. GetTabletRoute m k = Some t \<and> node_peer m (node_id t) = Some p
     \<and> ns (peer_ip p, peer_port p) = Some n \<and> data_node n \<and> data_node n' \<and> node_writable n'
     \<and> node_get n' = (node_get n)(k := x) \<and> ns' = ns((peer_ip p, peer_port p) \<mapsto> n'))"

lemma wrote_view: "wrote m k x ns ns' \<Longrightarrow> client_view m ns' = (client_view m ns)(k := x)"
  unfolding wrote_def using client_view_update by metis

lemma wrote_served: "wrote m k x ns ns' \<Longrightarrow> served m ns \<Longrightarrow> served m ns'"
  unfolding wrote_def served_def by fastforce

text \<open>The route of a key in the table of a master, and the node at its end.\<close>

lemma served_route:
  assumes "readable_master m" "served m ns"
  obtains t p n where "t \<in> set (tablets m)" "GetTabletRoute m k = Some t" "owns t k" "node_peer m (node_id t) = Some p"
    "ns (peer_ip p, peer_port p) = Some n" "data_node n" "node_writable n" "clean (peer_ip p)"
    "FindRoute (map (cached m) (tablets m)) k = Some (peer_ip p @ 58 # to_string (unat (peer_port p)))"
proof -
  have m: "tablets_partition (tablets m)" "\<forall>t \<in> set (tablets m). readable_tablet m t"
    using assms(1) by (simp_all add: readable_master_def)
  obtain t where t: "t \<in> set (tablets m)" "GetTabletRoute m k = Some t" "owns t k"
    using GetTabletRoute_finds [OF m(1), of k] by blast
  obtain p n where n: "node_peer m (node_id t) = Some p" "ns (peer_ip p, peer_port p) = Some n"
    "data_node n" "node_writable n"
    using assms(2) t(1) unfolding served_def by blast
  obtain q where q: "node_peer m (node_id t) = Some q" "clean (peer_ip q)"
    "GetNodeAddr m (node_id t) = peer_ip q @ 58 # to_string (unat (peer_port q))"
    using m(2) t(1) readable_addr by metis
  have "sorted (map start_key (tablets m))"
    using partitions_sorted [OF m(1)] by (simp add: strict_sorted_iff)
  then have "FindRoute (map (cached m) (tablets m)) k = Some (GetNodeAddr m (node_id t))"
    using t(2) by (simp add: FindRoute_cached)
  with that [OF t n] q n(1) show thesis by simp
qed

text \<open>What the answers print.\<close>

lemma opcodes: "opcode_of (lit ''put'') = OP_PUT" "opcode_of (lit ''delete'') = OP_DELETE"
  "opcode_of (lit ''get'') = OP_GET"
  by (simp_all add: opcode_of_def lit_def)

definition get_output :: "str option \<Rightarrow> printed" where
  "get_output r = Stdout (case r of None \<Rightarrow> lit ''Key not found'' | Some [] \<Rightarrow> lit ''(empty)'' | Some v \<Rightarrow> v)"

lemma print_status_done: "cmd \<in> {lit ''put'', lit ''delete''} \<Longrightarrow> print_status cmd ST_OK s = Stdout (lit ''OK'')"
  by (auto simp: print_status_def lit_def)

lemma print_status_get: "print_status (lit ''get'') (hd (case r of Some v \<Rightarrow> ST_OK # v | None \<Rightarrow> [ST_NOT_FOUND]))
    (tl (case r of Some v \<Rightarrow> ST_OK # v | None \<Rightarrow> [ST_NOT_FOUND])) = get_output r"
  by (auto simp: print_status_def get_output_def ST_OK_def ST_NOT_FOUND_def split: option.split list.split)

text \<open>The words of a command line.\<close>

lemma Execute_args:
  assumes "cmd \<in> {lit ''get'', lit ''put'', lit ''delete''}" "is_word k" "v = [] \<or> hd v \<noteq> 32 \<and> 10 \<notin> set v"
    and "v \<noteq> [] \<longrightarrow> cmd = lit ''put''"
  shows "Execute os cli (cmd @ 32 # k @ (if v = [] then [] else 32 # v)) w = run_request os cli cmd k v w"
proof -
  let ?rest = "if v = [] then [] else 32 # v"
  have cmd: "is_word cmd" "map tolower cmd = cmd" "cmd \<notin> {lit ''exit'', lit ''quit'', lit ''help'', lit ''tablets''}"
    using assms(1) by (auto simp: is_word_def lit_def is_space_def tolower_def)
  have r1: "read_word [] (istringstream (cmd @ 32 # k @ ?rest))
      = (cmd, \<lparr>in_rest = 32 # k @ ?rest, in_eof = False, in_fail = False\<rparr>)"
    using read_word_word [OF cmd(1), of "32 # k @ ?rest" "[]"] by (simp add: istringstream_def)
  have r2: "read_word [] \<lparr>in_rest = 32 # k @ ?rest, in_eof = False, in_fail = False\<rparr>
      = (k, \<lparr>in_rest = ?rest, in_eof = (?rest = []), in_fail = False\<rparr>)"
    using read_word_word [OF assms(2), of ?rest "[]"] by (simp add: read_word_space)
  have d: "v \<noteq> [] \<Longrightarrow> dropWhile (\<lambda>c. c \<noteq> 10) v = []"
    using assms(3) by (auto simp: dropWhile_eq_Nil_conv)
  have g: "fst (getline [] \<lparr>in_rest = ?rest, in_eof = (?rest = []), in_fail = False\<rparr>) = ?rest"
    by (cases "v = []") (simp_all add: getline_def Let_def d)
  have "skip_spaces ?rest = v"
    using assms(3) by (cases v) (simp_all add: skip_spaces_def)
  moreover have "cmd \<noteq> []" "k \<noteq> []" using cmd(1) assms(2) by (auto simp: is_word_def)
  ultimately show ?thesis
    using r1 r2 g cmd(2,3) assms(4) by (auto simp: Execute_def read_args_def)
qed

lemma response_reads:
  assumes "6 + length v < 2 ^ 32"
  shows "rd32 (response_payload st v) 1 = Some (of_nat (length v))"
    and "unat (of_nat (length v) :: u32) = length v"
    and "unat (5 + of_nat (length v) :: u32) = 5 + length v"
    and "subbuf (response_payload st v) 5 (length v) = Some v"
proof -
  show "unat (of_nat (length v) :: u32) = length v"
    using assms by (simp add: unat_of_nat)
  have "5 + of_nat (length v) = (of_nat (5 + length v) :: u32)" by simp
  with assms show "unat (5 + of_nat (length v) :: u32) = 5 + length v"
    by (simp only: unat_of_nat) simp
  show "rd32 (response_payload st v) 1 = Some (of_nat (length v))"
    using rd32_be32 [of "[st]" 1] by (simp add: response_payload_def)
  show "subbuf (response_payload st v) 5 (length v) = Some v"
    using subbuf_append_end [of "[st] @ be32 (of_nat (length v))" 5 v] by (simp add: response_payload_def)
qed

text \<open>How a data node that accepts writes handles a request: the map afterwards and what the client
  prints of the answer.\<close>

definition handled :: "str \<Rightarrow> str \<Rightarrow> str \<Rightarrow> str option \<Rightarrow> printed \<Rightarrow> raft_node \<Rightarrow> bool" where
  "handled cmd k v x out n \<longleftrightarrow>
     (\<forall>rid. \<exists>r n'. HandleBinaryRequest n rid (kv_payload (opcode_of cmd) k v) = Some (r, n')
        \<and> 14 + length r < 2 ^ 32 \<and> node_writable n' \<and> node_get n' = (node_get n)(k := x)
        \<and> print_status cmd (hd r) (tl r) = out)"

lemma put_handled:
  assumes "data_node n" "node_writable n" "length k < 2 ^ 16" "17 + length k + length v < 2 ^ 32"
  shows "handled (lit ''put'') k v (Some v) (Stdout (lit ''OK'')) n"
proof -
  obtain d where d: "\<not> IsMaster n" "node_inv n" "storage n = Some d"
    using assms(1) by (auto simp: data_node_def)
  obtain n' where "HandleDataNodePut n (kv_payload OP_PUT k v) = Some ([ST_OK], n')" "node_writable n'"
    "node_get n' = (node_get n)(k \<mapsto> v)"
    using HandleDataNodePut_outcome [OF d(2,3) assms(3), of v OP_PUT] assms(2,4) by auto
  then show ?thesis
    unfolding handled_def opcodes
    by (intro allI exI [of _ "[ST_OK]"] exI [of _ n']) (simp add: kv_dispatch [OF d(1)] print_status_done del: lit_simps)
qed

lemma delete_handled:
  assumes "data_node n" "node_writable n" "length k < 2 ^ 16"
  shows "handled (lit ''delete'') k [] None (Stdout (lit ''OK'')) n"
proof -
  obtain d where d: "\<not> IsMaster n" "node_inv n" "storage n = Some d"
    using assms(1) by (auto simp: data_node_def)
  obtain n' where "HandleDataNodeDelete n (kv_payload OP_DELETE k []) = Some ([ST_OK], n')" "node_writable n'"
    "node_get n' = (node_get n)(k := None)"
    using HandleDataNodeDelete_outcome [OF d(2,3) assms(3), of OP_DELETE] assms(2) by auto
  then show ?thesis
    unfolding handled_def opcodes
    by (intro allI exI [of _ "[ST_OK]"] exI [of _ n']) (simp add: kv_dispatch [OF d(1)] print_status_done del: lit_simps)
qed

lemma get_handled:
  assumes "data_node n" "node_writable n" "length k < 2 ^ 16" "\<And>v. x = Some v \<Longrightarrow> 15 + length v < 2 ^ 32"
    and "node_get n k = x"
  shows "handled (lit ''get'') k [] x (get_output x) n"
proof -
  obtain d where d: "\<not> IsMaster n" "storage n = Some d"
    using assms(1) by (auto simp: data_node_def)
  let ?r = "case x of Some v \<Rightarrow> ST_OK # v | None \<Rightarrow> [ST_NOT_FOUND]"
  have "HandleBinaryRequest n rid (kv_payload OP_GET k []) = Some (?r, n)" for rid
    using HandleDataNodeGet_outcome [OF d(2) assms(3), of OP_GET] d(1) assms(5) by (simp add: kv_dispatch)
  moreover have "(node_get n)(k := x) = node_get n" using assms(5) by auto
  moreover have "14 + length ?r < 2 ^ 32" using assms(4) by (cases x) simp_all
  ultimately show ?thesis
    unfolding handled_def opcodes using assms(2) print_status_get [of x] by metis
qed

section \<open>The contract with the network\<close>

locale cli_net =
  fixes os :: "('w, 'z) os_scheme"
    and nodes :: "'w \<Rightarrow> address \<Rightarrow> raft_node option"
    and conn :: "'w \<Rightarrow> int \<Rightarrow> address option"
    and ready :: "'w \<Rightarrow> bool"
  assumes connect: "ready w \<Longrightarrow> nodes w (ip, p) \<noteq> None \<Longrightarrow>
      \<exists>fd w'. os_connect os ip p w = ((fd, True), w') \<and> 0 \<le> fd \<and> conn w fd = None \<and> ready w'
        \<and> conn w' = (conn w)(fd \<mapsto> (ip, p)) \<and> nodes w' = nodes w"
    and close: "ready w \<Longrightarrow> ready (os_close os fd w) \<and> nodes (os_close os fd w) = nodes w
      \<and> conn (os_close os fd w) = (conn w)(fd := None)"
    and plan: "ready w \<Longrightarrow> whole_send (os_send_plan os fd w)"
    and exchange: "ready w \<Longrightarrow> conn w fd = Some a \<Longrightarrow> nodes w a = Some n \<Longrightarrow> frame_fits q \<Longrightarrow>
      HandleBinaryRequest n rid q = Some (r, n') \<Longrightarrow> 14 + length r < 2 ^ 32 \<Longrightarrow>
      \<exists>w1. os_sent os fd (EncodeCustomRequest rid q) w = w1 \<and> calm 5000 (os_recv_plan os fd w1)
        \<and> stream (os_recv_plan os fd w1) = respond rid r
        \<and> (\<forall>es. stream es = [] \<longrightarrow> ready (os_received os fd es w1) \<and> conn (os_received os fd es w1) = conn w
             \<and> nodes (os_received os fd es w1) = (nodes w)(a \<mapsto> n'))"
begin

lemma SendAndRecv_ok:
  assumes "ready w" "conn w fd = Some a" "0 \<le> fd" "nodes w a = Some n" "frame_fits q"
    and "HandleBinaryRequest n rid q = Some (r, n')" "14 + length r < 2 ^ 32"
  shows "\<exists>w'. SendAndRecv os \<lparr>client_fd = fd, client_buf = []\<rparr> (EncodeCustomRequest rid q) w
      = Inr (Some (rid, response_payload (hd r) (tl r)), \<lparr>client_fd = fd, client_buf = []\<rparr>, w')
    \<and> ready w' \<and> conn w' = conn w \<and> nodes w' = (nodes w)(a \<mapsto> n')"
proof -
  let ?f = "EncodeCustomRequest rid q" and ?c = "\<lparr>client_fd = fd, client_buf = []\<rparr>"
  have r: "r \<noteq> []" by (rule HandleBinaryRequest_step(1) [OF assms(6)])
  obtain ss' where "send_loop ?f (os_send_plan os fd w) = (SendDone, ?f, ss')"
    using send_loop_whole [OF plan [OF assms(1)], of ?f fd] by blast
  then have snd: "Send ?c ?f (os_send_plan os fd w) = (SendDone, ?f, ss')"
    using assms(3) by (simp add: Send_def)
  obtain w1 where w1: "os_sent os fd ?f w = w1" "calm 5000 (os_recv_plan os fd w1)"
    "stream (os_recv_plan os fd w1) = respond rid r"
    "\<And>es. stream es = [] \<Longrightarrow> ready (os_received os fd es w1) \<and> conn (os_received os fd es w1) = conn w
       \<and> nodes (os_received os fd es w1) = (nodes w)(a \<mapsto> n')"
    using exchange [OF assms(1,2,4-7)] by blast
  let ?p = "response_payload (hd r) (tl r)"
  have fits: "frame_fits ?p" by (rule respond_fits [OF r assms(7)])
  obtain c' es' where rc: "RecvFrame 5000 ?c (os_recv_plan os fd w1) = (Some (EncodeCustomRequest rid ?p), c', es')"
    "client_fd c' = fd" "client_buf c' @ stream es' = []"
    using RecvFrame_run [of ?c 5000 "os_recv_plan os fd w1" ?p rid "[]"] w1(2,3) assms(3) fits
    by (auto simp: respond_frame [OF r])
  have c': "c' = ?c" using rc(2,3) by (cases c') simp
  have ne: "?f \<noteq> []" by (simp add: EncodeCustomRequest_def be32_def Let_def)
  have "TryDecode (EncodeCustomRequest rid ?p) = Some (10 + length ?p, Some (rid, ?p))"
    using TryDecode_frame [OF fits, of rid "[]"] by simp
  then show ?thesis
    using snd rc w1(1) w1(4) [of es'] ne c' by (simp add: SendAndRecv_def Let_def)
qed

lemma connect_ok:
  assumes "ready w" "nodes w (ip, p) \<noteq> None" "\<not> IsConnected c" "client_buf c = []"
  shows "\<exists>fd w'. cli_connect os ip p c w = (True, \<lparr>client_fd = fd, client_buf = []\<rparr>, w') \<and> 0 \<le> fd
    \<and> conn w fd = None \<and> ready w' \<and> conn w' = (conn w)(fd \<mapsto> (ip, p)) \<and> nodes w' = nodes w"
proof -
  obtain fd w' where c: "os_connect os ip p w = ((fd, True), w')" "0 \<le> fd" "conn w fd = None" "ready w'"
    "conn w' = (conn w)(fd \<mapsto> (ip, p))" "nodes w' = nodes w"
    using connect [OF assms(1,2)] by blast
  have "c\<lparr>client_fd := fd\<rparr> = \<lparr>client_fd = fd, client_buf = []\<rparr>" using assms(4) by (cases c) simp
  with c assms(3) show ?thesis
    by (simp add: cli_connect_def cli_close_def Connect_def Close_def IsConnected_def)
qed

lemma FetchRouteTable_ok:
  assumes "ready w" "linked (conn w) cli" "nodes w (master_ip cli, master_port cli) = Some m" "readable_master m"
  shows "\<exists>cli' w'. FetchRouteTable os cli w = Inr (True, map (cached m) (tablets m), cli', w')
    \<and> ready w' \<and> linked (conn w') cli' \<and> nodes w' = nodes w \<and> same_master cli cli'
    \<and> conn w \<subseteq>\<^sub>m conn w'"
proof -
  let ?a = "(master_ip cli, master_port cli)"
  obtain fd w1 where w1: "(if IsConnected (proxy_conn cli) then (True, proxy_conn cli, w)
      else cli_connect os (master_ip cli) (master_port cli) (proxy_conn cli) w)
        = (True, \<lparr>client_fd = fd, client_buf = []\<rparr>, w1)"
    "0 \<le> fd" "ready w1" "conn w1 fd = Some ?a" "nodes w1 = nodes w" "conn w \<subseteq>\<^sub>m conn w1"
  proof (cases "IsConnected (proxy_conn cli)")
    case True
    have "proxy_conn cli = \<lparr>client_fd = client_fd (proxy_conn cli), client_buf = []\<rparr>"
      using assms(2) by (cases "proxy_conn cli") (simp add: linked_def)
    with True that [of "client_fd (proxy_conn cli)" w] assms(1,2) show thesis
      by (simp add: linked_def IsConnected_def)
  next
    case False
    from connect_ok [OF assms(1) _ False, of "master_ip cli" "master_port cli"] assms(2,3) that False
    show thesis by (auto simp: linked_def)
  qed
  have m: "tablets_partition (tablets m)" "\<forall>t \<in> set (tablets m). readable_tablet m t"
    "length (tablets m) < 2 ^ 64" "15 + length (shards_text m) < 2 ^ 32" "IsMaster m"
    using assms(4) by (simp_all add: readable_master_def)
  have ne: "tablets m \<noteq> []" using m(1) by auto
  let ?q = "kv_payload OP_SHARDS [] []" and ?r = "ST_OK # shards_text m"
  have h: "HandleBinaryRequest m (req_id cli) ?q = Some (?r, m)"
    using m(5) by (simp add: HandleBinaryRequest_def kv_payload_def opcode_defs HandleMasterShards_def shards_text_def)
  have fit: "frame_fits ?q" by (simp add: frame_fits_def)
  have n1: "nodes w1 ?a = Some m" using w1(5) assms(3) by simp
  obtain w2 where w2: "SendAndRecv os \<lparr>client_fd = fd, client_buf = []\<rparr> (EncodeCustomRequest (req_id cli) ?q) w1
      = Inr (Some (req_id cli, response_payload ST_OK (shards_text m)), \<lparr>client_fd = fd, client_buf = []\<rparr>, w2)"
    "ready w2" "conn w2 = conn w1" "nodes w2 = (nodes w1)(?a \<mapsto> m)"
    using SendAndRecv_ok [OF w1(3,4,2) n1 fit h] m(4) by auto
  have "sorted (map start_key (tablets m))"
    using partitions_sorted [OF m(1)] by (simp add: strict_sorted_iff)
  note pt = parse_table_shards [OF ne m(2,3) this]
  have req: "EncodeRequest rid OP_SHARDS [] [] = EncodeCustomRequest rid ?q" for rid
    by (simp add: EncodeRequest_custom)
  let ?cli = "cli\<lparr>req_id := req_id cli + 1, proxy_conn := \<lparr>client_fd = fd, client_buf = []\<rparr>\<rparr>"
  have "FetchRouteTable os cli w = Inr (True, map (cached m) (tablets m), ?cli, w2)"
    using w1(1) w2(1) ne
    by (simp add: FetchRouteTable_def NextReqId_def req response_payload_def pt Let_def)
  moreover have "linked (conn w2) ?cli"
    using w2(3) w1(4) by (simp add: linked_def)
  moreover have "nodes w2 = nodes w" using w2(4) w1(5) assms(3) by auto
  ultimately show ?thesis using w2(2,3) w1(6) by (intro exI [of _ ?cli] exI [of _ w2]) simp
qed

lemma DoDataNodeRequest_ok:
  assumes "ready w" "linked (conn w) cli" "clean ip" "nodes w (ip, p) = Some n"
    and "length k < 2 ^ 16" "17 + length k + length v < 2 ^ 32"
    and "HandleBinaryRequest n (req_id cli) (kv_payload opcode k v) = Some (r, n')" "14 + length r < 2 ^ 32"
  shows "\<exists>cli' w'. DoDataNodeRequest os cli (ip @ 58 # to_string (unat p)) opcode k v w
      = Inr (True, hd r, tl r, cli', w')
    \<and> ready w' \<and> linked (conn w') cli' \<and> nodes w' = (nodes w)((ip, p) \<mapsto> n') \<and> same_master cli cli'
    \<and> conn w' = conn w"
proof -
  let ?q = "kv_payload opcode k v" and ?addr = "ip @ 58 # to_string (unat p)"
  let ?p = "response_payload (hd r) (tl r)"
  have "\<forall>c \<in> set ip. c \<noteq> 58" using assms(3) by (auto simp: clean_def)
  then have addr: "dropWhile (\<lambda>c. c \<noteq> 58) ?addr = 58 # to_string (unat p)"
    "takeWhile (\<lambda>c. c \<noteq> 58) ?addr = ip"
    by (auto simp: dropWhile_append2 takeWhile_append2)
  have port: "of_int (int (unat p)) = p" by simp
  obtain fd w1 where w1: "cli_connect os ip p new_client w = (True, \<lparr>client_fd = fd, client_buf = []\<rparr>, w1)"
    "0 \<le> fd" "conn w fd = None" "ready w1" "conn w1 = (conn w)(fd \<mapsto> (ip, p))" "nodes w1 = nodes w"
    using connect_ok [OF assms(1), of ip p new_client] assms(4) by (auto simp: new_client_def IsConnected_def)
  have fit: "frame_fits ?q" using assms(6) by (simp add: frame_fits_def)
  have c1: "conn w1 fd = Some (ip, p)" and n1: "nodes w1 (ip, p) = Some n"
    using w1(5,6) assms(4) by simp_all
  obtain w2 where w2: "SendAndRecv os \<lparr>client_fd = fd, client_buf = []\<rparr> (EncodeCustomRequest (req_id cli) ?q) w1
      = Inr (Some (req_id cli, ?p), \<lparr>client_fd = fd, client_buf = []\<rparr>, w2)"
    "ready w2" "conn w2 = conn w1" "nodes w2 = (nodes w1)((ip, p) \<mapsto> n')"
    using SendAndRecv_ok [OF w1(4) c1 w1(2) n1 fit assms(7,8)] by blast
  let ?cli = "cli\<lparr>req_id := req_id cli + 1\<rparr>" and ?w3 = "os_close os fd w2"
  have w3: "ready ?w3" "nodes ?w3 = nodes w2" "conn ?w3 = (conn w2)(fd := None)"
    using close [OF w2(2), of fd] by simp_all
  have r: "r \<noteq> []" by (rule HandleBinaryRequest_step(1) [OF assms(7)])
  then obtain st u where ru: "r = st # u" by (cases r) auto
  have len: "rd32 (response_payload st u) (Suc 0) = Some (of_nat (length u))"
    "unat (of_nat (length u) :: u32) = length u"
    "unat (5 + of_nat (length u) :: u32) = 5 + length u"
    "subbuf (response_payload st u) 5 (length u) = Some u"
    using assms(8) ru response_reads(1,4) [of u st] response_reads(2,3) [of u] by simp_all
  have pos: "0 < (of_nat (length u) :: u32) \<longleftrightarrow> u \<noteq> []"
    using len(2) by (simp add: word_less_nat_alt)
  have hd: "hd (response_payload st x) = st" "response_payload st x \<noteq> []" for x
    by (simp_all add: response_payload_def)
  have "DoDataNodeRequest os cli ?addr opcode k v w = Inr (True, hd r, tl r, ?cli, ?w3)"
    using addr w1(1,2) w2(1)
    by (simp add: DoDataNodeRequest_def stoi_port NextReqId_def EncodeRequest_custom [OF assms(5)]
        cli_close_def IsConnected_def Let_def ru len pos hd)
  moreover have con: "conn ?w3 = conn w"
    using w1(3,5) w2(3) w3(3) by auto
  moreover have "linked (conn ?w3) ?cli"
    using assms(2) by (simp add: con linked_def)
  moreover have "nodes ?w3 = (nodes w)((ip, p) \<mapsto> n')" using w1(6) w2(4) w3(2) by simp
  ultimately show ?thesis using w3(1) by (intro exI [of _ ?cli] exI [of _ ?w3]) simp
qed

definition session :: "raft_node \<Rightarrow> cli \<Rightarrow> 'w \<Rightarrow> bool" where
  "session m cli w \<longleftrightarrow> ready w \<and> linked (conn w) cli
     \<and> nodes w (master_ip cli, master_port cli) = Some m \<and> readable_master m \<and> served m (nodes w)"

text \<open>The two halves of a command that names a key: it gets the table, and the node that owns the key
  in that table answers.\<close>

lemma fetch_ok:
  assumes "session m cli w"
  shows "\<exists>cli' w'. FetchRouteTable os cli w = Inr (True, map (cached m) (tablets m), cli', w')
    \<and> session m cli' w' \<and> nodes w' = nodes w \<and> same_master cli cli' \<and> conn w \<subseteq>\<^sub>m conn w'"
proof -
  have s: "ready w" "linked (conn w) cli" "nodes w (master_ip cli, master_port cli) = Some m"
    "readable_master m" "served m (nodes w)"
    using assms by (simp_all add: session_def)
  obtain cli1 w1 where f: "FetchRouteTable os cli w = Inr (True, map (cached m) (tablets m), cli1, w1)"
    "ready w1" "linked (conn w1) cli1" "nodes w1 = nodes w" "same_master cli cli1" "conn w \<subseteq>\<^sub>m conn w1"
    using FetchRouteTable_ok [OF s(1-4)] by blast
  have "session m cli1 w1" using f(2-5) s(3-5) by (simp add: session_def same_master_def)
  with f show ?thesis by blast
qed

lemma request_ok:
  assumes "session m cli w" "FindRoute ts k = FindRoute (map (cached m) (tablets m)) k"
    and "length k < 2 ^ 16" "17 + length k + length v < 2 ^ 32"
    and "\<And>n. data_node n \<Longrightarrow> node_writable n \<Longrightarrow> node_get n k = client_view m (nodes w) k \<Longrightarrow>
      handled cmd k v x out n"
  shows "\<exists>addr st res cli' w'. FindRoute ts k = Some addr
    \<and> DoDataNodeRequest os cli addr (opcode_of cmd) k v w = Inr (True, st, res, cli', w')
    \<and> print_status cmd st res = out \<and> session m cli' w' \<and> wrote m k x (nodes w) (nodes w')
    \<and> same_master cli cli' \<and> conn w' = conn w"
proof -
  have s: "ready w" "linked (conn w) cli" "nodes w (master_ip cli, master_port cli) = Some m"
    "readable_master m" "served m (nodes w)"
    using assms(1) by (simp_all add: session_def)
  obtain t p n where t: "GetTabletRoute m k = Some t" "node_peer m (node_id t) = Some p"
    "nodes w (peer_ip p, peer_port p) = Some n" "data_node n" "node_writable n" "clean (peer_ip p)"
    "FindRoute (map (cached m) (tablets m)) k = Some (peer_ip p @ 58 # to_string (unat (peer_port p)))"
    using served_route [OF s(4,5)] by metis
  let ?addr = "peer_ip p @ 58 # to_string (unat (peer_port p))"
  have route: "FindRoute ts k = Some ?addr" using assms(2) t(7) by simp
  have "client_view m (nodes w) k = node_get n k"
    using t(1-3) by (simp add: client_view_def)
  then obtain r n' where r: "HandleBinaryRequest n (req_id cli) (kv_payload (opcode_of cmd) k v) = Some (r, n')"
    "14 + length r < 2 ^ 32" "node_writable n'" "node_get n' = (node_get n)(k := x)"
    "print_status cmd (hd r) (tl r) = out"
    using assms(5) [OF t(4,5)] unfolding handled_def by metis
  obtain cli' w' where w': "DoDataNodeRequest os cli ?addr (opcode_of cmd) k v w = Inr (True, hd r, tl r, cli', w')"
    "ready w'" "linked (conn w') cli'" "nodes w' = (nodes w)((peer_ip p, peer_port p) \<mapsto> n')"
    "same_master cli cli'" "conn w' = conn w"
    using DoDataNodeRequest_ok [OF s(1,2) t(6,3) assms(3,4) r(1,2)] by blast
  have "data_node n'" by (rule data_node_step [OF t(4) r(1)])
  then have wrote: "wrote m k x (nodes w) (nodes w')"
    using t(1-4) r(3,4) w'(4) unfolding wrote_def by blast
  have "(peer_ip p, peer_port p) \<noteq> (master_ip cli, master_port cli)"
    using s(3,4) t(3,4) by (auto simp: readable_master_def data_node_def)
  then have "nodes w' (master_ip cli', master_port cli') = Some m"
    using s(3) w'(4,5) by (auto simp: same_master_def)
  then have "session m cli' w'"
    using w'(2,3) s(4) wrote_served [OF wrote s(5)] by (simp add: session_def)
  with route w'(1,5,6) r(5) wrote show ?thesis by blast
qed

lemma command_ok:
  assumes "session m cli w" "length k < 2 ^ 16" "17 + length k + length v < 2 ^ 32"
    and "\<And>n. data_node n \<Longrightarrow> node_writable n \<Longrightarrow> node_get n k = client_view m (nodes w) k \<Longrightarrow>
      handled cmd k v x out n"
  shows "\<exists>cli' w'. run_request os cli cmd k v w = ([out], Inr (True, cli', w')) \<and> session m cli' w'
    \<and> wrote m k x (nodes w) (nodes w') \<and> same_master cli cli' \<and> conn w \<subseteq>\<^sub>m conn w'"
proof -
  obtain c1 w1 where f: "FetchRouteTable os cli w = Inr (True, map (cached m) (tablets m), c1, w1)"
    "session m c1 w1" "nodes w1 = nodes w" "same_master cli c1" "conn w \<subseteq>\<^sub>m conn w1"
    using fetch_ok [OF assms(1)] by blast
  have "handled cmd k v x out n" if "data_node n" "node_writable n" "node_get n k = client_view m (nodes w1) k" for n
    using assms(4) that f(3) by simp
  from request_ok [OF f(2) refl assms(2,3) this] obtain addr st res cli' w' where
    r: "FindRoute (map (cached m) (tablets m)) k = Some addr"
    "DoDataNodeRequest os c1 addr (opcode_of cmd) k v w1 = Inr (True, st, res, cli', w')"
    "print_status cmd st res = out" "session m cli' w'" "wrote m k x (nodes w1) (nodes w')"
    "same_master c1 cli'" "conn w' = conn w1" by blast
  have "run_request os cli cmd k v w = ([out], Inr (True, cli', w'))"
    using f(1) r(1-3) by (simp add: run_request_def)
  with f(3-5) r(4-7) show ?thesis by (auto simp: same_master_def)
qed

lemma put_ok:
  assumes "session m cli w" "is_word k" "length k < 2 ^ 16" "17 + length k + length v < 2 ^ 32"
    and "v \<noteq> []" "hd v \<noteq> 32" "10 \<notin> set v"
  shows "\<exists>cli' w'. Execute os cli (lit ''put'' @ 32 # k @ 32 # v) w = ([Stdout (lit ''OK'')], Inr (True, cli', w'))
    \<and> session m cli' w' \<and> wrote m k (Some v) (nodes w) (nodes w') \<and> same_master cli cli' \<and> conn w \<subseteq>\<^sub>m conn w'"
proof -
  have "Execute os cli (lit ''put'' @ 32 # k @ 32 # v) w = run_request os cli (lit ''put'') k v w"
    using Execute_args [of "lit ''put''" k v os cli w] assms(2,5-7) by simp
  with command_ok [OF assms(1,3,4) put_handled [OF _ _ assms(3,4)]] show ?thesis by simp
qed

lemma delete_ok:
  assumes "session m cli w" "is_word k" "length k < 2 ^ 16"
  shows "\<exists>cli' w'. Execute os cli (lit ''delete'' @ 32 # k) w = ([Stdout (lit ''OK'')], Inr (True, cli', w'))
    \<and> session m cli' w' \<and> wrote m k None (nodes w) (nodes w') \<and> same_master cli cli' \<and> conn w \<subseteq>\<^sub>m conn w'"
proof -
  have fit: "17 + length k + length ([] :: str) < 2 ^ 32" using assms(3) by simp
  have "Execute os cli (lit ''delete'' @ 32 # k) w = run_request os cli (lit ''delete'') k [] w"
    using Execute_args [of "lit ''delete''" k "[]" os cli w] assms(2) by simp
  with command_ok [OF assms(1,3) fit delete_handled [OF _ _ assms(3)]] show ?thesis by simp
qed

lemma get_ok:
  assumes "session m cli w" "is_word k" "length k < 2 ^ 16"
    and "\<And>v. client_view m (nodes w) k = Some v \<Longrightarrow> 15 + length v < 2 ^ 32"
  shows "\<exists>cli' w'. Execute os cli (lit ''get'' @ 32 # k) w
      = ([get_output (client_view m (nodes w) k)], Inr (True, cli', w'))
    \<and> session m cli' w' \<and> wrote m k (client_view m (nodes w) k) (nodes w) (nodes w')
    \<and> same_master cli cli' \<and> conn w \<subseteq>\<^sub>m conn w'"
proof -
  have fit: "17 + length k + length ([] :: str) < 2 ^ 32" using assms(3) by simp
  have "Execute os cli (lit ''get'' @ 32 # k) w = run_request os cli (lit ''get'') k [] w"
    using Execute_args [of "lit ''get''" k "[]" os cli w] assms(2) by simp
  with command_ok [OF assms(1,3) fit get_handled [OF _ _ assms(3,4)]] show ?thesis by simp
qed

end

section \<open>Sockets with the server's loop behind them\<close>

record socket =
  sock_addr :: address
  sock_in :: bytes      \<comment> \<open>received by the server, not yet consumed\<close>
  sock_out :: bytes     \<comment> \<open>sent by the server, not yet received\<close>
  sock_ended :: bool    \<comment> \<open>the server has closed the connection\<close>

record inet =
  hosts :: "address \<Rightarrow> raft_node option"
  socks :: "int \<Rightarrow> socket option"
  next_fd :: int
  send_plans :: "send_event list list"
  recv_plans :: "recv_plan list"

definition inet_connect :: "str \<Rightarrow> u16 \<Rightarrow> inet \<Rightarrow> (int \<times> bool) \<times> inet" where
  "inet_connect ip p w =
     (let fd = next_fd w; w = w\<lparr>next_fd := fd + 1\<rparr>
      in if hosts w (ip, p) = None then ((fd, False), w)
         else ((fd, True), w\<lparr>socks := (socks w)(fd \<mapsto>
                 \<lparr>sock_addr = (ip, p), sock_in = [], sock_out = [], sock_ended = False\<rparr>)\<rparr>))"

definition inet_send_plan :: "int \<Rightarrow> inet \<Rightarrow> send_event list" where
  "inet_send_plan fd w = (case send_plans w of [] \<Rightarrow> [] | ss # _ \<Rightarrow> ss)"

definition inet_sent :: "int \<Rightarrow> bytes \<Rightarrow> inet \<Rightarrow> inet" where
  "inet_sent fd wire w =
     (let w = w\<lparr>send_plans := tl (send_plans w)\<rparr>
      in case socks w fd of
           None \<Rightarrow> w
         | Some k \<Rightarrow> (case hosts w (sock_addr k) of
             None \<Rightarrow> w
           | Some n \<Rightarrow>
               if sock_ended k then w
               else (case HandleClient HandleBinaryRequest (sock_in k) [Data wire] [] n of
                   None \<Rightarrow> w\<lparr>hosts := (hosts w)(sock_addr k := None),
                             socks := (socks w)(fd \<mapsto> k\<lparr>sock_ended := True\<rparr>)\<rparr>
                 | Some (out, e, b, n) \<Rightarrow>
                     w\<lparr>hosts := (hosts w)(sock_addr k \<mapsto> n),
                       socks := (socks w)(fd \<mapsto> k\<lparr>sock_in := b, sock_out := sock_out k @ out,
                         sock_ended := (e = Closed)\<rparr>)\<rparr>)))"

definition inet_next :: "inet \<Rightarrow> recv_plan" where
  "inet_next w = (case recv_plans w of [] \<Rightarrow> ([], True) | p # _ \<Rightarrow> p)"

definition inet_recv_plan :: "int \<Rightarrow> inet \<Rightarrow> recv_event list" where
  "inet_recv_plan fd w =
     (case socks w fd of
        None \<Rightarrow> [RecvErr]
      | Some k \<Rightarrow> (case arriving (inet_next w) (sock_out k) of (es, rest) \<Rightarrow>
          es @ (if sock_ended k \<and> rest = [] then [Eof] else [])))"

definition inet_received :: "int \<Rightarrow> recv_event list \<Rightarrow> inet \<Rightarrow> inet" where
  "inet_received fd es w =
     (let w' = w\<lparr>recv_plans := tl (recv_plans w)\<rparr>
      in case socks w fd of
           None \<Rightarrow> w'
         | Some k \<Rightarrow> w'\<lparr>socks := (socks w)(fd \<mapsto>
                     k\<lparr>sock_out := stream es @ snd (arriving (inet_next w) (sock_out k))\<rparr>)\<rparr>)"

definition inet_os :: "inet os" where
  "inet_os = \<lparr>os_connect = inet_connect, os_close = \<lambda>fd w. w\<lparr>socks := (socks w)(fd := None)\<rparr>,
     os_send_plan = inet_send_plan, os_sent = inet_sent,
     os_recv_plan = inet_recv_plan, os_received = inet_received\<rparr>"

definition inet_conn :: "inet \<Rightarrow> int \<Rightarrow> address option" where
  "inet_conn w fd = map_option sock_addr (socks w fd)"

definition idle_socket :: "socket \<Rightarrow> bool" where
  "idle_socket k \<longleftrightarrow> sock_in k = [] \<and> sock_out k = [] \<and> \<not> sock_ended k"

definition inet_ready :: "inet \<Rightarrow> bool" where
  "inet_ready w \<longleftrightarrow> 0 \<le> next_fd w \<and> (\<forall>fd k. socks w fd = Some k \<longrightarrow> fd < next_fd w \<and> idle_socket k)
     \<and> (\<forall>ss \<in> set (send_plans w). whole_send ss) \<and> (\<forall>p \<in> set (recv_plans w). prompt p)"

lemma inet_exchange:
  assumes "inet_ready w" "inet_conn w fd = Some a" "hosts w a = Some n" "frame_fits q"
    and "HandleBinaryRequest n rid q = Some (r, n')" "14 + length r < 2 ^ 32"
  shows "\<exists>w1. inet_sent fd (EncodeCustomRequest rid q) w = w1 \<and> calm 5000 (inet_recv_plan fd w1)
    \<and> stream (inet_recv_plan fd w1) = respond rid r
    \<and> (\<forall>es. stream es = [] \<longrightarrow> inet_ready (inet_received fd es w1)
         \<and> inet_conn (inet_received fd es w1) = inet_conn w
         \<and> hosts (inet_received fd es w1) = (hosts w)(a \<mapsto> n'))"
proof -
  let ?f = "EncodeCustomRequest rid q"
  obtain k where k: "socks w fd = Some k" "sock_addr k = a"
    using assms(2) by (auto simp: inet_conn_def)
  have idle: "sock_in k = []" "sock_out k = []" "\<not> sock_ended k"
    using assms(1) k(1) by (auto simp: inet_ready_def idle_socket_def)
  have ne: "?f \<noteq> []" by (simp add: EncodeCustomRequest_def be32_def Let_def)
  have "calm 5000 [Data ?f]" using ne by (auto simp: calm_def quiet_event_def neq_Nil_conv)
  then have srv: "HandleClient HandleBinaryRequest [] [Data ?f] [] n = Some (respond rid r, Waiting, [], n')"
    using HandleClient_run [of "[Data ?f]" "[(rid, q)]" "[]" HandleBinaryRequest n] assms(4,5) by simp
  let ?k = "k\<lparr>sock_in := [], sock_out := respond rid r, sock_ended := False\<rparr>"
  let ?w1 = "w\<lparr>send_plans := tl (send_plans w), hosts := (hosts w)(a \<mapsto> n'), socks := (socks w)(fd \<mapsto> ?k)\<rparr>"
  have w1: "inet_sent fd ?f w = ?w1"
    using k assms(3) idle srv by (simp add: inet_sent_def Let_def)
  have "prompt (inet_next w)"
    using assms(1) by (cases "recv_plans w") (simp_all add: inet_ready_def inet_next_def prompt_def)
  then obtain es where es: "arriving (inet_next w) (respond rid r) = (es, [])" "stream es = respond rid r" "calm 5000 es"
    using arriving_prompt [of "inet_next w" 5000 "respond rid r"] by auto
  have nx: "inet_next ?w1 = inet_next w" by (simp add: inet_next_def)
  have plan: "inet_recv_plan fd ?w1 = es"
    using es(1) by (simp add: inet_recv_plan_def nx)
  have rec: "inet_received fd es' ?w1 = ?w1\<lparr>recv_plans := tl (recv_plans w),
      socks := (socks w)(fd \<mapsto> ?k\<lparr>sock_out := []\<rparr>)\<rparr>" if "stream es' = []" for es'
    using es(1) that by (simp add: inet_received_def nx Let_def)
  have "inet_ready (?w1\<lparr>recv_plans := tl (recv_plans w), socks := (socks w)(fd \<mapsto> ?k\<lparr>sock_out := []\<rparr>)\<rparr>)"
    using assms(1) k(1) by (auto simp: inet_ready_def idle_socket_def dest: in_set_tl)
  moreover have "inet_conn (?w1\<lparr>recv_plans := tl (recv_plans w), socks := (socks w)(fd \<mapsto> ?k\<lparr>sock_out := []\<rparr>)\<rparr>) = inet_conn w"
    using k by (auto simp: inet_conn_def)
  ultimately show ?thesis
    using w1 plan es(2,3) rec by (intro exI [of _ ?w1]) (simp add: w1)
qed

interpretation net: cli_net inet_os hosts inet_conn inet_ready
proof
  fix w :: inet and ip p
  assume w: "inet_ready w" "hosts w (ip, p) \<noteq> None"
  then have "socks w (next_fd w) = None"
    by (cases "socks w (next_fd w)") (auto simp: inet_ready_def)
  with w show "\<exists>fd w'. os_connect inet_os ip p w = ((fd, True), w') \<and> 0 \<le> fd \<and> inet_conn w fd = None
      \<and> inet_ready w' \<and> inet_conn w' = (inet_conn w)(fd \<mapsto> (ip, p)) \<and> hosts w' = hosts w"
    by (auto simp: inet_os_def inet_connect_def inet_conn_def inet_ready_def idle_socket_def Let_def fun_eq_iff)
      (metis less_imp_le)
next
  fix w :: inet and fd
  assume "inet_ready w"
  then show "inet_ready (os_close inet_os fd w) \<and> hosts (os_close inet_os fd w) = hosts w
      \<and> inet_conn (os_close inet_os fd w) = (inet_conn w)(fd := None)"
    by (auto simp: inet_os_def inet_ready_def inet_conn_def fun_eq_iff)
next
  fix w :: inet and fd
  assume "inet_ready w"
  then show "whole_send (os_send_plan inet_os fd w)"
    by (cases "send_plans w") (simp_all add: inet_os_def inet_send_plan_def inet_ready_def whole_send_def)
qed (use inet_exchange in \<open>simp add: inet_os_def\<close>)

section \<open>A session\<close>

text \<open>A session of commands. On a network that answers, with the master's table readable
  and every tablet at a running data node that accepts writes, \<open>put k v\<close> prints \<open>OK\<close>,
  \<open>get k\<close> then prints the value, \<open>delete k\<close> prints \<open>OK\<close>, and \<open>get k\<close> then prints
  \<open>Key not found\<close>, for every key that is a word and every value without a newline that does not
  begin with a space. The other keys keep their values as other clients see them.\<close>
lemma cli_session:
  assumes "inet_ready w" "linked (inet_conn w) cli" "hosts w (master_ip cli, master_port cli) = Some m"
    and "readable_master m" "served m (hosts w)"
    and "is_word k" "length k < 2 ^ 16" "17 + length k + length v < 2 ^ 32"
    and "v \<noteq> []" "hd v \<noteq> 32" "10 \<notin> set v"
  shows "\<exists>cli' w'. cli_run inet_os cli
      [lit ''put '' @ k @ 32 # v, lit ''get '' @ k, lit ''delete '' @ k, lit ''get '' @ k] w
    = ([Stdout (lit ''OK''), Stdout v, Stdout (lit ''OK''), Stdout (lit ''Key not found'')], Inr (cli', w'))
    \<and> client_view m (hosts w') = (client_view m (hosts w))(k := None)"
proof -
  have lit: "lit ''put '' @ x = lit ''put'' @ 32 # x" "lit ''get '' @ x = lit ''get'' @ 32 # x"
    "lit ''delete '' @ x = lit ''delete'' @ 32 # x" for x
    by (simp_all add: lit_def)
  have s0: "net.session m cli w" using assms(1-5) by (simp add: net.session_def)
  obtain c1 w1 where s1: "Execute inet_os cli (lit ''put'' @ 32 # k @ 32 # v) w
      = ([Stdout (lit ''OK'')], Inr (True, c1, w1))" "net.session m c1 w1"
    "client_view m (hosts w1) = (client_view m (hosts w))(k \<mapsto> v)"
    using net.put_ok [OF s0 assms(6-11)] wrote_view by blast
  have "15 + length u < 2 ^ 32" if "client_view m (hosts w1) k = Some u" for u
    using that s1(3) assms(8) by simp
  from net.get_ok [OF s1(2) assms(6,7) this] obtain c2 w2 where
    s2: "Execute inet_os c1 (lit ''get'' @ 32 # k) w1 = ([get_output (Some v)], Inr (True, c2, w2))"
    "net.session m c2 w2" "client_view m (hosts w2) = client_view m (hosts w1)"
    using s1(3) wrote_view by fastforce
  obtain c3 w3 where s3: "Execute inet_os c2 (lit ''delete'' @ 32 # k) w2
      = ([Stdout (lit ''OK'')], Inr (True, c3, w3))" "net.session m c3 w3"
    "client_view m (hosts w3) = (client_view m (hosts w2))(k := None)"
    using net.delete_ok [OF s2(2) assms(6,7)] wrote_view by blast
  have "15 + length u < 2 ^ 32" if "client_view m (hosts w3) k = Some u" for u
    using that s3(3) by simp
  from net.get_ok [OF s3(2) assms(6,7) this] obtain c4 w4 where
    s4: "Execute inet_os c3 (lit ''get'' @ 32 # k) w3 = ([get_output None], Inr (True, c4, w4))"
    "client_view m (hosts w4) = client_view m (hosts w3)"
    using s3(3) wrote_view by fastforce
  have "get_output (Some v) = Stdout v" "get_output None = Stdout (lit ''Key not found'')"
    using assms(9) by (cases v; simp add: get_output_def)+
  moreover have "client_view m (hosts w4) = (client_view m (hosts w))(k := None)"
    using s1(3) s2(3) s3(3) s4(2) by simp
  ultimately show ?thesis
    unfolding lit using s1(1) s2(1) s3(1) s4(1) by simp
qed

lemma sample_master_readable: "readable_master sample_master"
proof -
  have "length (shards_text sample_master) < 100"
    using sample_addr by (simp add: shards_text_def sample_master_def lit_def to_string.simps)
  then show ?thesis
    using sample_readable sample_facts(6,7)
    by (simp add: readable_master_def IsMaster_def) (simp add: sample_master_def)
qed

definition sample_inet :: inet where
  "sample_inet = \<lparr>hosts = [(lit ''h'', LEADER_PORT) \<mapsto> sample_master,
       (lit ''h'', 9002) \<mapsto> sample_node, (lit ''h'', 9003) \<mapsto> sample_node\<lparr>self_id := 3\<rparr>],
     socks = Map.empty, next_fd = 3, send_plans = [[Sent 1, SendAgain]], recv_plans = [([2, 0, 1], True)]\<rparr>"

end
