(* ===== verification/End_To_End.thy ===== *)
theory End_To_End
  imports Cli_Session
begin

text \<open>
  The balancer and the clients at work on the same nodes: what a migration by the master of
  \<open>Cluster\<close> looks like from the sockets of \<open>Cli_Session\<close>.
\<close>

section \<open>The same nodes seen by master and clients\<close>

text \<open>The link of the master to node \<open>i\<close> ends at the data node that clients find at its address.\<close>

definition same_nodes :: "raft_node \<Rightarrow> (u32 \<Rightarrow> raft_node option) \<Rightarrow> (address \<Rightarrow> raft_node option) \<Rightarrow> bool" where
  "same_nodes m ns hs \<longleftrightarrow> (\<forall>i p. node_peer m i = Some p \<longrightarrow>
     ns i = (case hs (peer_ip p, peer_port p) of None \<Rightarrow> None | Some n \<Rightarrow> if IsMaster n then None else Some n))"

lemma same_nodesD:
  assumes "same_nodes m ns hs" "node_peer m i = Some p"
  shows "hs (peer_ip p, peer_port p) = Some n \<Longrightarrow> data_node n \<Longrightarrow> ns i = Some n"
    and "ns i = Some n \<Longrightarrow> hs (peer_ip p, peer_port p) = Some n"
  using assms by (auto simp: same_nodes_def data_node_def split: option.splits if_splits)

lemma client_view_cluster:
  assumes "tablets_partition (tablets m)" "served m hs" "same_nodes m ns hs"
  shows "client_view m hs k = cluster_get m ns k"
proof -
  obtain t where t: "t \<in> set (tablets m)" "GetTabletRoute m k = Some t"
    using GetTabletRoute_finds [OF assms(1), of k] by blast
  obtain p n where n: "node_peer m (node_id t) = Some p" "hs (peer_ip p, peer_port p) = Some n" "data_node n"
    using assms(2) t(1) unfolding served_def by blast
  have "ns (node_id t) = Some n" by (rule same_nodesD(1) [OF assms(3) n])
  with t(2) n(1,2) show ?thesis by (simp add: client_view_def cluster_get_def)
qed

lemma servedI:
  assumes "\<forall>t \<in> set (tablets m). \<exists>p n. node_peer m (node_id t) = Some p \<and> ns (node_id t) = Some n
      \<and> data_node n \<and> node_writable n"
    and "same_nodes m ns hs"
  shows "served m hs"
  unfolding served_def
proof
  fix t assume "t \<in> set (tablets m)"
  then obtain p n where n: "node_peer m (node_id t) = Some p" "ns (node_id t) = Some n" "data_node n" "node_writable n"
    using assms(1) by blast
  from same_nodesD(2) [OF assms(2) n(1,2)] n
  show "\<exists>p n. node_peer m (node_id t) = Some p \<and> hs (peer_ip p, peer_port p) = Some n \<and> data_node n \<and> node_writable n"
    by blast
qed

lemma served_cluster:
  assumes "served m hs" "same_nodes m ns hs" "t \<in> set (tablets m)"
  shows "\<exists>p n. node_peer m (node_id t) = Some p \<and> ns (node_id t) = Some n \<and> data_node n \<and> node_writable n"
  using assms same_nodesD(1) [OF assms(2)] unfolding served_def by blast

section \<open>The table after a migration\<close>

definition moved :: "raft_node \<Rightarrow> nat \<Rightarrow> u32 \<Rightarrow> raft_node" where
  "moved m idx dst = m\<lparr>tablets := (tablets m)[idx := (tablets m ! idx)\<lparr>node_id := dst\<rparr>], epoch := epoch m + 1\<rparr>"

lemma moved_simps [simp]:
  "tablets (moved m idx dst) = (tablets m)[idx := (tablets m ! idx)\<lparr>node_id := dst\<rparr>]"
  "node_peer (moved m idx dst) i = node_peer m i" "IsMaster (moved m idx dst) = IsMaster m"
  by (simp_all add: moved_def node_peer_def IsMaster_def)

lemma moved_tablet:
  assumes "t' \<in> set (tablets (moved m idx dst))"
  obtains "t' \<in> set (tablets m)" | "t' = (tablets m ! idx)\<lparr>node_id := dst\<rparr>"
  using assms by (auto elim: moved_member)

lemma moved_partition:
  assumes "tablets_partition (tablets m)" "idx < length (tablets m)"
  shows "tablets_partition (tablets (moved m idx dst))"
  using partition_move [OF assms(2)] assms(1) by simp

lemma moved_readable:
  assumes "readable_master m" "idx < length (tablets m)" "node_peer m dst = Some p" "clean (peer_ip p)"
    and "15 + length (shards_text (moved m idx dst)) < 2 ^ 32"
  shows "readable_master (moved m idx dst)"
proof -
  have m: "IsMaster m" "tablets_partition (tablets m)" "\<forall>t \<in> set (tablets m). readable_tablet m t"
    "length (tablets m) < 2 ^ 64"
    using assms(1) by (simp_all add: readable_master_def)
  have "readable_tablet (moved m idx dst) t'" if "t' \<in> set (tablets (moved m idx dst))" for t'
  proof (rule moved_tablet [OF that])
    assume "t' \<in> set (tablets m)"
    with m(3) show ?thesis by (simp add: readable_tablet_def)
  next
    have "readable_tablet m (tablets m ! idx)" using m(3) assms(2) by simp
    moreover assume "t' = (tablets m ! idx)\<lparr>node_id := dst\<rparr>"
    ultimately show ?thesis using assms(3,4) by (simp add: readable_tablet_def)
  qed
  with m assms(5) moved_partition [OF m(2) assms(2)] show ?thesis
    unfolding readable_master_def by simp
qed

text \<open>What a migration does to the data nodes and to what is found on them.\<close>

lemma migrated:
  assumes "healthy cw" "tablets_partition (tablets m)" "idx < length (tablets m)" "dst \<noteq> node_id (tablets m ! idx)"
    and "data_nodes cw (node_id (tablets m ! idx)) = Some a" "data_node a" "node_writable a"
    and "data_nodes cw dst = Some b" "data_node b" "node_writable b" "\<forall>k. owns (tablets m ! idx) k \<longrightarrow> node_get b k = None"
    and "range_fits a (start_key (tablets m ! idx)) (end_key (tablets m ! idx))"
    and "writes_tables dump (boundaries (tablets m))"
  shows "\<exists>cw' a' b'. MigrateTablet (cluster_env dump) idx dst m cw = Some (True, moved m idx dst, cw')
    \<and> healthy cw' \<and> data_nodes cw' = (data_nodes cw)(node_id (tablets m ! idx) \<mapsto> a', dst \<mapsto> b')
    \<and> data_node a' \<and> node_writable a' \<and> data_node b' \<and> node_writable b'
    \<and> cluster_get (moved m idx dst) (data_nodes cw') = cluster_get m (data_nodes cw)"
proof -
  let ?t = "tablets m ! idx"
  from cl.MigrateTablet_ok [OF conjI [OF assms(1,13)] assms(3) refl assms(4,5,8,6,9,12) order_refl] obtain cw' a' b' where m:
    "MigrateTablet (cluster_env dump) idx dst m cw = Some (True, moved m idx dst, cw')" "healthy cw'"
    "data_nodes cw' = (data_nodes cw)(node_id ?t \<mapsto> a', dst \<mapsto> b')" "data_node a'" "data_node b'"
    "node_writable a' = node_writable a" "node_writable b' = node_writable b"
    "node_get b' = moved_pairs a b (start_key ?t) (end_key ?t)"
    "\<forall>k. node_get a' k = (if owns ?t k \<and> node_writable a then None else node_get a k)"
    unfolding moved_def by blast
  have "cluster_get (moved m idx dst) (data_nodes cw') k = cluster_get m (data_nodes cw) k" for k
    using cluster_get_moved [OF assms(2,3) refl assms(4,5,8,6) m(3,8,9), of "moved m idx dst" k] assms(10,11)
    by (cases "cluster_get m (data_nodes cw) k") simp_all
  with m(1-7) assms(7,10) show ?thesis by blast
qed

section \<open>A client that reads before and after\<close>

lemma get_prints:
  assumes "inet_ready w" "linked (inet_conn w) cli" "hosts w (master_ip cli, master_port cli) = Some m"
    and "readable_master m" "served m (hosts w)"
    and "is_word k" "length k < 2 ^ 16" "\<And>v. client_view m (hosts w) k = Some v \<Longrightarrow> 15 + length v < 2 ^ 32"
  shows "\<exists>cli' w'. Execute inet_os cli (lit ''get '' @ k) w
    = ([get_output (client_view m (hosts w) k)], Inr (True, cli', w'))"
proof -
  have "net.session m cli w" using assms(1-5) by (simp add: net.session_def)
  moreover have "lit ''get '' @ k = lit ''get'' @ 32 # k" by (simp add: lit_def)
  ultimately show ?thesis using net.get_ok [of m cli w k] assms(6-8) by fastforce
qed

text \<open>Property C7 (clients do not notice a migration). The master moves a tablet to a data node that
  accepts writes and has no key of its range, on a healthy cluster of the nodes that clients
  reach. The migration succeeds, and whatever state of the network a client meets afterwards in
  which the master and the data nodes are those the migration left, the client can read the
  table, every tablet is served, and \<open>get\<close> of any key prints what it would have printed before.\<close>
theorem migration_unseen:
  assumes "healthy cw" "same_nodes m (data_nodes cw) (hosts w)"
    and "inet_ready w" "linked (inet_conn w) cli" "hosts w (master_ip cli, master_port cli) = Some m"
    and "readable_master m" "served m (hosts w)"
    and "idx < length (tablets m)" "dst \<noteq> node_id (tablets m ! idx)" "node_peer m dst = Some p" "clean (peer_ip p)"
    and "data_nodes cw dst = Some b" "data_node b" "node_writable b"
    and "\<forall>k. owns (tablets m ! idx) k \<longrightarrow> node_get b k = None"
    and "data_nodes cw (node_id (tablets m ! idx)) = Some a"
    and "range_fits a (start_key (tablets m ! idx)) (end_key (tablets m ! idx))"
    and "15 + length (shards_text (moved m idx dst)) < 2 ^ 32"
    and "writes_tables dump (boundaries (tablets m))"
  shows "\<exists>m' cw'. MigrateTablet (cluster_env dump) idx dst m cw = Some (True, m', cw') \<and> healthy cw'
    \<and> (\<forall>cli' w'. inet_ready w' \<and> linked (inet_conn w') cli' \<and> hosts w' (master_ip cli', master_port cli') = Some m'
          \<and> same_nodes m' (data_nodes cw') (hosts w') \<longrightarrow>
        readable_master m' \<and> served m' (hosts w')
        \<and> (\<forall>k. is_word k \<and> length k < 2 ^ 16 \<and> (\<forall>v. client_view m (hosts w) k = Some v \<longrightarrow> 15 + length v < 2 ^ 32) \<longrightarrow>
             (\<exists>out c1 w1 c2 w2. Execute inet_os cli (lit ''get '' @ k) w = ([out], Inr (True, c1, w1))
                \<and> Execute inet_os cli' (lit ''get '' @ k) w' = ([out], Inr (True, c2, w2)))))"
proof -
  let ?t = "tablets m ! idx" and ?m = "moved m idx dst"
  have part: "tablets_partition (tablets m)" using assms(6) by (simp add: readable_master_def)
  have a: "data_node a" "node_writable a"
    using served_cluster [OF assms(7,2), of ?t] assms(8,16) by auto
  obtain cw' a' b' where mig: "MigrateTablet (cluster_env dump) idx dst m cw = Some (True, ?m, cw')" "healthy cw'"
    "data_nodes cw' = (data_nodes cw)(node_id ?t \<mapsto> a', dst \<mapsto> b')"
    "data_node a'" "node_writable a'" "data_node b'" "node_writable b'"
    "cluster_get ?m (data_nodes cw') = cluster_get m (data_nodes cw)"
    using migrated [OF assms(1) part assms(8,9,16) a assms(12-15,17,19)] by blast
  have readable: "readable_master ?m" by (rule moved_readable [OF assms(6,8,10,11,18)])
  have owners: "\<exists>p n. node_peer ?m (node_id t') = Some p \<and> data_nodes cw' (node_id t') = Some n
      \<and> data_node n \<and> node_writable n" if "t' \<in> set (tablets ?m)" for t'
  proof (rule moved_tablet [OF that])
    assume "t' \<in> set (tablets m)"
    from served_cluster [OF assms(7,2) this] show ?thesis using mig(3-7) by auto
  next
    assume "t' = ?t\<lparr>node_id := dst\<rparr>"
    then show ?thesis using assms(10) mig(3,6,7) by simp
  qed
  have view: "client_view m (hosts w) = cluster_get m (data_nodes cw)"
    using client_view_cluster [OF part assms(7,2)] by blast
  have after: "served ?m (hosts w') \<and> client_view ?m (hosts w') = client_view m (hosts w)"
    if "same_nodes ?m (data_nodes cw') (hosts w')" for w'
  proof -
    have "served ?m (hosts w')" by (rule servedI [OF _ that]) (use owners in blast)
    moreover from client_view_cluster [OF moved_partition [OF part assms(8)] this that]
    have "client_view ?m (hosts w') = client_view m (hosts w)" by (simp add: view mig(8) fun_eq_iff)
    ultimately show ?thesis by blast
  qed
  have "\<exists>out c1 w1 c2 w2. Execute inet_os cli (lit ''get '' @ k) w = ([out], Inr (True, c1, w1))
      \<and> Execute inet_os cli' (lit ''get '' @ k) w' = ([out], Inr (True, c2, w2))"
    if w': "inet_ready w'" "linked (inet_conn w') cli'" "hosts w' (master_ip cli', master_port cli') = Some ?m"
      "same_nodes ?m (data_nodes cw') (hosts w')"
      and k: "is_word k" "length k < 2 ^ 16" "\<forall>v. client_view m (hosts w) k = Some v \<longrightarrow> 15 + length v < 2 ^ 32"
    for cli' w' k
  proof -
    have "served ?m (hosts w')" "client_view ?m (hosts w') = client_view m (hosts w)"
      using after [OF w'(4)] by blast+
    with get_prints [OF assms(3-7) k(1,2)] get_prints [OF w'(1-3) readable _ k(1,2)] k(3)
    show ?thesis by fastforce
  qed
  with mig(1,2) readable after show ?thesis by blast
qed

text \<open>The sample cluster with an empty second node, and the network a client finds on it.\<close>

definition sample_net :: "raft_node \<Rightarrow> (u32 \<Rightarrow> raft_node option) \<Rightarrow> inet" where
  "sample_net m ns = sample_inet\<lparr>hosts := (\<lambda>a.
     if a = (lit ''h'', LEADER_PORT) then Some m
     else if a = (lit ''h'', 9002) then ns 2 else if a = (lit ''h'', 9003) then ns 3 else None)\<rparr>"

lemma sample_net_facts:
  "inet_ready (sample_net m ns)" "linked (inet_conn (sample_net m ns)) (Init (lit ''h'') LEADER_PORT)"
  "hosts (sample_net m ns) (master_ip (Init (lit ''h'') LEADER_PORT), master_port (Init (lit ''h'') LEADER_PORT)) = Some m"
  by (auto simp: sample_net_def inet_ready_def sample_inet_def prompt_def whole_send_def linked_def
      Init_def new_client_def IsConnected_def)

lemma sample_peers:
  "node_peer sample_master i = (if i = 1 then Some \<lparr>peer_id = 1, peer_ip = lit ''h'', peer_port = LEADER_PORT\<rparr>
     else if i = 2 then Some \<lparr>peer_id = 2, peer_ip = lit ''h'', peer_port = 9002\<rparr>
     else if i = 3 then Some \<lparr>peer_id = 3, peer_ip = lit ''h'', peer_port = 9003\<rparr> else None)"
proof -
  have "unat (ucast i :: u64) = unat i"
    using unat_u32_bound [of i] by (simp add: unsigned_ucast_eq take_bit_nat_eq_self)
  then have "(1 = (ucast i :: u64)) = (i = 1)" "(2 = (ucast i :: u64)) = (i = 2)" "(3 = (ucast i :: u64)) = (i = 3)"
    by (auto simp: word_unat_eq_iff)
  then show ?thesis by (simp add: node_peer_def sample_master_def)
qed

lemma sample_tablets:
  "tablets sample_master = [\<lparr>tablet_id = 1, start_key = [], end_key = lit ''m'', node_id = 2, key_count = 9\<rparr>,
     \<lparr>tablet_id = 2, start_key = lit ''m'', end_key = [], node_id = 3, key_count = 0\<rparr>]"
  by (simp add: sample_master_def)

lemma sample_get: "cluster_get sample_master (data_nodes (sample_cluster DB_Open)) [97] = Some [1]"
  by code_simp

lemma sample_moved_short: "15 + length (shards_text (moved sample_master 0 3)) < 2 ^ 32"
proof -
  have "GetNodeAddr (moved sample_master 0 3) i = GetNodeAddr sample_master i" for i
    by (simp add: GetNodeAddr_def moved_def)
  then have "length (shards_text (moved sample_master 0 3)) < 100"
    using sample_addr by (simp add: shards_text_def sample_tablets lit_def to_string.simps)
  then show ?thesis by simp
qed

lemma sample_same_nodes:
  assumes "node_peer m = node_peer sample_master" "IsMaster m" "ns 1 = None"
    and "\<And>n. ns 2 = Some n \<Longrightarrow> data_node n" "\<And>n. ns 3 = Some n \<Longrightarrow> data_node n"
  shows "same_nodes m ns (hosts (sample_net m ns))"
  using assms by (auto simp: same_nodes_def sample_peers sample_net_def LEADER_PORT_def data_node_def split: option.splits)

theorem migration_unseen_witness:
  "\<exists>m' cw' w'. MigrateTablet (cluster_env sample_dump) 0 3 sample_master (sample_cluster DB_Open) = Some (True, m', cw')
     \<and> hosts w' (lit ''h'', LEADER_PORT) = Some m' \<and> node_id (tablets m' ! 0) = 3
     \<and> (\<exists>c1 w1. Execute inet_os (Init (lit ''h'') LEADER_PORT) (lit ''get a'') w' = ([Stdout [1]], Inr (True, c1, w1)))"
proof -
  let ?cw = "sample_cluster DB_Open" and ?m = "moved sample_master 0 3" and ?cli = "Init (lit ''h'') LEADER_PORT"
  let ?b = "sample_node\<lparr>self_id := 3, storage := Some DB_Open\<rparr>"
  let ?w = "sample_net sample_master (data_nodes ?cw)"
  have b: "node_get ?b k = None" for k
    by (simp add: node_get_def DB_Get_def DB_Open_def MemTable_Get_def MemTable_Seek_def)
  have wr: "node_writable sample_node" "node_writable ?b" by code_simp+
  have m0: "node_id (tablets sample_master ! 0) = 2" "idx < 2 \<Longrightarrow> idx < length (tablets sample_master)" for idx
    by simp_all
  obtain cw' a' b' where mig: "MigrateTablet (cluster_env sample_dump) 0 3 sample_master ?cw = Some (True, ?m, cw')"
    "data_nodes cw' = (data_nodes ?cw)(2 \<mapsto> a', 3 \<mapsto> b')" "data_node a'" "data_node b'"
    using migrated [of ?cw sample_master 0 3 sample_node ?b sample_dump] wr b by auto
  let ?w' = "sample_net ?m (data_nodes cw')"
  have same: "same_nodes sample_master (data_nodes ?cw) (hosts ?w)"
    by (rule sample_same_nodes) (auto simp: IsMaster_def sample_master_def sample_cluster_def)
  have same': "same_nodes ?m (data_nodes cw') (hosts ?w')"
    by (rule sample_same_nodes)
      (use mig(2-4) in \<open>auto simp: fun_eq_iff sample_cluster_def\<close>, simp add: IsMaster_def sample_master_def)
  have served: "served sample_master (hosts ?w)"
    by (rule servedI [OF _ same]) (use wr in \<open>simp add: sample_tablets sample_peers\<close>)
  have view: "client_view sample_master (hosts ?w) [97] = Some [1]"
    using client_view_cluster [OF _ served same, of "[97]"] sample_get by simp
  have word: "is_word [97]" "lit ''get a'' = lit ''get '' @ [97]" by (code_simp, simp add: lit_def)
  have before: "\<exists>c w. Execute inet_os ?cli (lit ''get '' @ [97]) ?w = ([Stdout [1]], Inr (True, c, w))"
    using get_prints [OF sample_net_facts sample_master_readable served word(1)] view
    by (simp add: get_output_def)
  have p: "node_peer sample_master 3 = Some \<lparr>peer_id = 3, peer_ip = lit ''h'', peer_port = 9003\<rparr>"
    by (simp add: sample_peers)
  have side: "0 < length (tablets sample_master)" "(3 :: u32) \<noteq> node_id (tablets sample_master ! 0)" "clean (lit ''h'')"
    "data_nodes ?cw 3 = Some ?b" "data_node ?b" "data_nodes ?cw (node_id (tablets sample_master ! 0)) = Some sample_node"
    "range_fits sample_node (start_key (tablets sample_master ! 0)) (end_key (tablets sample_master ! 0))"
    "\<forall>k. owns (tablets sample_master ! 0) k \<longrightarrow> node_get ?b k = None"
    using b by (simp_all add: clean_def is_space_def)
  have p': "clean (peer_ip \<lparr>peer_id = 3, peer_ip = lit ''h'', peer_port = 9003\<rparr>)" using side(3) by simp
  from migration_unseen [OF sample_cluster_healthy same sample_net_facts sample_master_readable served
      side(1,2) p p' side(4,5) wr(2) side(8,6,7) sample_moved_short sample_dump_writes]
  obtain m' cw'' where "MigrateTablet (cluster_env sample_dump) 0 3 sample_master ?cw = Some (True, m', cw'')"
    and reads: "\<forall>cli' w'. inet_ready w' \<and> linked (inet_conn w') cli' \<and> hosts w' (master_ip cli', master_port cli') = Some m'
        \<and> same_nodes m' (data_nodes cw'') (hosts w') \<longrightarrow> readable_master m' \<and> served m' (hosts w')
        \<and> (\<forall>k. is_word k \<and> length k < 2 ^ 16 \<and> (\<forall>v. client_view sample_master (hosts ?w) k = Some v \<longrightarrow> 15 + length v < 2 ^ 32) \<longrightarrow>
             (\<exists>out c1 w1 c2 w2. Execute inet_os ?cli (lit ''get '' @ k) ?w = ([out], Inr (True, c1, w1))
                \<and> Execute inet_os cli' (lit ''get '' @ k) w' = ([out], Inr (True, c2, w2))))"
    by (elim exE conjE) (rule that)
  then have eq: "m' = ?m" "cw'' = cw'" using mig(1) by simp_all
  note again = reads [unfolded eq, rule_format, of ?w' ?cli, THEN conjunct2, THEN conjunct2, rule_format, of "[97]"]
  have "\<exists>out c1 w1 c2 w2. Execute inet_os ?cli (lit ''get '' @ [97]) ?w = ([out], Inr (True, c1, w1))
      \<and> Execute inet_os ?cli (lit ''get '' @ [97]) ?w' = ([out], Inr (True, c2, w2))"
    by (rule again) (use same' sample_net_facts word(1) view in simp_all)
  with before have "\<exists>c w. Execute inet_os ?cli (lit ''get a'') ?w' = ([Stdout [1]], Inr (True, c, w))"
    unfolding word(2) by auto
  with mig(1) show ?thesis
    by (intro exI [of _ ?m] exI [of _ cw'] exI [of _ ?w']) (simp add: sample_net_def)
qed

end
