(* ===== verification/System.thy ===== *)
theory System
  imports Connections End_To_End
begin

text \<open>
  The whole system: a network of nodes, the master's balancer and any number of command line
  clients, all working on the same nodes. Commands and balancer rounds come in any order, one
  after the other; what the clients see is one map. The theories \<open>Interleaving\<close> and \<open>Interference\<close> show
  what happens when they are not one after the other.
\<close>

section \<open>The state and its steps\<close>

text \<open>The nodes are those of the network. The record \<open>cluster\<close> holds the master's links to the data
  nodes, and its \<open>data_nodes\<close> are taken from the network before the balancer runs and put back
  afterwards.\<close>

record system =
  net :: inet
  master_side :: cluster
  leader :: address
  users :: "cli list"

definition nodes_of :: "raft_node \<Rightarrow> (address \<Rightarrow> raft_node option) \<Rightarrow> u32 \<Rightarrow> raft_node option" where
  "nodes_of m hs i =
     (case node_peer m i of
        None \<Rightarrow> None
      | Some p \<Rightarrow> (case hs (peer_ip p, peer_port p) of
          None \<Rightarrow> None
        | Some n \<Rightarrow> if IsMaster n then None else Some n))"

definition put_back :: "raft_node \<Rightarrow> (u32 \<Rightarrow> raft_node option) \<Rightarrow> (address \<Rightarrow> raft_node option)
    \<Rightarrow> address \<Rightarrow> raft_node option" where
  "put_back m ns hs a =
     (case find (\<lambda>p. (peer_ip p, peer_port p) = a) (peers m) of
        None \<Rightarrow> hs a
      | Some p \<Rightarrow> (case hs a of
          None \<Rightarrow> None
        | Some n \<Rightarrow> if IsMaster n then Some n else ns (ucast (peer_id p))))"

datatype action = Put nat str str | Get nat str | Delete nat str | Balance nat

text \<open>User \<open>i\<close> types a line; \<open>None\<close> when there is no such user or the client ends.\<close>

definition type_line :: "nat \<Rightarrow> str \<Rightarrow> system \<Rightarrow> (printed list \<times> system) option" where
  "type_line i line s =
     (if length (users s) \<le> i then None
      else case Execute inet_os (users s ! i) line (net s) of
          (out, Inl _) \<Rightarrow> None
        | (out, Inr (_, c, w)) \<Rightarrow> Some (out, s\<lparr>net := w, users := (users s)[i := c]\<rparr>))"

definition balance :: "(json \<Rightarrow> bytes option) \<Rightarrow> nat \<Rightarrow> system \<Rightarrow> system option" where
  "balance dump rounds s =
     (let hs = hosts (net s)
      in case hs (leader s) of
           None \<Rightarrow> None
         | Some m \<Rightarrow>
             (case BalancerLoop (cluster_env dump) rounds m (master_side s\<lparr>data_nodes := nodes_of m hs\<rparr>) of
                None \<Rightarrow> None
              | Some (m', cw) \<Rightarrow> Some (s\<lparr>master_side := cw,
                  net := net s\<lparr>hosts := (put_back m (data_nodes cw) hs)(leader s \<mapsto> m')\<rparr>\<rparr>)))"

fun sys_step :: "(json \<Rightarrow> bytes option) \<Rightarrow> action \<Rightarrow> system \<Rightarrow> (printed list \<times> system) option" where
  "sys_step dump (Put i k v) s = type_line i (lit ''put '' @ k @ 32 # v) s"
| "sys_step dump (Get i k) s = type_line i (lit ''get '' @ k) s"
| "sys_step dump (Delete i k) s = type_line i (lit ''delete '' @ k) s"
| "sys_step dump (Balance rounds) s = map_option (Pair []) (balance dump rounds s)"

fun sys_run :: "(json \<Rightarrow> bytes option) \<Rightarrow> action list \<Rightarrow> system \<Rightarrow> (printed list list \<times> system) option" where
  "sys_run dump [] s = Some ([], s)"
| "sys_run dump (a # as) s =
     (case sys_step dump a s of
        None \<Rightarrow> None
      | Some (out, s) \<Rightarrow> map_option (\<lambda>(outs, s). (out # outs, s)) (sys_run dump as s))"

section \<open>The specification: one map\<close>

fun spec_step :: "action \<Rightarrow> (str \<Rightarrow> str option) \<Rightarrow> printed list \<times> (str \<Rightarrow> str option)" where
  "spec_step (Put i k v) M = ([Stdout (lit ''OK'')], M(k \<mapsto> v))"
| "spec_step (Get i k) M = ([get_output (M k)], M)"
| "spec_step (Delete i k) M = ([Stdout (lit ''OK'')], M(k := None))"
| "spec_step (Balance rounds) M = ([], M)"

fun spec_run :: "action list \<Rightarrow> (str \<Rightarrow> str option) \<Rightarrow> printed list list \<times> (str \<Rightarrow> str option)" where
  "spec_run [] M = ([], M)"
| "spec_run (a # as) M =
     (case spec_step a M of (out, M) \<Rightarrow> case spec_run as M of (outs, M) \<Rightarrow> (out # outs, M))"

text \<open>Which actions are looked at, for a set \<open>E\<close> of keys that are ever written and \<open>u\<close> users: words
  as keys, values that a command line can hold, and for the balancer a store that fits one scan
  response.\<close>

fun admissible_step :: "str set \<Rightarrow> nat \<Rightarrow> (str \<Rightarrow> str option) \<Rightarrow> action \<Rightarrow> bool" where
  "admissible_step E u M (Put i k v) \<longleftrightarrow> i < u \<and> is_word k \<and> k \<in> E
     \<and> 17 + length k + length v < 2 ^ 32 \<and> v \<noteq> [] \<and> hd v \<noteq> 32 \<and> 10 \<notin> set v"
| "admissible_step E u M (Get i k) \<longleftrightarrow> i < u \<and> is_word k \<and> length k < 2 ^ 16"
| "admissible_step E u M (Delete i k) \<longleftrightarrow> i < u \<and> is_word k \<and> length k < 2 ^ 16"
| "admissible_step E u M (Balance rounds) \<longleftrightarrow> 19 + map_bytes M < 2 ^ 32"

fun admissible :: "str set \<Rightarrow> nat \<Rightarrow> (str \<Rightarrow> str option) \<Rightarrow> action list \<Rightarrow> bool" where
  "admissible E u M [] \<longleftrightarrow> True"
| "admissible E u M (a # as) \<longleftrightarrow> admissible_step E u M a \<and> admissible E u (snd (spec_step a M)) as"

section \<open>The size of the table's text\<close>

lemma length_to_string:
  assumes "n < 10 ^ d" "0 < d"
  shows "length (to_string n) \<le> d"
  using assms
proof (induction d arbitrary: n)
  case (Suc d)
  show ?case
  proof (cases "n < 10")
    case True
    then show ?thesis by (subst to_string.simps) simp
  next
    case False
    then have "0 < d" "n div 10 < 10 ^ d" using Suc.prems(1) by (cases d; simp add: less_mult_imp_div_less)+
    from Suc.IH [OF this(2,1)] False show ?thesis by (subst to_string.simps) simp
  qed
qed simp

lemma length_to_string_u64: "length (to_string (unat (x :: u64))) \<le> 20"
  by (rule length_to_string) (use unat_u64 [of x] in simp_all)

lemma length_to_string_u16: "length (to_string (unat (x :: u16))) \<le> 5"
  by (rule length_to_string) (use unat_u16_bound [of x] in simp_all)

lemma length_spaced: "length (spaced ss) \<le> sum_list (map (\<lambda>s. length s + 1) ss)"
  by (induction ss rule: spaced.induct) simp_all

text \<open>A bound for tables whose boundaries are in a set \<open>E\<close> and whose addresses have hosts of at most
  \<open>L\<close> bytes.\<close>

definition table_bytes :: "nat \<Rightarrow> str set \<Rightarrow> nat" where
  "table_bytes L E = (\<Sum>k \<in> insert [] E. 2 * length k + L + 40)"

lemma ends_length:
  assumes "partitions lo hi s ts"
  shows "sum_list (map (\<lambda>t. length (hi t)) ts) + length s = sum_list (map (\<lambda>t. length (lo t)) ts)"
  using assms by (induction lo hi s ts rule: partitions.induct) auto

lemma table_bytes_starts:
  assumes "tablets_partition ts" "boundaries ts \<subseteq> insert [] E" "finite E"
  shows "sum_list (map (\<lambda>t. length (start_key t) + length (end_key t) + L + 40) ts) \<le> table_bytes L E"
    and "length ts \<le> table_bytes L E"
proof -
  let ?f = "\<lambda>k. 2 * length k + L + 40"
  have "sum_list (map (\<lambda>t. length (start_key t) + length (end_key t) + L + 40) us)
      = sum_list (map (\<lambda>t. length (start_key t)) us) + sum_list (map (\<lambda>t. length (end_key t)) us)
        + (L + 40) * length us" for us :: "tablet list"
    by (induction us) (simp_all add: algebra_simps)
  moreover have "sum_list (map ?f (map start_key us))
      = 2 * sum_list (map (\<lambda>t. length (start_key t)) us) + (L + 40) * length us" for us :: "tablet list"
    by (induction us) (simp_all add: algebra_simps)
  moreover have "sum_list (map (\<lambda>t. length (end_key t)) ts) = sum_list (map (\<lambda>t. length (start_key t)) ts)"
    using ends_length [OF assms(1)] by simp
  ultimately have "sum_list (map (\<lambda>t. length (start_key t) + length (end_key t) + L + 40) ts)
      = sum_list (map ?f (map start_key ts))" by presburger
  also have "\<dots> = sum ?f (set (map start_key ts))"
    by (rule sum_list_distinct_conv_sum_set) (use partitions_sorted [OF assms(1)] in \<open>simp add: strict_sorted_iff\<close>)
  also have "\<dots> \<le> table_bytes L E"
    unfolding table_bytes_def by (rule sum_mono2) (use assms(2,3) in \<open>auto simp: boundaries_def\<close>)
  finally show s: "sum_list (map (\<lambda>t. length (start_key t) + length (end_key t) + L + 40) ts) \<le> table_bytes L E" .
  have "length us \<le> sum_list (map (\<lambda>t. length (start_key t) + length (end_key t) + L + 40) us)"
    for us :: "tablet list" by (induction us) simp_all
  with s [THEN order_trans [rotated]] show "length ts \<le> table_bytes L E" by simp
qed

lemma segment_bytes:
  assumes "node_peer m (node_id t) = Some p" "length (peer_ip p) \<le> L"
  shows "length (segment m t) + 1 \<le> length (start_key t) + length (end_key t) + L + 40"
proof -
  have "length (segment m t) = length (to_string (unat (tablet_id t))) + length (start_key t) + length (end_key t)
      + length (peer_ip p) + length (to_string (unat (peer_port p))) + 4"
    by (simp add: segment_def GetNodeAddr_peer [OF assms(1)])
  with length_to_string_u64 [of "tablet_id t"] length_to_string_u16 [of "peer_port p"] assms(2)
  show ?thesis by linarith
qed

lemma shards_text_length:
  assumes "tablets m \<noteq> []"
  shows "length (shards_text m) \<le> length (to_string (length (tablets m))) + 1
    + sum_list (map (\<lambda>t. length (segment m t) + 1) (tablets m))"
proof -
  have "length (shards_text m)
      = length (to_string (length (tablets m))) + 1 + length (spaced (map (segment m) (tablets m)))"
    using shards_loop_text(2) [OF assms] by (simp add: shards_text_def)
  moreover have "length (spaced (map (segment m) (tablets m)))
      \<le> sum_list (map (\<lambda>t. length (segment m t) + 1) (tablets m))"
    using length_spaced [of "map (segment m) (tablets m)"] by (simp add: comp_def)
  ultimately show ?thesis by linarith
qed

lemma shards_text_bytes:
  assumes "tablets_partition (tablets m)" "boundaries (tablets m) \<subseteq> insert [] E" "finite E"
    and "\<forall>t \<in> set (tablets m). \<exists>p. node_peer m (node_id t) = Some p \<and> length (peer_ip p) \<le> L"
    and "60 + table_bytes L E < 2 ^ 32"
  shows "15 + length (shards_text m) < 2 ^ 32"
proof -
  have "tablets m \<noteq> []" using assms(1) by auto
  note len = shards_text_length [OF this]
  have "sum_list (map (\<lambda>t. length (segment m t) + 1) (tablets m))
      \<le> sum_list (map (\<lambda>t. length (start_key t) + length (end_key t) + L + 40) (tablets m))"
    by (rule sum_list_mono) (use assms(4) segment_bytes in blast)
  then have "length (shards_text m) \<le> length (to_string (length (tablets m))) + 1 + table_bytes L E"
    using len table_bytes_starts(1) [OF assms(1-3), of L] by linarith
  moreover have "length (tablets m) < 10 ^ 10"
    using table_bytes_starts(2) [OF assms(1-3), of L] assms(5) by simp
  then have "length (to_string (length (tablets m))) \<le> 10" by (rule length_to_string) simp
  ultimately show ?thesis using assms(5) by simp
qed

section \<open>The nodes of the network and the nodes of the balancer\<close>

text \<open>Peers with different ids and different addresses, whose hosts clients can read.\<close>

definition good_peers :: "nat \<Rightarrow> raft_node \<Rightarrow> bool" where
  "good_peers L m \<longleftrightarrow> distinct (map (\<lambda>p. (peer_ip p, peer_port p)) (peers m))
     \<and> (\<forall>p \<in> set (peers m). node_peer m (ucast (peer_id p)) = Some p \<and> clean (peer_ip p) \<and> length (peer_ip p) \<le> L)"

lemma node_peerD:
  assumes "node_peer m i = Some p"
  shows "p \<in> set (peers m)" "ucast (peer_id p) = i"
proof -
  show "p \<in> set (peers m)" using assms by (auto simp: node_peer_def find_Some_iff)
  have "peer_id p = ucast i" using assms by (auto simp: node_peer_def find_Some_iff)
  then show "ucast (peer_id p) = i" by simp
qed

lemma good_peers_address:
  assumes "good_peers L m" "node_peer m i = Some p" "node_peer m j = Some q"
    and "(peer_ip p, peer_port p) = (peer_ip q, peer_port q)"
  shows "i = j"
proof -
  have "p = q"
    using assms(1,4) node_peerD(1) [OF assms(2)] node_peerD(1) [OF assms(3)]
    by (auto simp: good_peers_def distinct_map dest: inj_onD)
  then show ?thesis using node_peerD(2) [OF assms(2)] node_peerD(2) [OF assms(3)] by simp
qed

lemma good_peers_find:
  assumes "good_peers L m" "node_peer m i = Some p"
  shows "find (\<lambda>q. (peer_ip q, peer_port q) = (peer_ip p, peer_port p)) (peers m) = Some p"
proof (cases "find (\<lambda>q. (peer_ip q, peer_port q) = (peer_ip p, peer_port p)) (peers m)")
  case None
  with node_peerD(1) [OF assms(2)] show ?thesis by (auto simp: find_None_iff)
next
  case (Some q)
  then have "q \<in> set (peers m)" "(peer_ip q, peer_port q) = (peer_ip p, peer_port p)"
    by (auto simp: find_Some_iff)
  then have "q = p"
    using assms(1) node_peerD(1) [OF assms(2)] by (auto simp: good_peers_def distinct_map dest: inj_onD)
  with Some show ?thesis by simp
qed

lemma nodes_of_same: "same_nodes m (nodes_of m hs) hs"
  by (auto simp: same_nodes_def nodes_of_def split: option.split)

lemma nodes_of_at:
  assumes "node_peer m i = Some p" "hs (peer_ip p, peer_port p) = Some n" "data_node n"
  shows "nodes_of m hs i = Some n"
  using assms by (simp add: nodes_of_def data_node_def)

text \<open>After the balancer the network has the nodes that it left.\<close>

lemma nodes_of_put_back:
  assumes "good_peers L m" "peers m' = peers m" "IsMaster m" "IsMaster m'" "hs a = Some m"
    and "nodes_step (nodes_of m hs) ns"
  shows "nodes_of m' ((put_back m ns hs)(a \<mapsto> m')) = ns"
proof
  fix i
  have peer: "node_peer m' i = node_peer m i" using assms(2) by (simp add: node_peer_def)
  have step: "ns i = nodes_of m hs i \<or> (\<exists>d d'. nodes_of m hs i = Some d \<and> ns i = Some d' \<and> data_node d')"
    using assms(6) unfolding nodes_step_def by blast
  show "nodes_of m' ((put_back m ns hs)(a \<mapsto> m')) i = ns i"
  proof (cases "node_peer m i")
    case None
    then show ?thesis using step by (auto simp: nodes_of_def peer)
  next
    case (Some p)
    note find = good_peers_find [OF assms(1) Some] and id = node_peerD(2) [OF Some]
    consider "hs (peer_ip p, peer_port p) = None" | n where "hs (peer_ip p, peer_port p) = Some n" "IsMaster n"
      | n where "hs (peer_ip p, peer_port p) = Some n" "\<not> IsMaster n" by (cases "hs (peer_ip p, peer_port p)") auto
    then show ?thesis
    proof cases
      case 3
      then have "(peer_ip p, peer_port p) \<noteq> a" using assms(3,5) by auto
      moreover obtain n' where "ns i = Some n'" "\<not> IsMaster n'"
        using step 3 Some by (auto simp: nodes_of_def data_node_def)
      ultimately show ?thesis using 3 Some find id by (simp add: nodes_of_def peer put_back_def)
    next
      case 1
      then have "(peer_ip p, peer_port p) \<noteq> a" using assms(5) by auto
      then show ?thesis using 1 step Some find by (auto simp: nodes_of_def peer put_back_def)
    next
      case 2
      then show ?thesis using assms(4) step Some find by (auto simp: nodes_of_def peer put_back_def)
    qed
  qed
qed

text \<open>A command that writes, seen from the balancer.\<close>

lemma wrote_nodes:
  assumes "wrote m k x hs hs'" "good_peers L m" "placed (tablets m) (nodes_of m hs)"
  shows "placed (tablets m) (nodes_of m hs')"
    and "store_map (tablets m) (nodes_of m hs') = (store_map (tablets m) (nodes_of m hs))(k := x)"
    and "nodes_of m hs' i = None \<longleftrightarrow> nodes_of m hs i = None"
proof -
  obtain t p n n' where w: "GetTabletRoute m k = Some t" "node_peer m (node_id t) = Some p"
    "hs (peer_ip p, peer_port p) = Some n" "data_node n" "data_node n'" "node_writable n'"
    "node_get n' = (node_get n)(k := x)" "hs' = hs((peer_ip p, peer_port p) \<mapsto> n')"
    using assms(1) unfolding wrote_def by blast
  have "tablets_partition (tablets m)" using assms(3) by (simp add: placed_def)
  from GetTabletRoute_finds [OF this, of k] w(1) have t: "t \<in> set (tablets m)" "owns t k" by auto
  have "nodes_of m hs' j = ((nodes_of m hs)(node_id t \<mapsto> n')) j" for j
  proof (cases "node_peer m j")
    case None
    then show ?thesis using w(2) by (auto simp: nodes_of_def)
  next
    case (Some q)
    then have "(peer_ip q, peer_port q) = (peer_ip p, peer_port p) \<longleftrightarrow> j = node_id t"
      using good_peers_address [OF assms(2) Some w(2)] w(2) by auto
    with Some show ?thesis using w(5,8) by (auto simp: nodes_of_def data_node_def)
  qed
  then have eq: "nodes_of m hs' = (nodes_of m hs)(node_id t \<mapsto> n')" by blast
  have n: "nodes_of m hs (node_id t) = Some n"
    by (rule nodes_of_at [where hs = hs, OF w(2-4)])
  note pw = placed_write [OF assms(3) t n w(5-7)]
  show "placed (tablets m) (nodes_of m hs')"
    "store_map (tablets m) (nodes_of m hs') = (store_map (tablets m) (nodes_of m hs))(k := x)"
    unfolding eq by (fact pw)+
  show "nodes_of m hs' i = None \<longleftrightarrow> nodes_of m hs i = None"
    using n by (simp add: eq)
qed

section \<open>A system that is a map\<close>

text \<open>The system \<open>s\<close> has the map \<open>M\<close>. \<open>E\<close> bounds the keys that boundaries are made of and \<open>L\<close> the
  length of a host name. Clients are connected to nothing but their master, if at all; the table
  is one they can read; keys are where the table says; the balancer's links are idle.\<close>

definition bounded_keys :: "nat \<Rightarrow> str set \<Rightarrow> bool" where
  "bounded_keys L E \<longleftrightarrow> finite E \<and> (\<forall>k \<in> E. clean k \<and> length k < 2 ^ 16) \<and> 60 + table_bytes L E < 2 ^ 32"

definition is_map :: "nat \<Rightarrow> str set \<Rightarrow> system \<Rightarrow> (str \<Rightarrow> str option) \<Rightarrow> bool" where
  "is_map L E s M \<longleftrightarrow> bounded_keys L E \<and> inet_ready (net s)
     \<and> (\<forall>c \<in> set (users s). linked (inet_conn (net s)) c \<and> (master_ip c, master_port c) = leader s)
     \<and> dom M \<subseteq> E \<and> (\<forall>k v. M k = Some v \<longrightarrow> entry_fits (k, v))
     \<and> (\<exists>m. hosts (net s) (leader s) = Some m \<and> readable_master m \<and> good_peers L m
          \<and> boundaries (tablets m) \<subseteq> insert [] E
          \<and> placed (tablets m) (nodes_of m (hosts (net s)))
          \<and> store_map (tablets m) (nodes_of m (hosts (net s))) = M
          \<and> healthy (master_side s\<lparr>data_nodes := nodes_of m (hosts (net s))\<rparr>))"

lemma is_map_master:
  assumes "is_map L E s M"
  obtains m where "hosts (net s) (leader s) = Some m" "readable_master m" "good_peers L m"
    "boundaries (tablets m) \<subseteq> insert [] E" "placed (tablets m) (nodes_of m (hosts (net s)))"
    "store_map (tablets m) (nodes_of m (hosts (net s))) = M"
    "healthy (master_side s\<lparr>data_nodes := nodes_of m (hosts (net s))\<rparr>)"
  using assms unfolding is_map_def by blast

lemma is_map_entry: "is_map L E s M \<Longrightarrow> M k = Some v \<Longrightarrow> entry_fits (k, v)"
  by (simp add: is_map_def)

lemma linked_mono: "linked conns c \<Longrightarrow> conns \<subseteq>\<^sub>m conns' \<Longrightarrow> linked conns' c"
  by (auto simp: linked_def map_le_def dom_def)

lemma placed_served:
  assumes "placed (tablets m) (nodes_of m hs)"
  shows "served m hs"
proof (rule servedI [OF _ nodes_of_same])
  show "\<forall>t \<in> set (tablets m). \<exists>p n. node_peer m (node_id t) = Some p \<and> nodes_of m hs (node_id t) = Some n
      \<and> data_node n \<and> node_writable n"
    using assms unfolding placed_def by (auto simp: nodes_of_def split: option.splits)
qed

lemma placed_client_view:
  assumes "placed (tablets m) (nodes_of m hs)"
  shows "client_view m hs = store_map (tablets m) (nodes_of m hs)"
proof -
  have part: "tablets_partition (tablets m)" using assms by (simp add: placed_def)
  from client_view_cluster [OF part placed_served [OF assms] nodes_of_same] cluster_get_store_map [OF part]
  show ?thesis by auto
qed

lemma healthy_cong:
  assumes "healthy (w\<lparr>data_nodes := ns\<rparr>)" "\<And>i. ns' i = None \<longleftrightarrow> ns i = None"
  shows "healthy (w\<lparr>data_nodes := ns'\<rparr>)"
  using assms by (simp add: healthy_def)

text \<open>A user's session, and the state after a command that ended as the client lemmas say.\<close>

lemma is_map_session:
  assumes "is_map L E s M" "i < length (users s)"
  obtains m where "hosts (net s) (leader s) = Some m" "net.session m (users s ! i) (net s)"
    "client_view m (hosts (net s)) = M"
proof -
  obtain m where m: "hosts (net s) (leader s) = Some m" "readable_master m"
    "placed (tablets m) (nodes_of m (hosts (net s)))" "store_map (tablets m) (nodes_of m (hosts (net s))) = M"
    using assms(1) by (rule is_map_master) blast
  have "users s ! i \<in> set (users s)" using assms(2) by simp
  then have "linked (inet_conn (net s)) (users s ! i)"
    "(master_ip (users s ! i), master_port (users s ! i)) = leader s"
    using assms(1) unfolding is_map_def by blast+
  then have "net.session m (users s ! i) (net s)"
    using assms(1) m(1,2) placed_served [OF m(3)] by (simp add: net.session_def is_map_def)
  with that m(1) placed_client_view [OF m(3)] m(4) show thesis by simp
qed

lemma users_linked:
  assumes "\<forall>u \<in> set us. linked conns u \<and> (master_ip u, master_port u) = a" "i < length us"
    and "linked conns' c" "same_master (us ! i) c" "conns \<subseteq>\<^sub>m conns'"
  shows "\<forall>u \<in> set (us[i := c]). linked conns' u \<and> (master_ip u, master_port u) = a"
proof
  fix u assume "u \<in> set (us[i := c])"
  then have "u = c \<or> u \<in> set us" using set_update_subset_insert [of us i c] by auto
  moreover have "us ! i \<in> set us" using assms(2) by simp
  ultimately show "linked conns' u \<and> (master_ip u, master_port u) = a"
    using assms(1,3,4) linked_mono [OF _ assms(5)] by (auto simp: same_master_def)
qed

lemma same_leader:
  assumes "is_map L E s M" "i < length (users s)" "same_master (users s ! i) c"
  shows "(master_ip c, master_port c) = leader s"
proof -
  have "users s ! i \<in> set (users s)" using assms(2) by simp
  with assms(1,3) show ?thesis unfolding is_map_def same_master_def by auto
qed

lemma is_map_command:
  assumes "is_map L E s M" "i < length (users s)" "hosts (net s) (leader s) = Some m"
    and "net.session m c w" "same_master (users s ! i) c" "inet_conn (net s) \<subseteq>\<^sub>m inet_conn w"
    and "wrote m k x (hosts (net s)) (hosts w)"
    and "x = None \<or> M k = x \<or> k \<in> E \<and> entry_fits (k, the x)"
  shows "is_map L E (s\<lparr>net := w, users := (users s)[i := c]\<rparr>) (M(k := x))"
proof -
  obtain m0 where m0: "hosts (net s) (leader s) = Some m0" "readable_master m0" "good_peers L m0"
    "boundaries (tablets m0) \<subseteq> insert [] E" "placed (tablets m0) (nodes_of m0 (hosts (net s)))"
    "store_map (tablets m0) (nodes_of m0 (hosts (net s))) = M"
    "healthy (master_side s\<lparr>data_nodes := nodes_of m0 (hosts (net s))\<rparr>)"
    using assms(1) by (rule is_map_master)
  have eq: "m0 = m" using m0(1) assms(3) by simp
  note m = m0 [unfolded eq] and w = wrote_nodes [OF assms(7) m0(3) [unfolded eq] m0(5) [unfolded eq]]
  have c: "linked (inet_conn w) c" "hosts w (master_ip c, master_port c) = Some m" "inet_ready w"
    using assms(4) by (simp_all add: net.session_def)
  have "\<forall>u \<in> set ((users s)[i := c]). linked (inet_conn w) u \<and> (master_ip u, master_port u) = leader s"
    by (rule users_linked [OF _ assms(2) c(1) assms(5,6)]) (use assms(1) in \<open>simp add: is_map_def\<close>)
  moreover have "dom (M(k := x)) \<subseteq> E" "\<forall>l v. (M(k := x)) l = Some v \<longrightarrow> entry_fits (l, v)"
    using assms(1,8) unfolding is_map_def by (auto split: if_splits)
  moreover have "hosts w (leader s) = Some m" "inet_ready w"
    using c(2,3) same_leader [OF assms(1,2,5)] by simp_all
  moreover have "healthy (master_side s\<lparr>data_nodes := nodes_of m (hosts w)\<rparr>)"
    by (rule healthy_cong [OF m(7) w(3)])
  ultimately show ?thesis
    using assms(1) m(2-4) w(1,2) m(6) unfolding is_map_def by simp
qed

text \<open>Fetching the table changes no node.\<close>

lemma is_map_fetch:
  assumes "is_map L E s M" "i < length (users s)" "net.session m c w" "same_master (users s ! i) c"
    and "inet_conn (net s) \<subseteq>\<^sub>m inet_conn w" "hosts w = hosts (net s)"
  shows "is_map L E (s\<lparr>net := w, users := (users s)[i := c]\<rparr>) M"
proof -
  have c: "linked (inet_conn w) c" "inet_ready w"
    using assms(3) by (simp_all add: net.session_def)
  have "\<forall>u \<in> set ((users s)[i := c]). linked (inet_conn w) u \<and> (master_ip u, master_port u) = leader s"
    by (rule users_linked [OF _ assms(2) c(1) assms(4,5)]) (use assms(1) in \<open>simp add: is_map_def\<close>)
  then show ?thesis
    using assms(1,6) c(2) unfolding is_map_def by simp
qed

text \<open>The table after rounds of the balancer is one that clients can read.\<close>

lemma table_step_peers:
  assumes "table_step m m'"
  shows "node_peer m' = node_peer m" "IsMaster m' = IsMaster m" "good_peers L m' = good_peers L m"
proof -
  have "peers m' = peers m" "port m' = port m" using assms by (simp_all add: table_step_def)
  then show "node_peer m' = node_peer m" "IsMaster m' = IsMaster m" "good_peers L m' = good_peers L m"
    by (simp_all add: node_peer_def IsMaster_def good_peers_def fun_eq_iff)
qed

lemma owner_peer:
  assumes "\<forall>t \<in> set (tablets m). readable_tablet m t" "good_peers L m" "table_step m m'" "t \<in> set (tablets m')"
  shows "\<exists>p. node_peer m' (node_id t) = Some p \<and> clean (peer_ip p) \<and> length (peer_ip p) \<le> L"
proof -
  obtain u where u: "u \<in> set (tablets m)" "node_id t = node_id u"
    using assms(3,4) unfolding table_step_def by blast
  have "readable_tablet m u" using assms(1) u(1) by blast
  then obtain p where p: "node_peer m (node_id t) = Some p"
    unfolding u(2) by (rule readable_addr)
  from node_peerD(1) [OF this] assms(2) have "clean (peer_ip p)" "length (peer_ip p) \<le> L"
    by (simp_all add: good_peers_def)
  with p show ?thesis by (simp add: table_step_peers(1) [OF assms(3)])
qed

lemma readable_masterI:
  assumes "IsMaster m" "tablets_partition (tablets m)" "bounded_keys L E" "boundaries (tablets m) \<subseteq> insert [] E"
    and "\<forall>t \<in> set (tablets m). \<exists>p. node_peer m (node_id t) = Some p \<and> clean (peer_ip p) \<and> length (peer_ip p) \<le> L"
  shows "readable_master m"
proof -
  have E: "finite E" "\<forall>k \<in> insert [] E. clean k" "60 + table_bytes L E < 2 ^ 32"
    using assms(3) by (simp_all add: bounded_keys_def clean_def [of "[]"])
  have "readable_tablet m t" if t: "t \<in> set (tablets m)" for t
  proof -
    have "start_key t \<in> insert [] E" "end_key t \<in> insert [] E"
      using assms(4) t unfolding boundaries_def by blast+
    then have "clean (start_key t)" "clean (end_key t)" using E(2) by blast+
    with assms(5) t show ?thesis by (auto simp: readable_tablet_def)
  qed
  moreover have "15 + length (shards_text m) < 2 ^ 32"
    by (rule shards_text_bytes [OF assms(2,4) E(1) _ E(3)]) (use assms(5) in blast)
  moreover have "length (tablets m) < 2 ^ 64"
    using table_bytes_starts(2) [OF assms(2,4) E(1), of L] E(3) by simp
  ultimately show ?thesis using assms(1,2) unfolding readable_master_def by blast
qed

lemma readable_after:
  assumes "readable_master m" "good_peers L m" "table_step m m'" "bounded_keys L E"
    and "boundaries (tablets m') \<subseteq> insert [] E"
  shows "readable_master m'"
proof -
  have m: "IsMaster m" "tablets_partition (tablets m)" "\<forall>t \<in> set (tablets m). readable_tablet m t"
    using assms(1) by (simp_all add: readable_master_def)
  have "tablets_partition (tablets m')" using assms(3) m(2) by (simp add: table_step_def)
  moreover have "IsMaster m'" using table_step_peers(2) [OF assms(3)] m(1) by simp
  ultimately show ?thesis
    using readable_masterI [OF _ _ assms(4,5)] owner_peer [OF m(3) assms(2,3)] by blast
qed

text \<open>Rounds of the balancer need a JSON library that prints the tables with boundaries in \<open>E\<close>.\<close>

lemma utf8_writes:
  assumes "documented_dump dump" "\<forall>k \<in> E. utf8 k"
  shows "writes_tables dump (insert [] E)"
  by (rule documented_writes [OF assms(1)]) (use assms(2) in \<open>auto simp: utf8_ascii\<close>)

lemma balance_result:
  assumes "is_map L E s M" "19 + map_bytes M < 2 ^ 32" "hosts (net s) (leader s) = Some m"
    and "writes_tables dump (insert [] E)"
  shows "\<exists>s' m'. balance dump rounds s = Some s' \<and> is_map L E s' M \<and> users s' = users s
    \<and> leader s' = leader s \<and> hosts (net s') (leader s) = Some m' \<and> table_step m m'
    \<and> nodes_step (nodes_of m (hosts (net s))) (nodes_of m' (hosts (net s')))"
proof -
  let ?hs = "hosts (net s)"
  have "\<exists>m. ?hs (leader s) = Some m \<and> readable_master m \<and> good_peers L m \<and> boundaries (tablets m) \<subseteq> insert [] E
    \<and> placed (tablets m) (nodes_of m ?hs) \<and> store_map (tablets m) (nodes_of m ?hs) = M
    \<and> healthy (master_side s\<lparr>data_nodes := nodes_of m ?hs\<rparr>)"
    using assms(1) unfolding is_map_def by blast
  then have m: "?hs (leader s) = Some m" "readable_master m" "good_peers L m"
    "boundaries (tablets m) \<subseteq> insert [] E" "placed (tablets m) (nodes_of m ?hs)"
    "store_map (tablets m) (nodes_of m ?hs) = M" "healthy (master_side s\<lparr>data_nodes := nodes_of m ?hs\<rparr>)"
    using assms(3) by auto
  let ?cw = "master_side s\<lparr>data_nodes := nodes_of m ?hs\<rparr>"
  have E: "bounded_keys L E" "finite E" "\<forall>k \<in> E. length k < 2 ^ 16"
    and M: "dom M \<subseteq> E" "\<forall>k v. M k = Some v \<longrightarrow> entry_fits (k, v)"
    using assms(1) by (simp_all add: is_map_def bounded_keys_def)
  have "map_fits M" using M finite_subset [OF M(1) E(2)] assms(2) by (simp add: map_fits_def)
  moreover have "\<forall>b \<in> boundaries (tablets m). length b < 2 ^ 16" using m(4) E(3) by auto
  moreover have "boundaries (tablets m) \<union> dom M \<subseteq> insert [] E" using m(4) M(1) by blast
  ultimately have "small_store (insert [] E) (tablets m) (data_nodes ?cw)"
    using m(5,6) by (simp add: small_store_def)
  from cl.BalancerLoop_ok [OF conjI [OF m(7) assms(4)] this, of rounds] m(6) obtain m' cw where b:
    "BalancerLoop (cluster_env dump) rounds m ?cw = Some (m', cw)" "healthy cw"
    "small_store (insert [] E) (tablets m') (data_nodes cw)" "store_map (tablets m') (data_nodes cw) = M"
    "boundaries (tablets m') \<subseteq> boundaries (tablets m) \<union> dom M" "nodes_step (nodes_of m ?hs) (data_nodes cw)"
    by auto
  have step: "table_step m m'" by (rule loop_step [OF b(1)])
  have b': "boundaries (tablets m') \<subseteq> insert [] E" using b(5) m(4) M(1) by blast
  note readable = readable_after [OF m(2,3) step E(1) b']
  have good: "good_peers L m'" using m(3) table_step_peers(3) [OF step] by simp
  let ?hs' = "(put_back m (data_nodes cw) ?hs)(leader s \<mapsto> m')"
  let ?s = "s\<lparr>master_side := cw, net := net s\<lparr>hosts := ?hs'\<rparr>\<rparr>"
  have "IsMaster m" "IsMaster m'" "peers m' = peers m"
    using m(2) readable step by (simp_all add: readable_master_def table_step_def)
  then have nodes: "nodes_of m' ?hs' = data_nodes cw"
    using nodes_of_put_back [where hs = ?hs, OF m(3) _ _ _ m(1) b(6), of m'] by simp
  have same: "inet_ready (net s\<lparr>hosts := h\<rparr>) = inet_ready (net s)"
    "inet_conn (net s\<lparr>hosts := h\<rparr>) = inet_conn (net s)" for h
    by (simp_all add: inet_ready_def inet_conn_def fun_eq_iff)
  have "balance dump rounds s = Some ?s"
    using m(1) b(1) by (simp add: balance_def Let_def)
  moreover have "is_map L E ?s M"
    using assms(1) readable good b' b(2-4) nodes unfolding is_map_def by (simp add: same small_store_def)
  moreover have "hosts (net ?s) (leader s) = Some m'" by simp
  moreover have "nodes_step (nodes_of m ?hs) (nodes_of m' (hosts (net ?s)))" using b(6) nodes by simp
  ultimately show ?thesis using step by (intro exI [of _ ?s] exI [of _ m']) simp
qed

lemma balance_ok:
  assumes "is_map L E s M" "19 + map_bytes M < 2 ^ 32" "writes_tables dump (insert [] E)"
  shows "\<exists>s'. balance dump rounds s = Some s' \<and> is_map L E s' M \<and> users s' = users s"
proof -
  obtain m where "hosts (net s) (leader s) = Some m" using assms(1) by (rule is_map_master)
  from balance_result [OF assms(1,2) this assms(3), of rounds] show ?thesis by blast
qed

lemma command_lines:
  "lit ''put '' @ x = lit ''put'' @ 32 # x" "lit ''get '' @ x = lit ''get'' @ 32 # x"
  "lit ''delete '' @ x = lit ''delete'' @ 32 # x"
  by (simp_all add: lit_def)

text \<open>The command that a client's action types, and what it comes to.\<close>

fun command_of :: "action \<Rightarrow> (nat \<times> str \<times> str \<times> str) option" where
  "command_of (Put i k v) = Some (i, lit ''put'', k, v)"
| "command_of (Get i k) = Some (i, lit ''get'', k, [])"
| "command_of (Delete i k) = Some (i, lit ''delete'', k, [])"
| "command_of (Balance rounds) = None"

lemma type_line_request:
  assumes "admissible_step E u M a" "command_of a = Some (i, cmd, k, v)"
  shows "i < u" "sys_step dump a s =
     (if length (users s) \<le> i then None
      else case run_request inet_os (users s ! i) cmd k v (net s) of
          (out, Inl _) \<Rightarrow> None
        | (out, Inr (_, c, w)) \<Rightarrow> Some (out, s\<lparr>net := w, users := (users s)[i := c]\<rparr>))"
proof -
  show "i < u" using assms by (cases a) auto
  have "sys_step dump a s = type_line i (cmd @ 32 # k @ (if v = [] then [] else 32 # v)) s"
    using assms by (cases a) (auto simp: command_lines simp del: lit_simps)
  moreover have "Execute inet_os (users s ! i) (cmd @ 32 # k @ (if v = [] then [] else 32 # v)) (net s)
      = run_request inet_os (users s ! i) cmd k v (net s)"
    using assms by (intro Execute_args) (cases a; auto simp del: lit_simps)+
  ultimately show "sys_step dump a s =
     (if length (users s) \<le> i then None
      else case run_request inet_os (users s ! i) cmd k v (net s) of
          (out, Inl _) \<Rightarrow> None
        | (out, Inr (_, c, w)) \<Rightarrow> Some (out, s\<lparr>net := w, users := (users s)[i := c]\<rparr>))"
    by (simp add: type_line_def)
qed

lemma spec_command:
  assumes "is_map L E s M" "admissible_step E u M a" "command_of a = Some (i, cmd, k, v)"
  obtains out x where "spec_step a M = ([out], M(k := x))" "length k < 2 ^ 16" "17 + length k + length v < 2 ^ 32"
    "\<And>n. data_node n \<Longrightarrow> node_writable n \<Longrightarrow> node_get n k = M k \<Longrightarrow> handled cmd k v x out n"
    "x = None \<or> M k = x \<or> k \<in> E \<and> entry_fits (k, the x)"
proof (cases a)
  case (Put j l y)
  with assms(2,3) have p: "j = i" "cmd = lit ''put''" "l = k" "y = v" "k \<in> E" "17 + length k + length v < 2 ^ 32"
    by (auto simp del: lit_simps)
  have k: "length k < 2 ^ 16" using assms(1) p(5) by (auto simp: is_map_def bounded_keys_def)
  show thesis
    by (rule that [of "Stdout (lit ''OK'')" "Some v"])
      (use p k put_handled in \<open>simp_all add: Put entry_fits_def del: lit_simps\<close>)
next
  case (Get j l)
  with assms(2,3) have p: "j = i" "cmd = lit ''get''" "l = k" "v = []" "length k < 2 ^ 16" by (auto simp del: lit_simps)
  have "15 + length y < 2 ^ 32" if "M k = Some y" for y
    using is_map_entry [OF assms(1) that] by (simp add: entry_fits_def)
  then show thesis
    by (intro that [of "get_output (M k)" "M k"])
      (use p get_handled [of _ k "M k"] in \<open>simp_all add: Get del: lit_simps\<close>)
next
  case (Delete j l)
  with assms(2,3) have p: "j = i" "cmd = lit ''delete''" "l = k" "v = []" "length k < 2 ^ 16" by (auto simp del: lit_simps)
  show thesis
    by (rule that [of "Stdout (lit ''OK'')" None])
      (use p delete_handled in \<open>simp_all add: Delete del: lit_simps\<close>)
qed (use assms(3) in simp)

lemma sys_step_ok:
  assumes "is_map L E s M" "admissible_step E (length (users s)) M a" "writes_tables dump (insert [] E)"
  shows "\<exists>s'. sys_step dump a s = Some (fst (spec_step a M), s') \<and> is_map L E s' (snd (spec_step a M))
    \<and> length (users s') = length (users s)"
proof (cases "command_of a")
  case (Some cm)
  obtain i cmd k v where cm: "command_of a = Some (i, cmd, k, v)" using Some by (cases cm) auto
  note line = type_line_request [OF assms(2) cm]
  obtain out x where x: "spec_step a M = ([out], M(k := x))" "length k < 2 ^ 16" "17 + length k + length v < 2 ^ 32"
    "\<And>n. data_node n \<Longrightarrow> node_writable n \<Longrightarrow> node_get n k = M k \<Longrightarrow> handled cmd k v x out n"
    "x = None \<or> M k = x \<or> k \<in> E \<and> entry_fits (k, the x)"
    using spec_command [OF assms(1,2) cm] by metis
  obtain m where m: "hosts (net s) (leader s) = Some m" "net.session m (users s ! i) (net s)"
    "client_view m (hosts (net s)) = M"
    using assms(1) line(1) by (rule is_map_session)
  have "handled cmd k v x out n"
    if "data_node n" "node_writable n" "node_get n k = client_view m (hosts (net s)) k" for n
    using x(4) that by (simp add: m(3))
  from net.command_ok [OF m(2) x(2,3) this] obtain c w where r:
    "run_request inet_os (users s ! i) cmd k v (net s) = ([out], Inr (True, c, w))" "net.session m c w"
    "wrote m k x (hosts (net s)) (hosts w)" "same_master (users s ! i) c" "inet_conn (net s) \<subseteq>\<^sub>m inet_conn w" by blast
  have "is_map L E (s\<lparr>net := w, users := (users s)[i := c]\<rparr>) (M(k := x))"
    by (rule is_map_command [OF assms(1) line(1) m(1) r(2,4,5,3) x(5)])
  with line x(1) r(1) show ?thesis by simp
next
  case None
  then obtain rounds where "a = Balance rounds" by (cases a) simp_all
  with balance_ok [OF assms(1) _ assms(3), of rounds] assms(2) show ?thesis by fastforce
qed

lemma sys_run_ok:
  assumes "is_map L E s M" "admissible E (length (users s)) M as" "writes_tables dump (insert [] E)"
  shows "\<exists>s'. sys_run dump as s = Some (fst (spec_run as M), s') \<and> is_map L E s' (snd (spec_run as M))"
  using assms
proof (induction as arbitrary: s M)
  case (Cons a as)
  from sys_step_ok [OF Cons.prems(1) _ Cons.prems(3)] Cons.prems(2) obtain s1 where s1:
    "sys_step dump a s = Some (fst (spec_step a M), s1)" "is_map L E s1 (snd (spec_step a M))"
    "length (users s1) = length (users s)" by auto
  from Cons.IH [OF s1(2) _ Cons.prems(3)] Cons.prems(2) s1(3) obtain s2 where
    "sys_run dump as s1 = Some (fst (spec_run as (snd (spec_step a M))), s2)"
    "is_map L E s2 (snd (spec_run as (snd (spec_step a M))))" by auto
  with s1(1) show ?case by (simp add: case_prod_beta)
qed simp

text \<open>Property C1 (the system is a map). With the JSON library as documented and keys that are UTF-8:
  from a system that has the map \<open>M\<close>, commands of any number of clients and rounds of the
  balancer, in any order, all go through, print what the same commands on \<open>M\<close> give, and leave a
  system that has the map the specification ends with.\<close>
theorem system_refines_map:
  assumes "documented_dump dump" "\<forall>k \<in> E. utf8 k"
    and "is_map L E s M" "admissible E (length (users s)) M as"
  shows "\<exists>s'. sys_run dump as s = Some (fst (spec_run as M), s') \<and> is_map L E s' (snd (spec_run as M))"
  by (rule sys_run_ok [OF assms(3,4) utf8_writes [OF assms(1,2)]])

section \<open>A fresh deployment\<close>

text \<open>The constructor of the master has connected to the data nodes that run and has built the first
  table, no data node has a key, and the clients have just started.\<close>

definition fresh :: "nat \<Rightarrow> raft_node \<Rightarrow> (peer_info \<Rightarrow> int) \<Rightarrow> (peer_info \<Rightarrow> bool)
    \<Rightarrow> system \<Rightarrow> bool" where
  "fresh L m0 sock up s \<longleftrightarrow> (\<exists>m p0 p1 ps. tablets m0 = [] \<and> IsMaster m0 \<and> good_peers L m0
     \<and> filter (\<lambda>p. peer_port p \<noteq> LEADER_PORT) (peers m0) = p0 # p1 # ps
     \<and> BuildInitialTablets m0 = Some m \<and> hosts (net s) (leader s) = Some m
     \<and> (\<forall>p \<in> {p0, p1}. \<exists>n. hosts (net s) (peer_ip p, peer_port p) = Some n \<and> data_node n \<and> node_writable n)
     \<and> (\<forall>a n k. hosts (net s) a = Some n \<longrightarrow> \<not> IsMaster n \<longrightarrow> node_get n k = None)
     \<and> (\<forall>p \<in> set (peers m0). \<forall>n. hosts (net s) (peer_ip p, peer_port p) = Some n \<longrightarrow> \<not> IsMaster n
          \<longrightarrow> peer_port p \<noteq> LEADER_PORT \<and> 0 \<le> sock p \<and> up p)
     \<and> links (master_side s) = connect_peers sock up (peers m0) Map.empty \<and> calm_world (master_side s)
     \<and> inet_ready (net s) \<and> (\<forall>c \<in> set (users s). c = Init (fst (leader s)) (snd (leader s))))"

lemma fresh_table:
  assumes "tablets m0 = []" "filter (\<lambda>p. peer_port p \<noteq> LEADER_PORT) (peers m0) = p0 # p1 # ps"
    and "BuildInitialTablets m0 = Some m" "good_peers L m0"
  shows "tablets_partition (tablets m)" "boundaries (tablets m) = {[], lit ''m''}" "peers m = peers m0"
    "IsMaster m = IsMaster m0" "length (tablets m) = 2"
    "t \<in> set (tablets m) \<Longrightarrow> \<exists>p \<in> {p0, p1}. node_peer m (node_id t) = Some p"
proof -
  let ?t = "\<lambda>i a b p. \<lparr>tablet_id = i, start_key = a, end_key = b, node_id = ucast (peer_id p), key_count = 0\<rparr>"
  have m: "m = m0\<lparr>tablets := [?t 1 [] (lit ''m'') p0, ?t 2 (lit ''m'') [] p1], next_tablet_id := 3, epoch := 1\<rparr>"
    using assms(1-3) by (simp add: BuildInitialTablets_def)
  show "tablets_partition (tablets m)" "boundaries (tablets m) = {[], lit ''m''}" "peers m = peers m0"
    "IsMaster m = IsMaster m0" "length (tablets m) = 2"
    by (auto simp: m boundaries_def IsMaster_def)
  have "{p0, p1} \<subseteq> set (peers m0)"
    using arg_cong [OF assms(2), of set] by auto
  then have "node_peer m0 (ucast (peer_id p)) = Some p" if "p \<in> {p0, p1}" for p
    using assms(4) that unfolding good_peers_def by blast
  then show "t \<in> set (tablets m) \<Longrightarrow> \<exists>p \<in> {p0, p1}. node_peer m (node_id t) = Some p"
    by (auto simp: m node_peer_def)
qed

lemma fresh_is_map:
  assumes "fresh L m0 sock up s" "bounded_keys L E" "lit ''m'' \<in> E"
  shows "is_map L E s Map.empty"
proof -
  let ?hs = "hosts (net s)"
  obtain m p0 p1 ps where f: "tablets m0 = []" "IsMaster m0" "good_peers L m0"
    "filter (\<lambda>p. peer_port p \<noteq> LEADER_PORT) (peers m0) = p0 # p1 # ps" "BuildInitialTablets m0 = Some m"
    "?hs (leader s) = Some m"
    "\<forall>p \<in> {p0, p1}. \<exists>n. ?hs (peer_ip p, peer_port p) = Some n \<and> data_node n \<and> node_writable n"
    "\<forall>a n k. ?hs a = Some n \<longrightarrow> \<not> IsMaster n \<longrightarrow> node_get n k = None"
    "inet_ready (net s)" "\<forall>c \<in> set (users s). c = Init (fst (leader s)) (snd (leader s))"
    and conn: "\<forall>p \<in> set (peers m0). \<forall>n. ?hs (peer_ip p, peer_port p) = Some n \<longrightarrow> \<not> IsMaster n
       \<longrightarrow> peer_port p \<noteq> LEADER_PORT \<and> 0 \<le> sock p \<and> up p"
      "links (master_side s) = connect_peers sock up (peers m0) Map.empty" "calm_world (master_side s)"
    using assms(1) unfolding fresh_def by (elim exE conjE) blast
  note t = fresh_table [OF f(1,4,5,3)]
  have "\<exists>p \<in> set (peers m0). ucast (peer_id p) = i \<and> peer_port p \<noteq> LEADER_PORT \<and> 0 \<le> sock p \<and> up p"
    if i: "nodes_of m ?hs i \<noteq> None" for i
  proof -
    obtain p n where p: "node_peer m i = Some p" "?hs (peer_ip p, peer_port p) = Some n" "\<not> IsMaster n"
      using i by (auto simp: nodes_of_def split: option.splits if_splits)
    then show ?thesis using conn(1) node_peerD [OF p(1)] t(3) by auto
  qed
  then have healthy: "healthy (master_side s\<lparr>data_nodes := nodes_of m ?hs\<rparr>)"
    using connected_healthy [OF conn(3,2)] by blast
  have good: "good_peers L m" using f(3) t(3) by (simp add: good_peers_def node_peer_def)
  have owner: "\<exists>p. node_peer m (node_id u) = Some p \<and> clean (peer_ip p) \<and> length (peer_ip p) \<le> L"
    if "u \<in> set (tablets m)" for u
    using t(6) [OF that] good node_peerD(1) [of m "node_id u"] unfolding good_peers_def by blast
  have b: "boundaries (tablets m) \<subseteq> insert [] E" using t(2) assms(3) by simp
  have readable: "readable_master m"
    by (rule readable_masterI [OF _ t(1) assms(2) b]) (use t(4) f(2) owner in simp_all)
  have none: "node_get d k = None" if "nodes_of m ?hs i = Some d" for i d k
    using that f(8) by (auto simp: nodes_of_def split: option.splits if_splits)
  have "\<exists>d. nodes_of m ?hs (node_id u) = Some d \<and> data_node d \<and> node_writable d" if u: "u \<in> set (tablets m)" for u
  proof -
    obtain p n where p: "node_peer m (node_id u) = Some p" "?hs (peer_ip p, peer_port p) = Some n"
      "data_node n" "node_writable n" using t(6) [OF u] f(7) by blast
    from nodes_of_at [where hs = ?hs, OF this(1-3)] p(3,4) show ?thesis by blast
  qed
  then have placed: "placed (tablets m) (nodes_of m ?hs)"
    using t(1) none by (simp add: placed_def)
  have "store_map (tablets m) (nodes_of m ?hs) = Map.empty"
    using none by (auto simp: store_map_def fun_eq_iff split: option.split)
  moreover have "linked (inet_conn (net s)) c \<and> (master_ip c, master_port c) = leader s" if "c \<in> set (users s)" for c
  proof -
    have "c = Init (fst (leader s)) (snd (leader s))" using f(10) that by blast
    then show ?thesis by (simp add: linked_def Init_def new_client_def IsConnected_def)
  qed
  ultimately show ?thesis
    using assms(2) f(6,9) healthy readable good b placed unfolding is_map_def by simp
qed

text \<open>Property C2 (a fresh deployment is a map). With the JSON library as documented: from a master that
  has just built its table over data nodes without keys, any commands of any clients whose keys
  are UTF-8 and any rounds of the balancer print what one map that is empty at first would print.\<close>
theorem fresh_deployment_is_a_map:
  assumes "documented_dump dump" "\<forall>k \<in> E. utf8 k" "fresh L m0 sock up s" "bounded_keys L E" "lit ''m'' \<in> E"
    and "admissible E (length (users s)) Map.empty as"
  shows "\<exists>s'. sys_run dump as s = Some (fst (spec_run as Map.empty), s')"
  using sys_run_ok [OF fresh_is_map [OF assms(3-5)] assms(6) utf8_writes [OF assms(1,2)]] by blast

text \<open>Three nodes at one host, and two clients.\<close>

definition sample_system :: system where
  "sample_system =
     (let m0 = sample_master\<lparr>tablets := [], next_tablet_id := 1, epoch := 0\<rparr>;
          m = (case BuildInitialTablets m0 of None \<Rightarrow> m0 | Some m \<Rightarrow> m);
          c = sample_cluster DB_Open;
          empty = (\<lambda>i. sample_node\<lparr>self_id := i, storage := Some DB_Open\<rparr>)
      in \<lparr>net = sample_inet\<lparr>hosts := [(lit ''h'', LEADER_PORT) \<mapsto> m, (lit ''h'', 9002) \<mapsto> empty 2,
              (lit ''h'', 9003) \<mapsto> empty 3]\<rparr>,
          master_side = c\<lparr>data_nodes := Map.empty,
              links := connect_peers (\<lambda>p. 5) (\<lambda>p. True) (peers m0) Map.empty\<rparr>, leader = (lit ''h'', LEADER_PORT),
          users = [Init (lit ''h'') LEADER_PORT, Init (lit ''h'') LEADER_PORT]\<rparr>)"

definition sample_actions :: "action list" where
  "sample_actions = [Put 0 (lit ''x'') (lit ''1 2''), Balance 2, Get 1 (lit ''x''), Delete 1 (lit ''x''), Balance 1,
     Get 0 (lit ''x'')]"

lemma empty_node:
  fixes i :: u64
  defines "n \<equiv> sample_node\<lparr>self_id := i, storage := Some DB_Open\<rparr>"
  shows "data_node n" "node_writable n" "node_get n k = None" "\<not> IsMaster n"
  by (simp_all add: n_def data_node_def node_inv_def node_writable_def IsMaster_def LEADER_PORT_def
      DB_Open_def db_inv_def node_get_def DB_Get_def MemTable_Get_def MemTable_Seek_def)

lemma sample_good_peers: "good_peers 1 (sample_master\<lparr>tablets := [], next_tablet_id := 1, epoch := 0\<rparr>)"
  by (simp add: good_peers_def sample_master_def node_peer_def clean_def LEADER_PORT_def lit_def is_space_def)

lemma sample_fresh:
  "fresh 1 (sample_master\<lparr>tablets := [], next_tablet_id := 1, epoch := 0\<rparr>)
    (\<lambda>p. 5) (\<lambda>p. True) sample_system"
proof -
  let ?m0 = "sample_master\<lparr>tablets := [], next_tablet_id := 1, epoch := 0\<rparr>"
  let ?p = "\<lambda>i q. \<lparr>peer_id = i, peer_ip = lit ''h'', peer_port = q\<rparr>"
  have ps: "filter (\<lambda>p. peer_port p \<noteq> LEADER_PORT) (peers ?m0) = [?p 2 9002, ?p 3 9003]"
    by (simp add: sample_master_def LEADER_PORT_def)
  obtain m where m: "BuildInitialTablets ?m0 = Some m"
    using ps by (simp add: BuildInitialTablets_def)
  have hosts: "hosts (net sample_system) = [(lit ''h'', LEADER_PORT) \<mapsto> m,
      (lit ''h'', 9002) \<mapsto> sample_node\<lparr>self_id := 2, storage := Some DB_Open\<rparr>,
      (lit ''h'', 9003) \<mapsto> sample_node\<lparr>self_id := 3, storage := Some DB_Open\<rparr>]"
    using m by (simp add: sample_system_def Let_def)
  note t = fresh_table [OF _ ps m sample_good_peers]
  have "IsMaster m" using t(4) by (simp add: IsMaster_def sample_master_def)
  then have "node_get n k = None" if "hosts (net sample_system) a = Some n" "\<not> IsMaster n" for a n k
    using that empty_node(3) by (auto simp: hosts split: if_splits)
  then have none: "\<forall>a n k. hosts (net sample_system) a = Some n \<longrightarrow> \<not> IsMaster n \<longrightarrow> node_get n k = None" by blast
  have ready: "inet_ready (net sample_system)"
    by (auto simp: sample_system_def inet_ready_def sample_inet_def prompt_def whole_send_def Let_def)
  have "\<forall>p \<in> set (peers ?m0). \<forall>n. hosts (net sample_system) (peer_ip p, peer_port p) = Some n \<longrightarrow> \<not> IsMaster n
      \<longrightarrow> peer_port p \<noteq> LEADER_PORT \<and> 0 \<le> (5 :: int) \<and> True"
    using \<open>IsMaster m\<close> by (simp add: hosts sample_master_def LEADER_PORT_def)
  moreover have "links (master_side sample_system) = connect_peers (\<lambda>p. 5) (\<lambda>p. True) (peers ?m0) Map.empty"
    "calm_world (master_side sample_system)"
    by (simp_all add: sample_system_def sample_cluster_def calm_world_def Let_def)
  moreover have "\<forall>p \<in> {?p 2 9002, ?p 3 9003}. \<exists>n. hosts (net sample_system) (peer_ip p, peer_port p) = Some n
      \<and> data_node n \<and> node_writable n"
    using empty_node(1,2) by (simp add: hosts LEADER_PORT_def)
  moreover have "hosts (net sample_system) (leader sample_system) = Some m"
    "\<forall>c \<in> set (users sample_system). c = Init (fst (leader sample_system)) (snd (leader sample_system))"
    by (simp_all add: hosts) (simp_all add: sample_system_def hosts LEADER_PORT_def Let_def)
  moreover have "IsMaster ?m0" by (simp add: IsMaster_def sample_master_def)
  ultimately show ?thesis
    using ps m sample_good_peers none ready unfolding fresh_def by (intro exI conjI) (assumption | simp)+
qed

definition sample_keys :: "str set" where
  "sample_keys = {lit ''m'', lit ''x''}"

lemma sample_bounded: "bounded_keys 1 sample_keys"
  by (simp add: bounded_keys_def sample_keys_def table_bytes_def clean_def is_space_def lit_def)

lemma sample_keys_utf8: "\<forall>k \<in> sample_keys. utf8 k"
  by (simp add: sample_keys_def utf8_ascii)

lemma sample_admissible: "admissible sample_keys (length (users sample_system)) Map.empty sample_actions"
  by (simp add: sample_actions_def sample_keys_def sample_system_def Let_def is_word_def is_space_def lit_def map_bytes_def)

lemma sample_spec:
  "fst (spec_run sample_actions Map.empty)
    = [[Stdout (lit ''OK'')], [], [Stdout (lit ''1 2'')], [Stdout (lit ''OK'')], [], [Stdout (lit ''Key not found'')]]"
  by (simp add: sample_actions_def get_output_def lit_def)

theorem fresh_deployment_is_a_map_witness:
  "\<exists>s'. sys_run sample_dump sample_actions sample_system
    = Some ([[Stdout (lit ''OK'')], [], [Stdout (lit ''1 2'')], [Stdout (lit ''OK'')], [],
        [Stdout (lit ''Key not found'')]], s')"
  using fresh_deployment_is_a_map [OF sample_dump_documented sample_keys_utf8 sample_fresh sample_bounded _ sample_admissible]
  by (simp add: sample_spec) (simp add: sample_keys_def)

theorem system_refines_map_witness:
  "\<exists>s'. sys_run sample_dump sample_actions sample_system
    = Some ([[Stdout (lit ''OK'')], [], [Stdout (lit ''1 2'')], [Stdout (lit ''OK'')], [],
        [Stdout (lit ''Key not found'')]], s')
    \<and> is_map 1 sample_keys s' Map.empty"
proof -
  have "is_map 1 sample_keys sample_system Map.empty"
    by (rule fresh_is_map [OF sample_fresh sample_bounded]) (simp add: sample_keys_def)
  moreover have "snd (spec_run sample_actions Map.empty) = Map.empty"
    by (simp add: sample_actions_def)
  ultimately show ?thesis
    using system_refines_map [OF sample_dump_documented sample_keys_utf8 _ sample_admissible] sample_spec by metis
qed

end
