(* ===== verification/Interleaving.thy ===== *)
theory Interleaving
  imports System
begin

text \<open>
  Commands whose two halves are apart. A client first fetches the table from the master and then
  sends its request to the node that the table names; other clients and the balancer may act in
  between. Clients do not disturb each other. A round of the balancer in between does: the client
  then works with a table that is out of date, and nothing in the protocol tells it so.
\<close>

section \<open>Half commands\<close>

text \<open>\<open>held s i\<close> is the table that client \<open>i\<close> has fetched for the command it is in the middle of. In
  \<open>half\<close>, \<open>Do a\<close> is the rest of the command \<open>a\<close> of a client, or a number of rounds.\<close>

record open_system =
  base :: system
  held :: "nat \<Rightarrow> cached_tablet list option"

datatype half = Fetch nat | Do action

definition after_user :: "nat \<Rightarrow> cli \<Rightarrow> inet \<Rightarrow> cached_tablet list option \<Rightarrow> open_system \<Rightarrow> open_system" where
  "after_user i c w h s = s\<lparr>base := (base s)\<lparr>net := w, users := (users (base s))[i := c]\<rparr>, held := (held s)(i := h)\<rparr>"

definition fetch_half :: "nat \<Rightarrow> open_system \<Rightarrow> (printed list \<times> open_system) option" where
  "fetch_half i s =
     (if length (users (base s)) \<le> i then None
      else case FetchRouteTable inet_os (users (base s) ! i) (net (base s)) of
          Inl _ \<Rightarrow> None
        | Inr (False, _, c, w) \<Rightarrow>
            Some ([Stderr (lit ''Failed to fetch route table from proxy'')], after_user i c w None s)
        | Inr (True, ts, c, w) \<Rightarrow> Some ([], after_user i c w (Some ts) s))"

definition request_half :: "nat \<Rightarrow> str \<Rightarrow> str \<Rightarrow> str \<Rightarrow> open_system \<Rightarrow> (printed list \<times> open_system) option" where
  "request_half i cmd key value s =
     (if length (users (base s)) \<le> i then None
      else case held s i of
          None \<Rightarrow> None
        | Some ts \<Rightarrow> (let c = users (base s) ! i; w = net (base s)
            in case FindRoute ts key of
                 None \<Rightarrow> Some ([Stderr (lit ''Failed to find route for key: '' @ key)], after_user i c w None s)
               | Some addr \<Rightarrow>
                   (case DoDataNodeRequest inet_os c addr (opcode_of cmd) key value w of
                      Inl _ \<Rightarrow> None
                    | Inr (False, _, result, c, w) \<Rightarrow> Some ([Stderr (lit ''Error: '' @ result)], after_user i c w None s)
                    | Inr (True, status, result, c, w) \<Rightarrow>
                        Some ([print_status cmd status result], after_user i c w None s))))"

fun half_step :: "(json \<Rightarrow> bytes option) \<Rightarrow> half \<Rightarrow> open_system \<Rightarrow> (printed list \<times> open_system) option" where
  "half_step dump (Fetch i) s = fetch_half i s"
| "half_step dump (Do (Put i k v)) s = request_half i (lit ''put'') k v s"
| "half_step dump (Do (Get i k)) s = request_half i (lit ''get'') k [] s"
| "half_step dump (Do (Delete i k)) s = request_half i (lit ''delete'') k [] s"
| "half_step dump (Do (Balance rounds)) s = map_option (\<lambda>b. ([], s\<lparr>base := b\<rparr>)) (balance dump rounds (base s))"

fun half_run :: "(json \<Rightarrow> bytes option) \<Rightarrow> half list \<Rightarrow> open_system \<Rightarrow> (printed list list \<times> open_system) option" where
  "half_run dump [] s = Some ([], s)"
| "half_run dump (h # hs) s =
     (case half_step dump h s of
        None \<Rightarrow> None
      | Some (out, s) \<Rightarrow> map_option (\<lambda>(outs, s). (out # outs, s)) (half_run dump hs s))"

lemma after_user_simps [simp]:
  "base (after_user i c w h s) = (base s)\<lparr>net := w, users := (users (base s))[i := c]\<rparr>"
  "held (after_user i c w h s) = (held s)(i := h)"
  "after_user i c' w' h' (after_user i c w h s) = after_user i c' w' h' s"
  by (simp_all add: after_user_def)

text \<open>The two halves with nothing in between are the command.\<close>

lemma halves_join:
  assumes "fetch_half i s = Some (out, s1)" "held s1 i = Some ts"
  shows "out = []"
    and "map_option (\<lambda>(out, s2). (out, base s2)) (request_half i cmd k v s1) =
     (case run_request inet_os (users (base s) ! i) cmd k v (net (base s)) of
        (out, Inl _) \<Rightarrow> None
      | (out, Inr (_, c, w)) \<Rightarrow> Some (out, (base s)\<lparr>net := w, users := (users (base s))[i := c]\<rparr>))"
proof -
  from assms obtain c w where i: "\<not> length (users (base s)) \<le> i"
    and f: "FetchRouteTable inet_os (users (base s) ! i) (net (base s)) = Inr (True, ts, c, w)"
    and s1: "s1 = after_user i c w (Some ts) s" "out = []"
    by (auto simp: fetch_half_def split: if_splits sum.splits prod.splits bool.splits)
  show "out = []" by (fact s1(2))
  show "map_option (\<lambda>(out, s2). (out, base s2)) (request_half i cmd k v s1) =
     (case run_request inet_os (users (base s) ! i) cmd k v (net (base s)) of
        (out, Inl _) \<Rightarrow> None
      | (out, Inr (_, c, w)) \<Rightarrow> Some (out, (base s)\<lparr>net := w, users := (users (base s))[i := c]\<rparr>))"
    using i f by (auto simp: s1 request_half_def run_request_def split: option.split sum.split prod.split bool.split)
qed

text \<open>If fetching the table succeeds, the rest of the command gives exactly what typing the line gives,
  whatever the network does.\<close>

lemma half_step_request:
  "command_of a = Some (i, cmd, k, v) \<Longrightarrow> half_step dump (Do a) s = request_half i cmd k v s"
  by (cases a) auto

lemma command_halves:
  assumes "fetch_half i s = Some (out, s1)" "held s1 i = Some ts"
    and "admissible_step E u M a" "command_of a = Some (i, cmd, k, v)"
  shows "sys_step dump a (base s) = map_option (\<lambda>(out, s2). (out, base s2)) (half_step dump (Do a) s1)"
proof -
  have "\<not> length (users (base s)) \<le> i" using assms(1) by (auto simp: fetch_half_def)
  then show ?thesis
    using halves_join(2) [OF assms(1,2), of cmd k v] type_line_request(2) [OF assms(3,4), of dump "base s"]
    by (simp add: half_step_request [OF assms(4)])
qed

section \<open>Clients do not disturb each other\<close>

text \<open>The specification does not see the halves: a command takes effect when its request is answered.\<close>

fun spec_halves :: "half list \<Rightarrow> (str \<Rightarrow> str option) \<Rightarrow> printed list list \<times> (str \<Rightarrow> str option)" where
  "spec_halves [] M = ([], M)"
| "spec_halves (Fetch i # hs) M = (case spec_halves hs M of (outs, M) \<Rightarrow> ([] # outs, M))"
| "spec_halves (Do a # hs) M =
     (case spec_step a M of (out, M) \<Rightarrow> case spec_halves hs M of (outs, M) \<Rightarrow> (out # outs, M))"

definition user_of :: "action \<Rightarrow> nat option" where
  "user_of a = map_option fst (command_of a)"

lemma user_of_simps [simp]:
  "user_of (Put i k v) = Some i" "user_of (Get i k) = Some i" "user_of (Delete i k) = Some i"
  "user_of (Balance rounds) = None"
  by (simp_all add: user_of_def)

text \<open>Each client runs one command at a time, and the balancer runs when no client is in the middle of
  one; \<open>H\<close> are those that are.\<close>

fun quiet_halves :: "str set \<Rightarrow> nat \<Rightarrow> (str \<Rightarrow> str option) \<Rightarrow> nat set \<Rightarrow> half list \<Rightarrow> bool" where
  "quiet_halves E u M H [] \<longleftrightarrow> True"
| "quiet_halves E u M H (Fetch i # hs) \<longleftrightarrow> i < u \<and> i \<notin> H \<and> quiet_halves E u M (insert i H) hs"
| "quiet_halves E u M H (Do a # hs) \<longleftrightarrow> admissible_step E u M a
     \<and> (case user_of a of None \<Rightarrow> H = {} | Some i \<Rightarrow> i \<in> H)
     \<and> quiet_halves E u (snd (spec_step a M)) (H - set_option (user_of a)) hs"

text \<open>The clients in the middle of a command have the table of the master.\<close>

definition current_tables :: "open_system \<Rightarrow> nat set \<Rightarrow> bool" where
  "current_tables s H \<longleftrightarrow> (\<forall>i. held s i = (if i \<in> H
     then map_option (\<lambda>m. map (cached m) (tablets m)) (hosts (net (base s)) (leader (base s))) else None))"

lemma fetch_half_ok:
  assumes "is_map L E (base s) M" "i < length (users (base s))" "hosts (net (base s)) (leader (base s)) = Some m"
  shows "\<exists>c w. fetch_half i s = Some ([], after_user i c w (Some (map (cached m) (tablets m))) s)
    \<and> is_map L E (base (after_user i c w (Some (map (cached m) (tablets m))) s)) M
    \<and> hosts w = hosts (net (base s))"
proof -
  obtain m' where "hosts (net (base s)) (leader (base s)) = Some m'"
    "net.session m' (users (base s) ! i) (net (base s))"
    using assms(1,2) by (rule is_map_session)
  with assms(3) have "net.session m (users (base s) ! i) (net (base s))" by simp
  from net.fetch_ok [OF this] obtain c w where f:
    "FetchRouteTable inet_os (users (base s) ! i) (net (base s)) = Inr (True, map (cached m) (tablets m), c, w)"
    "net.session m c w" "hosts w = hosts (net (base s))" "same_master (users (base s) ! i) c"
    "inet_conn (net (base s)) \<subseteq>\<^sub>m inet_conn w" by blast
  have "fetch_half i s = Some ([], after_user i c w (Some (map (cached m) (tablets m))) s)"
    using assms(2) f(1) by (simp add: fetch_half_def)
  with is_map_fetch [OF assms(1,2) f(2,4,5,3)] f(3) show ?thesis by auto
qed

text \<open>A request with a table that routes the key as the master does now.\<close>

lemma request_half_ok:
  assumes "is_map L E (base s) M" "i < length (users (base s))" "held s i = Some ts"
    and "hosts (net (base s)) (leader (base s)) = Some m"
    and "FindRoute ts k = FindRoute (map (cached m) (tablets m)) k"
    and "length k < 2 ^ 16" "17 + length k + length v < 2 ^ 32"
    and "\<And>n. data_node n \<Longrightarrow> node_writable n \<Longrightarrow> node_get n k = M k \<Longrightarrow> handled cmd k v x out n"
    and "x = None \<or> M k = x \<or> k \<in> E \<and> entry_fits (k, the x)"
  shows "\<exists>c w. request_half i cmd k v s = Some ([out], after_user i c w None s)
    \<and> is_map L E (base (after_user i c w None s)) (M(k := x))
    \<and> hosts w (leader (base s)) = Some m"
proof -
  let ?u = "users (base s) ! i"
  obtain m' where "hosts (net (base s)) (leader (base s)) = Some m'" "net.session m' ?u (net (base s))"
    "client_view m' (hosts (net (base s))) = M"
    using assms(1,2) by (rule is_map_session)
  with assms(4) have s: "net.session m ?u (net (base s))" "client_view m (hosts (net (base s))) = M" by simp_all
  have "handled cmd k v x out n"
    if "data_node n" "node_writable n" "node_get n k = client_view m (hosts (net (base s))) k" for n
    using assms(8) that by (simp add: s(2))
  from net.request_ok [OF s(1) assms(5-7) this] obtain addr st res c w where r: "FindRoute ts k = Some addr"
    "DoDataNodeRequest inet_os ?u addr (opcode_of cmd) k v (net (base s)) = Inr (True, st, res, c, w)"
    "print_status cmd st res = out" "net.session m c w" "wrote m k x (hosts (net (base s))) (hosts w)"
    "same_master ?u c" "inet_conn w = inet_conn (net (base s))" by blast
  have "request_half i cmd k v s = Some ([out], after_user i c w None s)"
    using assms(2,3) r(1-3) by (simp add: request_half_def Let_def)
  moreover have "is_map L E (base (after_user i c w None s)) (M(k := x))"
    using is_map_command [OF assms(1,2,4) r(4,6) _ r(5) assms(9)] r(7) by simp
  moreover have "hosts w (leader (base s)) = Some m"
    using r(4) same_leader [OF assms(1,2) r(6)] by (simp add: net.session_def)
  ultimately show ?thesis by blast
qed

lemma is_map_leader: "is_map L E s M \<Longrightarrow> hosts (net s) (leader s) \<noteq> None"
  by (auto simp: is_map_def)

lemma current_fetch:
  assumes "current_tables s H" "hosts (net (base s)) (leader (base s)) = Some m" "hosts w = hosts (net (base s))"
  shows "current_tables (after_user i c w (Some (map (cached m) (tablets m))) s) (insert i H)"
  using assms by (auto simp: current_tables_def)

lemma current_request:
  assumes "current_tables s H" "i \<in> H" "hosts (net (base s)) (leader (base s)) = Some m"
  shows "held s i = Some (map (cached m) (tablets m))"
    and "hosts w (leader (base s)) = Some m \<Longrightarrow> current_tables (after_user i c w None s) (H - {i})"
  using assms by (auto simp: current_tables_def)

text \<open>What a client's request does in a system that is a map, for each of the commands.\<close>

lemma client_half_ok:
  assumes "is_map L E (base s) M" "current_tables s H" "admissible_step E (length (users (base s))) M a"
    and "user_of a = Some i" "i \<in> H"
  shows "\<exists>s'. half_step dump (Do a) s = Some (fst (spec_step a M), s') \<and> is_map L E (base s') (snd (spec_step a M))
    \<and> current_tables s' (H - {i}) \<and> length (users (base s')) = length (users (base s))"
proof -
  obtain m where m: "hosts (net (base s)) (leader (base s)) = Some m"
    using is_map_leader [OF assms(1)] by blast
  note held = current_request [OF assms(2,5) m]
  obtain cmd k v where cm: "command_of a = Some (i, cmd, k, v)" using assms(4) by (auto simp: user_of_def)
  obtain out x where x: "spec_step a M = ([out], M(k := x))" "length k < 2 ^ 16" "17 + length k + length v < 2 ^ 32"
    "\<And>n. data_node n \<Longrightarrow> node_writable n \<Longrightarrow> node_get n k = M k \<Longrightarrow> handled cmd k v x out n"
    "x = None \<or> M k = x \<or> k \<in> E \<and> entry_fits (k, the x)"
    using spec_command [OF assms(1,3) cm] by metis
  from request_half_ok [OF assms(1) type_line_request(1) [OF assms(3) cm] held(1) m refl x(2-5)] obtain c w where r:
    "request_half i cmd k v s = Some ([out], after_user i c w None s)"
    "is_map L E (base (after_user i c w None s)) (M(k := x))" "hosts w (leader (base s)) = Some m" by blast
  with x(1) held(2) [OF r(3), of c] half_step_request [OF cm] show ?thesis
    by (intro exI [of _ "after_user i c w None s"]) simp
qed

lemma half_run_ok:
  assumes "is_map L E (base s) M" "current_tables s H" "quiet_halves E (length (users (base s))) M H hs"
    and "writes_tables dump (insert [] E)"
  shows "\<exists>s'. half_run dump hs s = Some (fst (spec_halves hs M), s') \<and> is_map L E (base s') (snd (spec_halves hs M))"
  using assms
proof (induction hs arbitrary: s M H)
  case (Cons h hs)
  obtain m where m: "hosts (net (base s)) (leader (base s)) = Some m"
    using is_map_leader [OF Cons.prems(1)] by blast
  have step: "\<exists>s1 out M1 H1. half_step dump h s = Some (out, s1) \<and> is_map L E (base s1) M1
      \<and> current_tables s1 H1 \<and> quiet_halves E (length (users (base s1))) M1 H1 hs
      \<and> spec_halves (h # hs) M = (out # fst (spec_halves hs M1), snd (spec_halves hs M1))"
  proof (cases h)
    case (Fetch i)
    with Cons.prems(3) have i: "i < length (users (base s))"
      "quiet_halves E (length (users (base s))) M (insert i H) hs" by simp_all
    from fetch_half_ok [OF Cons.prems(1) i(1) m] obtain c w where f:
      "fetch_half i s = Some ([], after_user i c w (Some (map (cached m) (tablets m))) s)"
      "is_map L E (base (after_user i c w (Some (map (cached m) (tablets m))) s)) M"
      "hosts w = hosts (net (base s))" by blast
    with current_fetch [OF Cons.prems(2) m f(3), of i c] i(2) show ?thesis
      by (simp add: Fetch case_prod_beta) blast
  next
    case (Do a)
    with Cons.prems(3) have a: "admissible_step E (length (users (base s))) M a"
      "case user_of a of None \<Rightarrow> H = {} | Some i \<Rightarrow> i \<in> H"
      "quiet_halves E (length (users (base s))) (snd (spec_step a M)) (H - set_option (user_of a)) hs" by simp_all
    have spec: "spec_halves (h # hs) M = (fst (spec_step a M) # fst (spec_halves hs (snd (spec_step a M))),
        snd (spec_halves hs (snd (spec_step a M))))" by (simp add: Do case_prod_beta)
    show ?thesis
    proof (cases "user_of a")
      case (Some i)
      with client_half_ok [OF Cons.prems(1,2) a(1) Some] a(2,3) spec show ?thesis unfolding Do by fastforce
    next
      case None
      then obtain rounds where r: "a = Balance rounds" by (cases a) simp_all
      from balance_ok [OF Cons.prems(1) _ Cons.prems(4), of rounds] a(1) obtain b where
        "balance dump rounds (base s) = Some b" "is_map L E b M" "users b = users (base s)" by (auto simp: r)
      moreover have "current_tables (s\<lparr>base := b\<rparr>) {}"
        using Cons.prems(2) a(2) None by (simp add: current_tables_def)
      ultimately show ?thesis using a(2,3) spec None unfolding Do by (force simp: r)
    qed
  qed
  then obtain s1 out M1 H1 where s1: "half_step dump h s = Some (out, s1)" "is_map L E (base s1) M1"
    "current_tables s1 H1" "quiet_halves E (length (users (base s1))) M1 H1 hs"
    "spec_halves (h # hs) M = (out # fst (spec_halves hs M1), snd (spec_halves hs M1))" by blast
  from Cons.IH [OF s1(2-4) Cons.prems(4)] s1(1,5) show ?case by auto
qed simp

text \<open>Property C3 (commands of many clients, half by half). With the JSON library as documented and keys
  that are UTF-8: from a system that has the map \<open>M\<close>, however the fetches and requests of the clients interleave: as long as no client is in the middle of a
  command while the balancer runs, every command prints what one map gives at the moment its
  request is answered, and the system ends as that map.\<close>
theorem halves_refine_map:
  assumes "documented_dump dump" "\<forall>k \<in> E. utf8 k"
    and "is_map L E (base s) M" "\<forall>i. held s i = None" "quiet_halves E (length (users (base s))) M {} hs"
  shows "\<exists>s'. half_run dump hs s = Some (fst (spec_halves hs M), s') \<and> is_map L E (base s') (snd (spec_halves hs M))"
  by (rule half_run_ok [OF assms(3) _ assms(5) utf8_writes [OF assms(1,2)]]) (use assms(4) in \<open>simp add: current_tables_def\<close>)

section \<open>A round of the balancer between the halves\<close>






section \<open>Two systems\<close>

























definition sample_halves :: "half list" where
  "sample_halves = [Fetch 0, Fetch 1, Do (Put 0 (lit ''x'') (lit ''1 2'')), Do (Get 1 (lit ''x'')), Do (Balance 1),
     Fetch 1, Fetch 0, Do (Delete 1 (lit ''x'')), Do (Get 0 (lit ''x''))]"

theorem halves_refine_map_witness:
  "\<exists>s'. half_run sample_dump sample_halves \<lparr>base = sample_system, held = \<lambda>i. None\<rparr>
    = Some ([[], [], [Stdout (lit ''OK'')], [Stdout (lit ''1 2'')], [], [], [], [Stdout (lit ''OK'')],
        [Stdout (lit ''Key not found'')]], s')
    \<and> is_map 1 sample_keys (base s') Map.empty"
proof -
  have "is_map 1 sample_keys (base \<lparr>base = sample_system, held = \<lambda>i. None\<rparr>) Map.empty"
    using fresh_is_map [OF sample_fresh sample_bounded] by (simp add: sample_keys_def)
  moreover have "quiet_halves sample_keys (length (users (base \<lparr>base = sample_system, held = \<lambda>i. None\<rparr>))) Map.empty {} sample_halves"
    by (simp add: sample_halves_def sample_keys_def sample_system_def Let_def is_word_def is_space_def lit_def map_bytes_def insert_Diff_if)
  moreover have "spec_halves sample_halves Map.empty = ([[], [], [Stdout (lit ''OK'')], [Stdout (lit ''1 2'')], [], [], [],
      [Stdout (lit ''OK'')], [Stdout (lit ''Key not found'')]], Map.empty)"
    by (simp add: sample_halves_def get_output_def lit_def)
  ultimately show ?thesis
    using halves_refine_map [OF sample_dump_documented sample_keys_utf8,
        of 1 "\<lparr>base = sample_system, held = \<lambda>i. None\<rparr>" Map.empty sample_halves]
    by simp
qed


end
