(* ===== verification/Interference.thy ===== *)
theory Interference
  imports Cluster
begin

text \<open>
  Clients that write while a tablet is being moved. The balancer copies the pairs of the tablet,
  then switches the route under the master's lock, then has the source delete the range; the
  source goes on answering the clients that still have the old table. Here its requests of that
  time are handled between the copy and the switch.
\<close>

section \<open>A source that is not alone with the balancer\<close>

fun handle_all :: "bytes list \<Rightarrow> raft_node \<Rightarrow> (bytes list \<times> raft_node) option" where
  "handle_all [] n = Some ([], n)"
| "handle_all (p # ps) n =
     (case HandleBinaryRequest n 1 p of
        None \<Rightarrow> None
      | Some (r, n) \<Rightarrow> (case handle_all ps n of None \<Rightarrow> None | Some (rs, n) \<Rightarrow> Some (r # rs, n)))"

definition client_traffic :: "u32 \<Rightarrow> bytes list \<Rightarrow> cluster \<Rightarrow> cluster" where
  "client_traffic src reqs w =
     (case data_nodes w src of
        None \<Rightarrow> w
      | Some d \<Rightarrow> w\<lparr>data_nodes := (data_nodes w)(src := map_option snd (handle_all reqs d))\<rparr>)"

text \<open>The environment of the balancer in which \<open>reqs\<close> reach the node \<open>src\<close> just before the table is
  saved.\<close>

definition busy_env :: "(json \<Rightarrow> bytes option) \<Rightarrow> u32 \<Rightarrow> bytes list \<Rightarrow> cluster env" where
  "busy_env dump src reqs =
     (cluster_env dump)\<lparr>save := (\<lambda>n w. link_save dump n (client_traffic src reqs w))\<rparr>"

lemma busy_env_simps [simp]:
  "is_connected (busy_env dump src reqs) = is_connected (cluster_env dump)"
  "net_send (busy_env dump src reqs) = net_send (cluster_env dump)"
  "net_recv (busy_env dump src reqs) = net_recv (cluster_env dump)"
  "save (busy_env dump src reqs) n w = link_save dump n (client_traffic src reqs w)"
  by (simp_all add: busy_env_def)

text \<open>Requests are exchanged as on a healthy cluster; only saving is not what \<open>cluster_rpc\<close> asks for.\<close>

interpretation busy: cluster_exchange "busy_env dump src reqs" data_nodes "healthy"
proof
  fix w :: cluster and i :: u32
  assume "healthy w" "data_nodes w i \<noteq> None"
  then show "is_connected (busy_env dump src reqs) i w"
    using ex.connected by simp
next
  fix w :: cluster and i :: u32 and n p rid r n' and t :: int
  assume "healthy w" "data_nodes w i = Some n" "frame_fits p"
    "HandleBinaryRequest n rid p = Some (r, n')" "14 + length r < 2 ^ 32" "3000 \<le> t"
  then show "\<exists>w1 w2. net_send (busy_env dump src reqs) i (EncodeCustomRequest rid p) w = (SendDone, w1)
      \<and> net_recv (busy_env dump src reqs) i t w1 = (Some (respond rid r), w2)
      \<and> healthy w2 \<and> data_nodes w2 = (data_nodes w)(i \<mapsto> n')"
    using ex.exchange by simp
qed

lemma handle_all_node:
  assumes "handle_all reqs n = Some (rs, n')" "data_node n"
  shows "data_node n' \<and> node_writable n' = node_writable n"
  using assms
proof (induction reqs arbitrary: n rs)
  case (Cons p ps)
  then obtain r n1 rs1 where s: "HandleBinaryRequest n 1 p = Some (r, n1)" "handle_all ps n1 = Some (rs1, n')"
    by (auto split: option.splits)
  from Cons.IH [OF s(2) data_node_step [OF Cons.prems(2) s(1)]] node_writable_step [OF s(1)]
  show ?case by simp
qed simp

section \<open>What becomes of their writes\<close>

lemma busy_migration:
  assumes "healthy w" "idx < length (tablets n)" "t = tablets n ! idx" "dst \<noteq> node_id t"
    and "data_nodes w (node_id t) = Some a" "data_nodes w dst = Some b" "data_node a" "data_node b"
    and "range_fits a (start_key t) (end_key t)" "handle_all reqs a = Some (rs, a1)"
    and "writes_tables dump (boundaries (tablets n))"
  shows "\<exists>w' a' b'. MigrateTablet (busy_env dump (node_id t) reqs) idx dst n w
      = Some (True, n\<lparr>tablets := (tablets n)[idx := t\<lparr>node_id := dst\<rparr>], epoch := epoch n + 1\<rparr>, w')
    \<and> data_nodes w' = (data_nodes w)(node_id t \<mapsto> a', dst \<mapsto> b')
    \<and> node_get b' = moved_pairs a b (start_key t) (end_key t)
    \<and> (\<forall>k. node_get a' k = (if owns t k \<and> node_writable a then None else node_get a1 k))"
proof -
  let ?n = "n\<lparr>tablets := (tablets n)[idx := t\<lparr>node_id := dst\<rparr>], epoch := epoch n + 1\<rparr>"
    and ?env = "busy_env dump (node_id t) reqs"
  from busy.ScanAndTransferData_ok [OF assms(1,5-9)] obtain w1 b' where
    s: "ScanAndTransferData ?env (node_id t) dst (start_key t) (end_key t) w = Some (True, w1)"
    "healthy w1" "data_nodes w1 = (data_nodes w)(dst \<mapsto> b')"
    "node_get b' = moved_pairs a b (start_key t) (end_key t)" by blast
  let ?w1 = "client_traffic (node_id t) reqs w1"
  have src: "data_nodes w1 (node_id t) = Some a" using s(3) assms(4,5) by simp
  have w1: "data_nodes ?w1 = (data_nodes w1)(node_id t \<mapsto> a1)" "healthy ?w1"
    using src s(2) assms(10) by (auto simp: client_traffic_def healthy_def)
  have "dump (tablets_json ?n) \<noteq> None"
    using assms(11) boundaries_moved [OF assms(2)] by (simp add: writes_tables_def assms(3))
  from healthy_save [where dump = dump, OF w1(2) this] obtain w2 where
    v: "link_save dump ?n ?w1 = Some w2" "healthy w2" "data_nodes w2 = data_nodes ?w1" by blast
  note a1 = conjunct1 [OF handle_all_node [OF assms(10,7)]] conjunct2 [OF handle_all_node [OF assms(10,7)]]
  have "data_nodes w2 (node_id t) = Some a1" "length (start_key t) < 2 ^ 16" "length (end_key t) < 2 ^ 16"
    using v(3) w1(1) assms(9) by (simp_all add: range_fits_def)
  from busy.SendDeleteRange_ok [OF v(2) this(1) a1(1) this(2,3)] obtain w3 a' where
    d: "SendDeleteRange ?env (node_id t) (start_key t) (end_key t) w2 = Some (True, w3)"
    "data_nodes w3 = (data_nodes w2)(node_id t \<mapsto> a')"
    "\<forall>k. node_get a' k = (if owns t k \<and> node_writable a1 then None else node_get a1 k)" by blast
  have "MigrateTablet ?env idx dst n w = Some (True, ?n, w3)"
    using assms(2-4) s(1) v(1) d(1) by (simp add: MigrateTablet_def Let_def)
  moreover have "data_nodes w3 = (data_nodes w)(node_id t \<mapsto> a', dst \<mapsto> b')"
    using d(2) v(3) w1(1) s(3) assms(4) by (simp add: fun_upd_twist)
  ultimately show ?thesis using s(4) d(3) [unfolded a1(2)] by blast
qed

text \<open>Property C26 (writes during a migration are lost). Whatever requests the source answers between
  the copy of a tablet and the switch of its route, acknowledged ones included: the migration
  succeeds, and every key of the tablet has the value again that it had before the migration.\<close>
theorem migration_loses_window:
  assumes "healthy w" "tablets_partition (tablets n)" "idx < length (tablets n)"
    and "t = tablets n ! idx" "dst \<noteq> node_id t"
    and "data_nodes w (node_id t) = Some a" "data_nodes w dst = Some b" "data_node a" "data_node b"
    and "range_fits a (start_key t) (end_key t)" "writes_tables dump (boundaries (tablets n))"
    and "node_writable b" "\<forall>k. owns t k \<longrightarrow> node_get b k = None"
    and "handle_all reqs a = Some (answers, a1)"
  shows "\<exists>n' w'. MigrateTablet (busy_env dump (node_id t) reqs) idx dst n w = Some (True, n', w')
    \<and> (\<forall>k. owns t k \<longrightarrow> cluster_get n' (data_nodes w') k = node_get a k
         \<and> cluster_get n (data_nodes w) k = node_get a k)"
proof -
  let ?ts = "(tablets n)[idx := t\<lparr>node_id := dst\<rparr>]"
  let ?n = "n\<lparr>tablets := ?ts, epoch := epoch n + 1\<rparr>"
  from busy_migration [OF assms(1,3-10,14,11)] obtain w' a' b' where m:
    "MigrateTablet (busy_env dump (node_id t) reqs) idx dst n w = Some (True, ?n, w')"
    "data_nodes w' = (data_nodes w)(node_id t \<mapsto> a', dst \<mapsto> b')"
    "node_get b' = moved_pairs a b (start_key t) (end_key t)" by blast
  have part: "tablets_partition ?ts" using partition_move [OF assms(3)] assms(2,4) by simp
  have mem: "t \<in> set (tablets n)" "t\<lparr>node_id := dst\<rparr> \<in> set ?ts"
    using assms(3,4) by (simp_all add: set_update_memI)
  have "cluster_get ?n (data_nodes w') k = node_get a k \<and> cluster_get n (data_nodes w) k = node_get a k"
    if "owns t k" for k
  proof
    show "cluster_get n (data_nodes w) k = node_get a k"
      using store_map_owner [OF assms(2) mem(1) that, of "data_nodes w"] assms(6) cluster_get_store_map [OF assms(2)]
      by simp
    have "node_get b' k = node_get a k"
      using moved_pairs_range [OF assms(8), of b "start_key t" "end_key t" k] m(3) assms(12,13) that
      by (simp split: option.split)
    then show "cluster_get ?n (data_nodes w') k = node_get a k"
      using store_map_owner [OF part mem(2), of k "data_nodes w'" b'] m(2) that part
        cluster_get_store_map [of ?n "data_nodes w'"] by simp
  qed
  with m(1) show ?thesis by blast
qed

theorem migration_loses_window_witness:
  "\<exists>a1. handle_all [kv_payload OP_PUT [97] [7]] sample_node = Some ([[ST_OK]], a1)
    \<and> node_get a1 [97] = Some [7]
    \<and> (\<exists>n' w'. MigrateTablet (busy_env sample_dump 2 [kv_payload OP_PUT [97] [7]]) 0 3 sample_master
          (sample_cluster DB_Open) = Some (True, n', w')
        \<and> cluster_get n' (data_nodes w') [97] = Some [1])"
proof -
  have "map_option (\<lambda>(rs, n). (rs, node_get n [97])) (handle_all [kv_payload OP_PUT [97] [7]] sample_node)
      = Some ([[ST_OK]], Some [7])" by code_simp
  then obtain a1 where h: "handle_all [kv_payload OP_PUT [97] [7]] sample_node = Some ([[ST_OK]], a1)"
    "node_get a1 [97] = Some [7]" by auto
  let ?b = "sample_node\<lparr>self_id := 3, storage := Some DB_Open\<rparr>"
  have wr: "node_writable ?b" by code_simp
  have none: "\<forall>k. owns (tablets sample_master ! 0) k \<longrightarrow> node_get ?b k = None"
    by (simp add: node_get_def DB_Get_def DB_Open_def MemTable_Get_def MemTable_Seek_def)
  have old: "node_get sample_node [97] = Some [1]" by code_simp
  have "owns (tablets sample_master ! 0) [97]" by (simp add: in_range_def)
  moreover have "db_inv DB_Open" by simp
  ultimately show ?thesis
    using migration_loses_window [of "sample_cluster DB_Open" sample_master 0
        "tablets sample_master ! 0" 3 sample_node ?b sample_dump, OF _ _ _ refl _ _ _ _ _ _ _ wr none h(1)] h old
    by (auto simp del: One_nat_def)
qed

end
