(* ===== verification/Text_Protocol.thy ===== *)
theory Text_Protocol
  imports Text_Stream Rpc_Server
begin

text \<open>
  The text protocol of \<open>src/src/rpc/text_protocol.cpp\<close> and the connection loop
  \<open>TextRpcServer::HandleClient\<close> of \<open>src/src/rpc/rpc_server.cpp\<close>, which cuts the received
  bytes into lines, parses each and answers it. The output of the loop is what it hands to
  \<open>::send\<close>, whose result the code ignores.
\<close>

section \<open>Commands\<close>

record command =
  cmd_name :: str
  cmd_args :: "str list"

definition arg :: "command \<Rightarrow> nat \<Rightarrow> str" where
  "arg cmd i = (if i < length (cmd_args cmd) then cmd_args cmd ! i else [])"

text \<open>The loop \<open>for (i = 0; i < 5 && iss >> arg; ++i)\<close>, from \<open>k\<close> turns left.\<close>

fun args_loop :: "nat \<Rightarrow> str \<Rightarrow> istream \<Rightarrow> str list \<Rightarrow> str list \<times> str \<times> istream" where
  "args_loop 0 s st args = (args, s, st)"
| "args_loop (Suc k) s st args =
     (case read_word s st of (s, st) \<Rightarrow>
        if in_fail st then (args, s, st) else args_loop k s st (args @ [s]))"

definition Parse :: "str \<Rightarrow> command option" where
  "Parse line =
     (if line = [] then None
      else (let trimmed = (if last line = 10 then butlast line else line);
                trimmed = (if trimmed \<noteq> [] \<and> last trimmed = 13 then butlast trimmed else trimmed)
        in if trimmed = [] then None
        else (case read_word [] (istringstream trimmed) of (name, st) \<Rightarrow>
          if in_fail st then None
          else (case args_loop 5 [] st [] of (args, s, st) \<Rightarrow>
            (case getline s st of (s, st) \<Rightarrow>
               Some \<lparr>cmd_name = map toupper name,
                     cmd_args = (if s \<noteq> [] then args @ [erase_spaces s] else args)\<rparr>)))))"

section \<open>Answers\<close>

definition Ok :: "str \<Rightarrow> str" where
  "Ok data = (if data = [] then lit ''+OK'' @ [13, 10] else lit ''+OK '' @ data @ [13, 10])"

definition Err :: "str \<Rightarrow> str \<Rightarrow> str" where
  "Err code msg = lit ''-ERR '' @ code @ lit '' '' @ msg @ [13, 10]"

definition EncodeAppendResponse :: "u64 \<Rightarrow> bool \<Rightarrow> str" where
  "EncodeAppendResponse term success =
     lit ''APPEND_RESP '' @ to_string (unat term) @ lit '' ''
       @ (if success then lit ''true'' else lit ''false'') @ [13, 10]"

text \<open>A failed read leaves \<open>part\<close> as it was, and it is pushed all the same.\<close>

fun split_loop_args :: "nat \<Rightarrow> str \<Rightarrow> istream \<Rightarrow> str list \<Rightarrow> str list \<times> str \<times> istream" where
  "split_loop_args 0 part st parts = (parts, part, st)"
| "split_loop_args (Suc k) part st parts =
     (case read_word part st of (part, st) \<Rightarrow> split_loop_args k part st (parts @ [part]))"

definition SplitArgs :: "str \<Rightarrow> str list" where
  "SplitArgs line =
     (case split_loop_args 5 [] (istringstream line) [] of (parts, part, st) \<Rightarrow>
        parts @ [fst (getline part st)])"

section \<open>The connection loop\<close>

text \<open>\<open>line_buf += buf\<close> appends a C string: the received bytes up to the first zero byte. A
  \<open>recv\<close> of 0, the end of the connection, is no error for this loop. Its first result is what the
  loop passes to \<open>::send\<close>, whose result the code ignores: how much of it the kernel takes, and the
  \<open>SIGPIPE\<close> of a peer that has reset the connection, are outside this model.\<close>

definition answer_line :: "('s \<Rightarrow> command \<Rightarrow> str \<times> 's) \<Rightarrow> str \<Rightarrow> 's \<Rightarrow> str \<times> 's" where
  "answer_line handler line st = (case Parse line of
     Some cmd \<Rightarrow> handler st cmd
   | None \<Rightarrow> (Err (lit ''BAD_CMD'') (lit ''Invalid format''), st))"

function drain_lines :: "('s \<Rightarrow> command \<Rightarrow> str \<times> 's) \<Rightarrow> str \<Rightarrow> 's \<Rightarrow> str \<times> str \<times> 's" where
  "drain_lines handler line_buf st =
     (case dropWhile (\<lambda>c. c \<noteq> 10) line_buf of
        [] \<Rightarrow> ([], line_buf, st)
      | nl # line_buf' \<Rightarrow>
          (case answer_line handler (takeWhile (\<lambda>c. c \<noteq> 10) line_buf @ [nl]) st of (resp, st) \<Rightarrow>
             (case drain_lines handler line_buf' st of (out, r) \<Rightarrow> (resp @ out, r))))"
  by pat_completeness auto
termination
proof (relation "measure (\<lambda>(handler, line_buf, st). length line_buf)")
  fix handler :: "'s \<Rightarrow> command \<Rightarrow> str \<times> 's" and st st' line_buf nl line_buf' resp
  assume "dropWhile (\<lambda>c. c \<noteq> 10) line_buf = nl # line_buf'"
  then show "((handler, line_buf', st'), handler, line_buf, st)
      \<in> measure (\<lambda>(handler, line_buf, st). length line_buf)"
    using length_dropWhile_le [of "\<lambda>c. c \<noteq> 10" line_buf] by simp
qed simp

declare drain_lines.simps [simp del]

fun text_client ::
  "('s \<Rightarrow> command \<Rightarrow> str \<times> 's) \<Rightarrow> str \<Rightarrow> recv_event list \<Rightarrow> 's \<Rightarrow> str \<times> conn_end \<times> str \<times> 's" where
  "text_client handler line_buf [] st = ([], Waiting, line_buf, st)"
| "text_client handler line_buf (e # es) st =
     (case e of
        Again \<Rightarrow> ([], Closed, line_buf, st)
      | RecvErr \<Rightarrow> ([], Closed, line_buf, st)
      | Eof \<Rightarrow>
          (case drain_lines handler line_buf st of (out, rest, st) \<Rightarrow>
             (case text_client handler rest es st of (out', r) \<Rightarrow> (out @ out', r)))
      | Data buf \<Rightarrow>
          (case drain_lines handler (line_buf @ takeWhile (\<lambda>c. c \<noteq> 0) buf) st of (out, rest, st) \<Rightarrow>
             (case text_client handler rest es st of (out', r) \<Rightarrow> (out @ out', r))))"

section \<open>Lines whose words are separated by single spaces\<close>

text \<open>The stream after some of the words have been read.\<close>

definition after :: "str list \<Rightarrow> istream" where
  "after ss = \<lparr>in_rest = (if ss = [] then [] else 32 # spaced ss), in_eof = (ss = []), in_fail = False\<rparr>"

lemma spaced_append:
  "ss \<noteq> [] \<Longrightarrow> spaced (s # ss) = s @ 32 # spaced ss"
  by (cases ss) auto

lemma read_word_spaced:
  assumes "\<forall>s \<in> set (s # ss). is_word s"
  shows "read_word z \<lparr>in_rest = spaced (s # ss), in_eof = False, in_fail = False\<rparr> = (s, after ss)"
  using assms read_word_word [of s "if ss = [] then [] else 32 # spaced ss" z]
  by (cases "ss = []") (simp_all add: after_def spaced_append)

lemma read_word_after:
  assumes "\<forall>s \<in> set ss. is_word s"
  shows "read_word z (after ss) =
    (case ss of [] \<Rightarrow> (z, (after [])\<lparr>in_fail := True\<rparr>) | s # ss' \<Rightarrow> (s, after ss'))"
proof (cases ss)
  case Nil
  then show ?thesis by (simp add: read_word_def after_def)
next
  case (Cons s ss')
  then have "read_word z (after ss) = read_word z \<lparr>in_rest = spaced (s # ss'), in_eof = False, in_fail = False\<rparr>"
    by (simp add: after_def read_word_space)
  with Cons assms show ?thesis by (simp add: read_word_spaced)
qed

lemma in_fail_after [simp]: "\<not> in_fail (after ss)"
  by (simp add: after_def)

lemma args_loop_after:
  assumes "\<forall>s \<in> set ss. is_word s"
  shows "args_loop k z (after ss) args =
    (args @ take k ss, last (z # take k ss),
     if length ss < k then (after [])\<lparr>in_fail := True\<rparr> else after (drop k ss))"
  using assms
proof (induction k arbitrary: z ss args)
  case (Suc k)
  then show ?case by (cases ss) (simp_all add: read_word_after)
qed (simp add: after_def)

lemma split_loop_args_failed:
  "in_fail st \<Longrightarrow> split_loop_args k z st args = (args @ replicate k z, z, st)"
proof (induction k arbitrary: args)
  case (Suc k)
  then have "read_word z st = (z, st)" by (simp add: read_word_def)
  with Suc show ?case by simp
qed simp

lemma split_loop_args_after:
  assumes "\<forall>s \<in> set ss. is_word s"
  shows "split_loop_args k z (after ss) args =
    (args @ take k ss @ replicate (k - length ss) (last (z # ss)), last (z # take k ss),
     if length ss < k then (after [])\<lparr>in_fail := True\<rparr> else after (drop k ss))"
  using assms
proof (induction k arbitrary: z ss args)
  case (Suc k)
  then show ?case
    by (cases ss) (simp_all add: read_word_after split_loop_args_failed)
qed (simp add: after_def)

lemma spaced_no_newline:
  assumes "\<forall>s \<in> set ss. is_word s" "c \<in> set (spaced ss)"
  shows "c = 32 \<or> \<not> is_space c"
  using assms by (induction ss rule: spaced.induct) (auto simp: is_word_def)

lemma erase_spaces_spaced:
  assumes "\<forall>s \<in> set ss. is_word s"
  shows "erase_spaces (spaced ss) = spaced ss"
proof (cases ss)
  case (Cons s ss')
  with assms have "s \<noteq> []" "\<not> is_space (hd s)" by (auto simp: is_word_def)
  then have "s \<noteq> []" "hd s \<noteq> 32" by auto
  with Cons show ?thesis
    by (cases s; cases ss') (simp_all add: erase_spaces_def)
qed (simp add: erase_spaces_def)

lemma getline_after:
  assumes "\<forall>s \<in> set ss. is_word s"
  shows "fst (getline z (after ss)) = (if ss = [] then z else 32 # spaced ss)"
proof -
  have "is_space 10" by (simp add: is_space_def)
  then have "\<forall>c \<in> set (32 # spaced ss). c \<noteq> 10"
    using spaced_no_newline [OF assms, of 10] by auto
  then have d: "dropWhile (\<lambda>c. c \<noteq> 10) (spaced ss) = []" by (simp add: dropWhile_eq_Nil_conv)
  show ?thesis by (simp add: getline_def after_def Let_def d)
qed

lemma parse_words:
  assumes "\<forall>s \<in> set (name # ss). is_word s"
  shows "Parse (spaced (name # ss) @ [13, 10]) = Some \<lparr>cmd_name = map toupper name, cmd_args =
      (if ss = [] then [] else if length ss \<le> 5 then ss @ [last ss]
       else take 5 ss @ [spaced (drop 5 ss)])\<rparr>"
proof -
  let ?l = "spaced (name # ss)"
  have ne: "?l \<noteq> []"
    using assms by (cases ss) (simp_all add: is_word_def)
  have rd: "read_word [] (istringstream ?l) = (name, after ss)"
    using read_word_spaced [OF assms] by (simp add: istringstream_def)
  have w: "\<forall>s \<in> set ss. is_word s" "\<forall>s \<in> set (drop 5 ss). is_word s"
    using assms by (auto dest: in_set_dropD)
  have "last ss \<noteq> []" if "ss \<noteq> []"
    using w(1) that by (simp add: is_word_def)
  moreover have "erase_spaces s = s" if "s \<in> set ss" for s
    using w(1) that erase_spaces_spaced [of "[s]"] by simp
  moreover have "getline (last ss) ((after [])\<lparr>in_fail := True\<rparr>) = (last ss, (after [])\<lparr>in_fail := True\<rparr>)"
    "getline [] ((after [])\<lparr>in_fail := True\<rparr>) = ([], (after [])\<lparr>in_fail := True\<rparr>)"
    by (simp_all add: getline_def)
  moreover have "butlast (?l @ [13, 10]) = ?l @ [13]" "butlast (?l @ [13]) = ?l"
    by (simp_all add: butlast_append)
  ultimately show ?thesis
    using ne rd getline_after [OF w(2)] erase_spaces_spaced [OF w(2)]
    by (auto simp: Parse_def Let_def args_loop_after [OF w(1)] case_prod_beta erase_spaces_def)
qed

lemma split_words:
  assumes "\<forall>s \<in> set (s # ss). is_word s"
  shows "SplitArgs (spaced (s # ss)) =
    (if length ss < 5 then (s # ss) @ replicate (5 - length ss) (last (s # ss))
     else s # take 4 ss @ [32 # spaced (drop 4 ss)])"
proof -
  have w: "\<forall>s \<in> set ss. is_word s" "\<forall>s \<in> set (drop 4 ss). is_word s"
    using assms by (auto dest: in_set_dropD)
  have five: "split_loop_args 5 [] (istringstream (spaced (s # ss))) []
      = split_loop_args 4 s (after ss) [s]"
    using read_word_spaced [OF assms] by (simp add: istringstream_def numeral_eq_Suc)
  have fail: "fst (getline z ((after [])\<lparr>in_fail := True\<rparr>)) = z" "fst (getline z (after [])) = z" for z
    by (simp_all add: getline_def after_def)
  show ?thesis
  proof (cases "length ss < 5")
    case True
    then have "5 - length ss = Suc (4 - length ss)" "drop 4 ss = []" "take 4 ss = ss" by auto
    with True show ?thesis
      unfolding SplitArgs_def five split_loop_args_after [OF w(1)]
      by (auto simp: fail replicate_append_same)
  next
    case False
    then have "drop 4 ss \<noteq> []" by simp
    with False show ?thesis
      unfolding SplitArgs_def five split_loop_args_after [OF w(1)]
      using getline_after [OF w(2), of "last (s # take 4 ss)"] by simp
  qed
qed

text \<open>The last argument comes twice. On a line of a command name and arguments,
  separated by single spaces, \<open>Parse\<close> returns the upper-case name and the arguments, but it
  repeats the last argument whenever there are one to five of them; from six on, everything after the
  fifth is one argument. \<open>SplitArgs\<close> pads short lines by repeating their last word.\<close>
lemma Parse_repeats_last:
  assumes "\<forall>s \<in> set (name # ss). is_word s"
  shows "Parse (spaced (name # ss) @ [13, 10]) = Some \<lparr>cmd_name = map toupper name, cmd_args =
      (if ss = [] then [] else if length ss \<le> 5 then ss @ [last ss]
       else take 5 ss @ [spaced (drop 5 ss)])\<rparr>
    \<and> SplitArgs (spaced (name # ss)) =
      (if length ss < 5 then (name # ss) @ replicate (5 - length ss) (last (name # ss))
       else name # take 4 ss @ [32 # spaced (drop 4 ss)])"
  using parse_words [OF assms] split_words [OF assms] by blast

section \<open>Lines over a connection\<close>

lemma drain_lines_none [simp]: "10 \<notin> set b \<Longrightarrow> drain_lines handler b st = ([], b, st)"
proof -
  assume "10 \<notin> set b"
  then have d: "dropWhile (\<lambda>c. c \<noteq> 10) b = []" by (auto simp: dropWhile_eq_Nil_conv)
  show ?thesis by (subst drain_lines.simps) (simp add: d)
qed

lemma drain_lines_line [simp]:
  assumes "10 \<notin> set l"
  shows "drain_lines handler (l @ 10 # b) st =
    (case answer_line handler (l @ [10]) st of (resp, st) \<Rightarrow>
       (case drain_lines handler b st of (out, r) \<Rightarrow> (resp @ out, r)))"
proof -
  have "\<forall>c \<in> set l. c \<noteq> 10" using assms by auto
  then have d: "dropWhile (\<lambda>c. c \<noteq> 10) (l @ 10 # b) = 10 # b" "takeWhile (\<lambda>c. c \<noteq> 10) (l @ 10 # b) = l"
    by (auto simp: dropWhile_append2 takeWhile_append2)
  show ?thesis by (subst drain_lines.simps) (simp add: d)
qed

text \<open>Induction over the lines of a buffer.\<close>

lemma lines_induct [case_names rest line]:
  assumes "\<And>b. 10 \<notin> set b \<Longrightarrow> P b" and "\<And>l b. 10 \<notin> set l \<Longrightarrow> P b \<Longrightarrow> P (l @ 10 # b)"
  shows "P (b :: str)"
proof (induction "length b" arbitrary: b rule: less_induct)
  case less
  show ?case
  proof (cases "10 \<in> set b")
    case True
    then obtain l b' where "b = l @ 10 # b'" "10 \<notin> set l" by (blast dest: split_list_first)
    with assms(2) less show ?thesis by simp
  qed (rule assms(1))
qed

lemma drain_lines_append:
  "drain_lines handler (a @ b) st =
     (case drain_lines handler a st of (out, rest, st) \<Rightarrow>
        (case drain_lines handler (rest @ b) st of (out', r) \<Rightarrow> (out @ out', r)))"
  by (induction a arbitrary: st rule: lines_induct) (simp_all split: prod.split)

text \<open>Events of a connection whose bytes contain no zero: the kernel may cut them anywhere, and the
  end of the connection is seen again and again.\<close>

definition text_event :: "recv_event \<Rightarrow> bool" where
  "text_event e \<longleftrightarrow> e = Eof \<or> (\<exists>b. e = Data b \<and> 0 \<notin> set b)"

text \<open>Property C37 (lines, and a loop that does not end). However the received bytes are cut, the text
  server answers the complete lines of the stream in order and keeps what follows the last
  newline. It never leaves the loop for the end of the connection: after any number of zero
  reads it reads again.\<close>
theorem text_client_lines:
  assumes "\<forall>e \<in> set es. text_event e" "10 \<notin> set line_buf"
  shows "text_client handler line_buf es st =
    (case drain_lines handler (line_buf @ stream es) st of (out, rest, st) \<Rightarrow> (out, Waiting, rest, st))"
  using assms
proof (induction es arbitrary: line_buf st)
  case (Cons e es)
  have rest: "10 \<notin> set (fst (snd (drain_lines handler b st)))" for b st
  proof (induction b arbitrary: st rule: lines_induct)
    case (line l b)
    obtain resp st' where "answer_line handler (l @ [10]) st = (resp, st')"
      by (cases "answer_line handler (l @ [10]) st") auto
    with line show ?case by (auto simp: case_prod_beta)
  qed simp
  show ?case
  proof (cases e)
    case (Data buf)
    then have z: "takeWhile (\<lambda>c. c \<noteq> 0) buf = buf"
      using Cons.prems(1) by (auto simp: text_event_def takeWhile_eq_all_conv)
    obtain out r st' where d: "drain_lines handler (line_buf @ buf) st = (out, r, st')"
      by (cases "drain_lines handler (line_buf @ buf) st") auto
    with rest [of "line_buf @ buf" st] have "10 \<notin> set r" by simp
    with Cons.IH Cons.prems(1) have "text_client handler r es st' =
      (case drain_lines handler (r @ stream es) st' of (out, rest, st) \<Rightarrow> (out, Waiting, rest, st))"
      by simp
    then show ?thesis
      using drain_lines_append [of handler "line_buf @ buf" "stream es" st]
      by (simp add: Data z d split: prod.split)
  next
    case Eof
    with Cons show ?thesis by (simp split: prod.split)
  qed (use Cons.prems in \<open>simp_all add: text_event_def\<close>)
qed simp

definition echo_handler :: "nat \<Rightarrow> command \<Rightarrow> str \<times> nat" where
  "echo_handler n cmd = (Ok (cmd_name cmd), n + 1)"

theorem text_client_lines_witness:
  "text_client echo_handler [] [Data (lit ''pi''), Data (lit ''ng'' @ [13, 10, 71]), Eof, Eof] 0
     = (lit ''+OK PING'' @ [13, 10], Waiting, [71], 1)"
proof -
  have "\<forall>e \<in> set [Data (lit ''pi''), Data (lit ''ng'' @ [13, 10, 71]), Eof, Eof]. text_event e"
    by (simp add: text_event_def lit_def)
  note text_client_lines [OF this, of "[]" echo_handler 0]
  moreover have "drain_lines echo_handler (lit ''ping'' @ [13, 10, 71]) 0
      = (lit ''+OK PING'' @ [13, 10], [71], 1)"
    by code_simp
  ultimately show ?thesis by (simp add: lit_def)
qed

end
