(* ===== verification/Spsc_Queue.thy ===== *)
theory Spsc_Queue
  imports LeKV_Prelude "HOL-Library.Sublist"
begin

text \<open>
  The single-producer single-consumer ring buffer of the logger
  (\<open>src/src/logger/spsc_queue.{h,cpp}\<close>) with \<open>bit_ceil\<close> of \<open>src/src/common/common.h\<close>:
  the operations as functions of the positions they load, and the two threads as a step
  relation in which loads, byte copies and the atomic additions interleave. The relation is
  sequentially consistent; the releases and acquires of the code order the copies against the
  additions as the relation does.
\<close>

unbundle bit_operations_syntax

section \<open>The capacity\<close>

text \<open>\<open>for (shift = 1; shift < 64; shift <<= 1) n |= n >> shift\<close>; the loop starts at 1.\<close>

function smear :: "nat \<Rightarrow> u64 \<Rightarrow> u64" where
  "smear shift n =
     (if shift < 64 \<and> 0 < shift then smear (2 * shift) (n OR drop_bit shift n) else n)"
  by pat_completeness auto
termination
  by (relation "measure (\<lambda>(shift, n). 64 - shift)") auto

declare smear.simps [simp del]

definition bit_ceil :: "u64 \<Rightarrow> u64" where
  "bit_ceil n = (if n \<le> 1 then 1 else smear 1 (n - 1) + 1)"

section \<open>The queue\<close>

record spsc =
  write_pos :: u64
  read_pos :: u64
  cap :: u64
  cap_mask :: u64
  ring :: bytes

definition SpscQueue :: "u64 \<Rightarrow> spsc" where
  "SpscQueue c =
     (let k = bit_ceil (c OR 1)
      in \<lparr>write_pos = 0, read_pos = 0, cap = k, cap_mask = k - 1, ring = replicate (unat k) 0\<rparr>)"

text \<open>\<open>prepare_write\<close> once it has loaded \<open>rp\<close>: the index it points to, or \<open>None\<close> for
  \<open>nullptr\<close>; the two loads of the reading side likewise.\<close>

definition prepare_at :: "spsc \<Rightarrow> u64 \<Rightarrow> u64 \<Rightarrow> u64 option" where
  "prepare_at q rp len =
     (if len = 0 then Some (write_pos q AND cap_mask q)
      else (let used = write_pos q - rp
        in if cap q - used - 1 < len then None
        else (let pos = write_pos q AND cap_mask q; to_end = cap q - pos
          in if to_end < len then None else Some pos)))"

definition prepare_write :: "spsc \<Rightarrow> u64 \<Rightarrow> u64 option" where
  "prepare_write q len = prepare_at q (read_pos q) len"

definition commit_write :: "spsc \<Rightarrow> u64 \<Rightarrow> spsc" where
  "commit_write q len = q\<lparr>write_pos := write_pos q + len\<rparr>"

definition writable_bytes :: "spsc \<Rightarrow> u64" where
  "writable_bytes q =
     (let free_total = cap q - (write_pos q - read_pos q) - 1;
          pos = write_pos q AND cap_mask q;
          to_end = cap q - pos
      in min free_total to_end)"

definition peek_at :: "spsc \<Rightarrow> u64 \<Rightarrow> u64 option" where
  "peek_at q wp = (if read_pos q = wp then None else Some (read_pos q AND cap_mask q))"

definition peek :: "spsc \<Rightarrow> u64 option" where
  "peek q = peek_at q (write_pos q)"

definition readable_at :: "spsc \<Rightarrow> u64 \<Rightarrow> u64" where
  "readable_at q wp =
     (let readable_total = wp - read_pos q
      in if readable_total = 0 then 0
         else (let pos = read_pos q AND cap_mask q; to_end = cap q - pos
               in min readable_total to_end))"

definition readable_bytes :: "spsc \<Rightarrow> u64" where
  "readable_bytes q = readable_at q (write_pos q)"

definition consume :: "spsc \<Rightarrow> u64 \<Rightarrow> spsc" where
  "consume q len = q\<lparr>read_pos := read_pos q + len\<rparr>"

definition empty :: "spsc \<Rightarrow> bool" where
  "empty q \<longleftrightarrow> read_pos q = write_pos q"

definition capacity :: "spsc \<Rightarrow> u64" where
  "capacity q = cap q"

section \<open>The capacity is the next power of two\<close>

lemma smear_bit:
  assumes "shift = 2 ^ k" "k \<le> 6" "\<And>i. bit y i \<longleftrightarrow> (\<exists>j. i \<le> j \<and> j < i + shift \<and> bit x j)"
  shows "bit (smear shift y) i \<longleftrightarrow> (\<exists>j \<ge> i. bit (x :: u64) j)"
  using assms
proof (induction "6 - k" arbitrary: k shift y)
  case 0
  then have shift: "shift = 64" by simp
  have "j < i + 64" if "bit x j" for j
    using bit_imp_le_length [OF that] by simp
  moreover have "smear shift y = y"
    using shift by (simp add: smear.simps [of 64 y])
  ultimately show ?case using 0 shift by auto
next
  case (Suc l)
  then have k: "k < 6" by simp
  then have "(2 :: nat) ^ k < 2 ^ 6" by (rule power_strict_increasing) simp
  then have shift: "shift < 64" "0 < shift" using Suc.prems(1) by simp_all
  let ?y = "y OR drop_bit shift y"
  have "bit ?y i \<longleftrightarrow> (\<exists>j. i \<le> j \<and> j < i + 2 * shift \<and> bit x j)" for i
  proof -
    have "bit ?y i \<longleftrightarrow> bit y i \<or> bit y (i + shift)"
      by (auto simp: bit_simps add.commute)
    also have "\<dots> \<longleftrightarrow> (\<exists>j. i \<le> j \<and> j < i + 2 * shift \<and> bit x j)"
      unfolding Suc.prems(3)
    proof safe
      fix j assume "i \<le> j" "j < i + 2 * shift" "bit x j" "\<nexists>j. i + shift \<le> j \<and> j < i + shift + shift \<and> bit x j"
      then show "\<exists>j. i \<le> j \<and> j < i + shift \<and> bit x j"
        by (intro exI [of _ j]) (metis (no_types, opaque_lifting) add.assoc mult_2 not_le)
    next
      fix j assume "i + shift \<le> j" "j < i + shift + shift" "bit x j"
      then show "\<exists>j \<ge> i. j < i + 2 * shift \<and> bit x j"
        by (intro exI [of _ j]) simp
    qed auto
    finally show ?thesis .
  qed
  then have "bit (smear (2 * shift) ?y) i \<longleftrightarrow> (\<exists>j \<ge> i. bit x j)"
    using Suc.hyps(2) Suc.prems(1) k by (intro Suc.hyps(1) [of "Suc k"]) simp_all
  with shift show ?case by (subst smear.simps) simp
qed

lemma smear_top:
  assumes "bit x h" "\<forall>j. bit (x :: u64) j \<longrightarrow> j \<le> h"
  shows "smear 1 x = mask (h + 1)"
proof (rule bit_word_eqI)
  fix i assume i: "i < LENGTH(64)"
  have "bit (smear 1 x) i \<longleftrightarrow> (\<exists>j \<ge> i. bit x j)"
    by (rule smear_bit [of 1 0]) (auto simp: less_Suc_eq)
  then show "bit (smear 1 x) i \<longleftrightarrow> bit (mask (h + 1) :: u64) i"
    using assms i by (auto simp: bit_simps less_Suc_eq_le dest: order.trans)
qed

lemma highest_bit:
  assumes "x \<noteq> (0 :: u64)"
  obtains h where "bit x h" "\<forall>j. bit x j \<longrightarrow> j \<le> h" "h < 64"
proof -
  have "\<exists>j. bit x j" using assms bit_eq_iff [of x 0] by auto
  moreover have "\<forall>j. bit x j \<longrightarrow> j < 64" using bit_imp_le_length [of x] by auto
  ultimately show thesis
    using that [of "GREATEST j. bit x j"] GreatestI_ex_nat [of "bit x" 64] Greatest_le_nat [of "bit x" _ 64]
    by (metis less_imp_le)
qed

lemma highest_bit_bounds:
  assumes "bit x h" "\<forall>j. bit (x :: u64) j \<longrightarrow> j \<le> h" "h < 64"
  shows "2 ^ h \<le> unat x" "unat x < 2 ^ (h + 1)"
proof -
  have "take_bit (h + 1) x = x"
    by (rule bit_eqI) (use assms(2) in \<open>auto simp: bit_simps less_Suc_eq_le\<close>)
  then have "take_bit (h + 1) (unat x) = unat x"
    by (metis unsigned_take_bit_eq)
  then show "unat x < 2 ^ (h + 1)" by (metis take_bit_nat_less_exp)
  have "bit (unat x) h" using assms(1) by (simp add: bit_unsigned_iff)
  then have "unat x div 2 ^ h \<noteq> 0" by (metis bit_iff_odd even_zero)
  then show "2 ^ h \<le> unat x" by (metis div_less not_le)
qed

lemma bit_ceil_power:
  assumes "1 \<le> unat n" "unat n \<le> 2 ^ 63"
  obtains k where "k \<le> 63" "bit_ceil n = 2 ^ k" "unat n \<le> 2 ^ k" "\<And>j. unat n \<le> 2 ^ j \<Longrightarrow> k \<le> j"
proof (cases "n \<le> 1")
  case True
  then have "unat n = 1" using assms by (simp add: word_le_nat_alt)
  with True that [of 0] show thesis by (simp add: bit_ceil_def)
next
  case False
  then have n: "1 < unat n" by (simp add: word_le_nat_alt not_le)
  then have x: "unat (n - 1) = unat n - 1" by (simp add: unat_sub_if' word_le_nat_alt)
  then have "n - 1 \<noteq> 0" using n by (metis diff_is_0_eq not_le unat_0)
  then obtain h where h: "bit (n - 1) h" "\<forall>j. bit (n - 1) j \<longrightarrow> j \<le> h" "h < 64"
    by (rule highest_bit)
  note b = highest_bit_bounds [OF h] and t = smear_top [OF h(1,2)]
  have "(2 :: nat) ^ h < 2 ^ 63" using b(1) x assms(2) n by linarith
  then have h63: "h < 63" by (rule power_less_imp_less_exp [rotated]) simp
  have "bit_ceil n = 2 ^ (h + 1)"
    using False t by (simp add: bit_ceil_def mask_eq_exp_minus_1)
  moreover have "unat n \<le> 2 ^ (h + 1)" using b(2) x n by linarith
  moreover have "h + 1 \<le> j" if "unat n \<le> 2 ^ j" for j
  proof -
    have "(2 :: nat) ^ h < 2 ^ j" using b(1) x n that by linarith
    then show ?thesis by simp
  qed
  ultimately show thesis using that [of "h + 1"] h63 by simp
qed

section \<open>The two threads\<close>

text \<open>Where the producer is: idle; past the load of \<open>read_pos_\<close> in \<open>prepare_write\<close>;
  copying its data to the reserved place, some bytes done. Where the consumer is: idle; past the
  load of \<open>write_pos_\<close> in \<open>peek\<close> and \<open>readable_bytes\<close>; copying at most so many bytes
  out, those it has so far.\<close>

datatype producer = PIdle | PLoaded bytes u64 | PCopying nat bytes nat

datatype consumer = CIdle | CLoaded u64 | CCopying nat nat bytes

text \<open>The queue with the two threads and what has been committed and consumed so far.\<close>

record system =
  queue :: spsc
  prod :: producer
  cons :: consumer
  committed :: bytes
  consumed :: bytes

inductive spsc_step :: "system \<Rightarrow> system \<Rightarrow> bool" where
  produce: "prod s = PIdle \<Longrightarrow> length data < 2 ^ 64 \<Longrightarrow>
    spsc_step s (s\<lparr>prod := PLoaded data (read_pos (queue s))\<rparr>)"
| refuse: "prod s = PLoaded data rp \<Longrightarrow> prepare_at (queue s) rp (of_nat (length data)) = None \<Longrightarrow>
    spsc_step s (s\<lparr>prod := PIdle\<rparr>)"
| reserve: "prod s = PLoaded data rp \<Longrightarrow> prepare_at (queue s) rp (of_nat (length data)) = Some pos \<Longrightarrow>
    spsc_step s (s\<lparr>prod := PCopying (unat pos) data 0\<rparr>)"
| copy_in: "prod s = PCopying pos data i \<Longrightarrow> i < length data \<Longrightarrow>
    spsc_step s (s\<lparr>queue := (queue s)\<lparr>ring := (ring (queue s))[pos + i := data ! i]\<rparr>,
                   prod := PCopying pos data (i + 1)\<rparr>)"
| commit: "prod s = PCopying pos data i \<Longrightarrow> i = length data \<Longrightarrow>
    spsc_step s (s\<lparr>queue := commit_write (queue s) (of_nat (length data)), prod := PIdle,
                   committed := committed s @ data\<rparr>)"
| look: "cons s = CIdle \<Longrightarrow> spsc_step s (s\<lparr>cons := CLoaded (write_pos (queue s))\<rparr>)"
| nothing: "cons s = CLoaded wp \<Longrightarrow> peek_at (queue s) wp = None \<Longrightarrow>
    spsc_step s (s\<lparr>cons := CIdle\<rparr>)"
| readable: "cons s = CLoaded wp \<Longrightarrow> peek_at (queue s) wp = Some pos \<Longrightarrow>
    n \<le> unat (readable_at (queue s) wp) \<Longrightarrow>
    spsc_step s (s\<lparr>cons := CCopying (unat pos) n []\<rparr>)"
| copy_out: "cons s = CCopying pos n got \<Longrightarrow> length got < n \<Longrightarrow>
    spsc_step s (s\<lparr>cons := CCopying pos n (got @ [ring (queue s) ! (pos + length got)])\<rparr>)"
| release: "cons s = CCopying pos n got \<Longrightarrow> length got = n \<Longrightarrow>
    spsc_step s (s\<lparr>queue := consume (queue s) (of_nat n), cons := CIdle,
                   consumed := consumed s @ got\<rparr>)"

definition start_system :: "u64 \<Rightarrow> system" where
  "start_system c = \<lparr>queue = SpscQueue c, prod = PIdle, cons = CIdle, committed = [], consumed = []\<rparr>"

section \<open>Positions\<close>

text \<open>The queue has a capacity of \<open>2 ^ k\<close> and its positions are the numbers of bytes committed
  and consumed, wrapped.\<close>

definition shape :: "nat \<Rightarrow> system \<Rightarrow> bool" where
  "shape k s \<longleftrightarrow> k \<le> 63 \<and> cap (queue s) = 2 ^ k \<and> cap_mask (queue s) = 2 ^ k - 1
     \<and> length (ring (queue s)) = 2 ^ k
     \<and> write_pos (queue s) = of_nat (length (committed s))
     \<and> read_pos (queue s) = of_nat (length (consumed s))"

lemma unat_power: "k \<le> 63 \<Longrightarrow> unat (2 ^ k :: u64) = 2 ^ k"
proof -
  assume "k \<le> 63"
  then have "(2 :: nat) ^ k < 2 ^ 64" by (intro power_strict_increasing) simp_all
  moreover have "(2 :: u64) ^ k = of_nat (2 ^ k)" by simp
  ultimately show ?thesis by (simp only: unat_of_nat) simp
qed

lemma unat_index:
  assumes "k \<le> 63"
  shows "unat (of_nat n AND (2 ^ k - 1 :: u64)) = n mod 2 ^ k"
proof -
  have "of_nat n AND (2 ^ k - 1 :: u64) = take_bit k (of_nat n)"
    by (simp add: take_bit_eq_mask mask_eq_exp_minus_1)
  then have "unat (of_nat n AND (2 ^ k - 1 :: u64)) = take_bit k (unat (of_nat n :: u64))"
    by (simp add: unsigned_take_bit_eq)
  also have "\<dots> = n mod 2 ^ 64 mod 2 ^ k" by (simp add: take_bit_eq_mod unat_of_nat)
  also have "\<dots> = n mod 2 ^ k"
    using assms by (intro mod_mod_cancel le_imp_power_dvd) simp
  finally show ?thesis .
qed

lemma unat_distance:
  assumes "a \<le> b" "b - a < 2 ^ 63"
  shows "unat (of_nat b - of_nat a :: u64) = b - a"
proof -
  have "of_nat b - of_nat a = (of_nat (b - a) :: u64)" using assms(1) by (simp add: of_nat_diff)
  with assms(2) show ?thesis by (simp only: unat_of_nat) simp
qed

text \<open>What \<open>prepare_write\<close> grants, in numbers: with \<open>c\<close> bytes known to be consumed, the data fit
  between the write position and the end of the ring, and one byte stays free.\<close>

lemma prepare_at_some:
  assumes "k \<le> 63" "cap q = 2 ^ k" "cap_mask q = 2 ^ k - 1" "write_pos q = of_nat w" "rp = of_nat c"
    and "c \<le> w" "w - c < 2 ^ k" "len < 2 ^ 64"
  shows "prepare_at q rp (of_nat len) =
    (if len = 0 \<or> w - c + len < 2 ^ k \<and> w mod 2 ^ k + len \<le> 2 ^ k
     then Some (of_nat (w mod 2 ^ k)) else None)"
proof -
  have k: "(2 :: nat) ^ k \<le> 2 ^ 63" using assms(1) by (intro power_increasing) simp_all
  have used: "unat (of_nat w - of_nat c :: u64) = w - c"
    using k assms(7) by (intro unat_distance [OF assms(6)]) linarith
  have cap: "unat (2 ^ k :: u64) = 2 ^ k" by (rule unat_power [OF assms(1)])
  let ?free = "2 ^ k - (of_nat w - of_nat c) - 1 :: u64" and ?pos = "of_nat w AND (2 ^ k - 1) :: u64"
  have "unat (2 ^ k - (of_nat w - of_nat c) :: u64) = 2 ^ k - (w - c)"
    using used cap assms(7) by (subst unat_sub) (simp_all add: word_le_nat_alt)
  then have free: "unat ?free = 2 ^ k - (w - c) - 1"
    using assms(7) by (subst unat_sub) (simp_all add: word_le_nat_alt)
  have pos: "unat ?pos = w mod 2 ^ k" by (rule unat_index [OF assms(1)])
  have mod: "w mod 2 ^ k < 2 ^ k" by simp
  then have tail: "unat (2 ^ k - ?pos) = 2 ^ k - w mod 2 ^ k"
    using pos cap by (subst unat_sub) (simp_all add: word_le_nat_alt)
  have len: "unat (of_nat len :: u64) = len" using assms(8) by (simp add: unat_of_nat)
  have eq: "of_nat (w mod 2 ^ k) = ?pos"
    by (simp only: pos [symmetric]) simp
  have zero: "of_nat len = (0 :: u64) \<longleftrightarrow> len = 0" using len unat_eq_0 [of "of_nat len :: u64"] by simp
  have full: "?free < of_nat len \<longleftrightarrow> \<not> w - c + len < 2 ^ k" if "len \<noteq> 0"
    unfolding word_less_nat_alt free len using assms(7) that by linarith
  have over: "2 ^ k - ?pos < of_nat len \<longleftrightarrow> \<not> w mod 2 ^ k + len \<le> 2 ^ k"
    unfolding word_less_nat_alt tail len using mod by linarith
  show ?thesis
  proof (cases "len = 0")
    case True
    then show ?thesis
      unfolding prepare_at_def assms(2-5) eq zero by (simp only: simp_thms if_True)
  next
    case False
    show ?thesis
      unfolding prepare_at_def assms(2-5) eq Let_def zero full [OF False] over
      by (cases "w - c + len < 2 ^ k"; cases "w mod 2 ^ k + len \<le> 2 ^ k")
        (simp_all only: False simp_thms if_True if_False)
  qed
qed

lemma readable_at_some:
  assumes "k \<le> 63" "cap q = 2 ^ k" "cap_mask q = 2 ^ k - 1" "read_pos q = of_nat c" "wp = of_nat w"
    and "c \<le> w" "w - c < 2 ^ k"
  shows "peek_at q wp = (if c = w then None else Some (of_nat (c mod 2 ^ k)))"
    and "unat (readable_at q wp) = min (w - c) (2 ^ k - c mod 2 ^ k)"
proof -
  have k: "(2 :: nat) ^ k \<le> 2 ^ 63" using assms(1) by (intro power_increasing) simp_all
  have total: "unat (of_nat w - of_nat c :: u64) = w - c"
    using k assms(7) by (intro unat_distance [OF assms(6)]) linarith
  have cap: "unat (2 ^ k :: u64) = 2 ^ k" by (rule unat_power [OF assms(1)])
  let ?pos = "of_nat c AND (2 ^ k - 1) :: u64"
  have pos: "unat ?pos = c mod 2 ^ k" by (rule unat_index [OF assms(1)])
  have mod: "c mod 2 ^ k < 2 ^ k" by simp
  then have tail: "unat (2 ^ k - ?pos) = 2 ^ k - c mod 2 ^ k"
    using pos cap by (subst unat_sub) (simp_all add: word_le_nat_alt)
  have eq: "of_nat (c mod 2 ^ k) = ?pos"
    by (simp only: pos [symmetric]) simp
  have z: "of_nat w - of_nat c = (0 :: u64) \<longleftrightarrow> w - c = 0"
    using total by (metis unat_0 unat_eq_0)
  moreover have "of_nat w - of_nat c = (0 :: u64) \<longleftrightarrow> of_nat c = (of_nat w :: u64)" by auto
  ultimately show "peek_at q wp = (if c = w then None else Some (of_nat (c mod 2 ^ k)))"
    using assms(3-6) by (auto simp: peek_at_def eq)
  show "unat (readable_at q wp) = min (w - c) (2 ^ k - c mod 2 ^ k)"
    using assms(2-5) z total tail
    by (auto simp: readable_at_def Let_def min_def word_le_nat_alt)
qed

section \<open>The invariant\<close>

definition contents :: "nat \<Rightarrow> system \<Rightarrow> bool" where
  "contents k s \<longleftrightarrow> consumed s = take (length (consumed s)) (committed s)
     \<and> length (consumed s) \<le> length (committed s)
     \<and> length (committed s) - length (consumed s) < 2 ^ k
     \<and> (\<forall>i. length (consumed s) \<le> i \<and> i < length (committed s)
          \<longrightarrow> ring (queue s) ! (i mod 2 ^ k) = committed s ! i)"

fun prod_ok :: "nat \<Rightarrow> system \<Rightarrow> producer \<Rightarrow> bool" where
  "prod_ok k s PIdle = True"
| "prod_ok k s (PLoaded data rp) = (length data < 2 ^ 64
     \<and> (\<exists>c \<le> length (consumed s). rp = of_nat c \<and> length (committed s) - c < 2 ^ k))"
| "prod_ok k s (PCopying pos data i) = (i \<le> length data
     \<and> (data = [] \<or> pos = length (committed s) mod 2 ^ k
          \<and> length (committed s) - length (consumed s) + length data < 2 ^ k
          \<and> pos + length data \<le> 2 ^ k
          \<and> (\<forall>j < i. ring (queue s) ! (pos + j) = data ! j)))"

fun cons_ok :: "nat \<Rightarrow> system \<Rightarrow> consumer \<Rightarrow> bool" where
  "cons_ok k s CIdle = True"
| "cons_ok k s (CLoaded wp) =
     (\<exists>w. wp = of_nat w \<and> length (consumed s) \<le> w \<and> w \<le> length (committed s))"
| "cons_ok k s (CCopying pos n got) = (pos = length (consumed s) mod 2 ^ k
     \<and> length (consumed s) + n \<le> length (committed s) \<and> pos + n \<le> 2 ^ k \<and> length got \<le> n
     \<and> got = take (length got) (drop (length (consumed s)) (committed s)))"

definition spsc_inv :: "nat \<Rightarrow> system \<Rightarrow> bool" where
  "spsc_inv k s \<longleftrightarrow> shape k s \<and> contents k s \<and> prod_ok k s (prod s) \<and> cons_ok k s (cons s)"

lemma mod_differ: "a < b \<Longrightarrow> b < a + m \<Longrightarrow> a mod m \<noteq> b mod (m :: nat)"
proof
  assume ab: "a < b" "b < a + m" and "a mod m = b mod m"
  then have "m dvd b - a" using mod_eq_dvd_iff_nat [of a b m] by simp
  then have "m \<le> b - a" using ab(1) by (intro dvd_imp_le) simp_all
  with ab show False by linarith
qed

lemma mod_near: "w mod m + i < m \<Longrightarrow> w mod m + i = (w + i) mod (m :: nat)"
  by (metis mod_add_left_eq mod_less)

lemma frame_simps [simp]:
  "shape k (s\<lparr>prod := p\<rparr>) = shape k s" "shape k (s\<lparr>cons := c\<rparr>) = shape k s"
  "contents k (s\<lparr>prod := p\<rparr>) = contents k s" "contents k (s\<lparr>cons := c\<rparr>) = contents k s"
  "prod_ok k (s\<lparr>prod := p\<rparr>) x = prod_ok k s x" "prod_ok k (s\<lparr>cons := c\<rparr>) x = prod_ok k s x"
  "cons_ok k (s\<lparr>prod := p\<rparr>) y = cons_ok k s y" "cons_ok k (s\<lparr>cons := c\<rparr>) y = cons_ok k s y"
  "cons_ok k (s\<lparr>queue := q\<rparr>) y = cons_ok k s y"
  by (simp_all add: shape_def contents_def, (cases x; simp)+, (cases y; simp)+)

text \<open>The places the producer writes are not those of the bytes waiting to be read.\<close>

lemma places_differ:
  assumes "c \<le> j" "j < w" "w - c + len < (m :: nat)" "w mod m + len \<le> m" "i < len"
  shows "j mod m \<noteq> w mod m + i"
proof -
  have "w mod m + i < m" using assms(4,5) by linarith
  then have "w mod m + i = (w + i) mod m" by (rule mod_near)
  moreover have "j mod m \<noteq> (w + i) mod m" using assms by (intro mod_differ) linarith+
  ultimately show ?thesis by simp
qed

lemma inv_start:
  assumes "unat c < 2 ^ 63"
  obtains k where "spsc_inv k (start_system c)" "cap (queue (start_system c)) = 2 ^ k" "unat (c OR 1) \<le> 2 ^ k"
    "\<And>j. unat (c OR 1) \<le> 2 ^ j \<Longrightarrow> k \<le> j"
proof -
  have "c OR 1 = c + of_bool (even c)" by (rule or_one_eq)
  moreover have "unat (c + 1) = unat c + 1" using assms by (simp add: unat_word_ariths)
  moreover have "unat c \<noteq> 0" if "odd c"
    using that by (metis even_zero unat_eq_0)
  ultimately have "1 \<le> unat (c OR 1)" "unat (c OR 1) \<le> 2 ^ 63"
    using assms by (cases "even c"; simp)+
  then obtain k where k: "k \<le> 63" "bit_ceil (c OR 1) = 2 ^ k" "unat (c OR 1) \<le> 2 ^ k"
    "\<And>j. unat (c OR 1) \<le> 2 ^ j \<Longrightarrow> k \<le> j" by (rule bit_ceil_power) blast
  have "spsc_inv k (start_system c)"
    using k(1,2) unat_power [OF k(1)]
    by (simp add: spsc_inv_def shape_def contents_def start_system_def SpscQueue_def Let_def)
  with that k(2-4) show thesis
    by (simp add: start_system_def SpscQueue_def Let_def)
qed

lemma shape_simps:
  "shape k s \<Longrightarrow> prepare_at (queue s) (of_nat c) (of_nat len) = Some pos \<Longrightarrow> c \<le> length (consumed s) \<Longrightarrow>
    contents k s \<Longrightarrow> length (committed s) - c < 2 ^ k \<Longrightarrow> len < 2 ^ 64 \<Longrightarrow>
    len = 0 \<or> unat pos = length (committed s) mod 2 ^ k
      \<and> length (committed s) - length (consumed s) + len < 2 ^ k \<and> unat pos + len \<le> 2 ^ k"
proof -
  assume s: "shape k s" "prepare_at (queue s) (of_nat c) (of_nat len) = Some pos" "c \<le> length (consumed s)"
    "contents k s" "length (committed s) - c < 2 ^ k" "len < 2 ^ 64"
  have k: "k \<le> 63" using s(1) by (simp add: shape_def)
  have c: "c \<le> length (committed s)" using s(3,4) by (simp add: contents_def)
  have "(2 :: nat) ^ k \<le> 2 ^ 63" using k by (intro power_increasing) simp_all
  then have "length (committed s) mod 2 ^ k < 2 ^ 64"
    by (intro order.strict_trans2 [OF mod_less_divisor]) simp_all
  then have u: "unat (of_nat (length (committed s) mod 2 ^ k) :: u64) = length (committed s) mod 2 ^ k"
    by (simp add: unat_of_nat)
  show ?thesis
    using prepare_at_some [of k "queue s" "length (committed s)" "of_nat c" c len] s(1,2,3,5,6) k c u
    by (auto simp: shape_def split: if_splits)
qed

lemma inv_reserve:
  assumes "prod s = PLoaded data rp" "prepare_at (queue s) rp (of_nat (length data)) = Some pos" "spsc_inv k s"
  shows "spsc_inv k (s\<lparr>prod := PCopying (unat pos) data 0\<rparr>)"
proof -
  obtain c where "c \<le> length (consumed s)" "rp = of_nat c" "length (committed s) - c < 2 ^ k" "length data < 2 ^ 64"
    using assms(1,3) by (auto simp: spsc_inv_def)
  with shape_simps [of k s c "length data" pos] assms(2,3) have
    "data = [] \<or> unat pos = length (committed s) mod 2 ^ k
      \<and> length (committed s) - length (consumed s) + length data < 2 ^ k \<and> unat pos + length data \<le> 2 ^ k"
    by (auto simp: spsc_inv_def)
  with assms(3) show ?thesis by (auto simp: spsc_inv_def)
qed

lemma inv_copy_in:
  assumes "prod s = PCopying pos data i" "i < length data" "spsc_inv k s"
  shows "spsc_inv k (s\<lparr>queue := (queue s)\<lparr>ring := (ring (queue s))[pos + i := data ! i]\<rparr>,
                   prod := PCopying pos data (i + 1)\<rparr>)"
proof -
  let ?w = "length (committed s)" and ?c = "length (consumed s)"
  have p: "pos = ?w mod 2 ^ k" "?w - ?c + length data < 2 ^ k" "pos + length data \<le> 2 ^ k"
    "\<forall>j < i. ring (queue s) ! (pos + j) = data ! j"
    using assms by (auto simp: spsc_inv_def)
  have "length (ring (queue s)) = 2 ^ k" using assms(3) by (simp add: spsc_inv_def shape_def)
  then have at: "(ring (queue s))[pos + i := data ! i] ! (pos + j) = data ! j" if "j < i + 1" for j
    using p(3,4) that assms(2) by (cases "j = i") simp_all
  have d: "pos + i \<noteq> j mod 2 ^ k" if "?c \<le> j" "j < ?w" for j
    unfolding p(1) by (rule places_differ [OF that p(2), symmetric]) (use p assms(2) in auto)
  have "(ring (queue s))[pos + i := data ! i] ! (j mod 2 ^ k) = committed s ! j"
    if "?c \<le> j" "j < ?w" for j
    using assms(3) that d [OF that] by (simp add: spsc_inv_def contents_def nth_list_update_neq)
  with assms at p show ?thesis
    by (auto simp: spsc_inv_def shape_def contents_def)
qed

lemma inv_commit:
  assumes "prod s = PCopying pos data (length data)" "spsc_inv k s"
  shows "spsc_inv k (s\<lparr>queue := commit_write (queue s) (of_nat (length data)), prod := PIdle,
                   committed := committed s @ data\<rparr>)"
proof -
  let ?w = "length (committed s)" and ?c = "length (consumed s)"
  have le: "?c \<le> ?w" using assms(2) by (simp add: spsc_inv_def contents_def)
  have fits: "?w + length data - ?c < 2 ^ k"
    using assms le by (cases "data = []") (auto simp: spsc_inv_def contents_def)
  have new: "ring (queue s) ! (j mod 2 ^ k) = data ! (j - ?w)" if "?w \<le> j" "j < ?w + length data" for j
  proof -
    have j: "j - ?w < length data" using that by linarith
    have p: "pos = ?w mod 2 ^ k" "pos + length data \<le> 2 ^ k" "\<forall>i < length data. ring (queue s) ! (pos + i) = data ! i"
      using assms that by (auto simp: spsc_inv_def)
    have "pos + (j - ?w) < 2 ^ k" using p(2) that by linarith
    then have "pos + (j - ?w) = j mod 2 ^ k"
      using mod_near [of ?w "2 ^ k" "j - ?w"] that(1) p(1) by simp
    with p(3) j show ?thesis by metis
  qed
  have "ring (queue s) ! (j mod 2 ^ k) = (committed s @ data) ! j" if "?c \<le> j" "j < ?w + length data" for j
    using assms(2) that new [of j] by (cases "j < ?w") (auto simp: spsc_inv_def contents_def nth_append)
  moreover have "cons_ok k (s\<lparr>committed := committed s @ data\<rparr>) y" if "cons_ok k s y" for y
    using that by (cases y) (auto simp: take_drop)
  ultimately show ?thesis
    using assms(2) le fits
    by (cases "cons s") (auto simp: spsc_inv_def shape_def contents_def commit_write_def)
qed

lemma inv_readable:
  assumes "cons s = CLoaded wp" "peek_at (queue s) wp = Some pos" "n \<le> unat (readable_at (queue s) wp)"
    and "spsc_inv k s"
  shows "spsc_inv k (s\<lparr>cons := CCopying (unat pos) n []\<rparr>)"
proof -
  let ?w = "length (committed s)" and ?c = "length (consumed s)"
  obtain w where w: "wp = of_nat w" "?c \<le> w" "w \<le> ?w"
    using assms(1,4) by (auto simp: spsc_inv_def)
  have q: "k \<le> 63" "cap (queue s) = 2 ^ k" "cap_mask (queue s) = 2 ^ k - 1" "read_pos (queue s) = of_nat ?c"
    "?w - ?c < 2 ^ k"
    using assms(4) by (simp_all add: spsc_inv_def shape_def contents_def)
  have wc: "w - ?c < 2 ^ k" using w q(5) by linarith
  note r = readable_at_some [OF q(1-4) w(1,2) wc]
  have "(2 :: nat) ^ k \<le> 2 ^ 63" using q(1) by (intro power_increasing) simp_all
  then have "?c mod 2 ^ k < 2 ^ 64"
    by (intro order.strict_trans2 [OF mod_less_divisor]) simp_all
  then have "unat pos = ?c mod 2 ^ k"
    using assms(2) unfolding r(1) by (auto simp: unat_of_nat split: if_splits)
  moreover have "n \<le> w - ?c" "n \<le> 2 ^ k - ?c mod 2 ^ k" using assms(3) unfolding r(2) by simp_all
  moreover have "?c mod 2 ^ k < 2 ^ k" by simp
  ultimately have "cons_ok k s (CCopying (unat pos) n [])"
    using w(2,3) by (auto simp del: mod_less_divisor)
  with assms(4) show ?thesis by (simp add: spsc_inv_def)
qed

lemma inv_copy_out:
  assumes "cons s = CCopying pos n got" "length got < n" "spsc_inv k s"
  shows "spsc_inv k (s\<lparr>cons := CCopying pos n (got @ [ring (queue s) ! (pos + length got)])\<rparr>)"
proof -
  let ?w = "length (committed s)" and ?c = "length (consumed s)"
  have c: "pos = ?c mod 2 ^ k" "?c + n \<le> ?w" "pos + n \<le> 2 ^ k"
    "got = take (length got) (drop ?c (committed s))"
    using assms(1,3) by (simp_all add: spsc_inv_def)
  have "pos + length got < 2 ^ k" using c(3) assms(2) by linarith
  then have "pos + length got = (?c + length got) mod 2 ^ k" unfolding c(1) by (rule mod_near)
  moreover have "ring (queue s) ! ((?c + length got) mod 2 ^ k) = committed s ! (?c + length got)"
    using assms(2,3) c(2) by (simp add: spsc_inv_def contents_def)
  ultimately have "got @ [ring (queue s) ! (pos + length got)]
      = take (Suc (length got)) (drop ?c (committed s))"
    using c(2,4) assms(2) by (subst c(4)) (simp add: take_Suc_conv_app_nth)
  with assms c show ?thesis by (simp add: spsc_inv_def)
qed

lemma inv_release:
  assumes "cons s = CCopying pos n got" "length got = n" "spsc_inv k s"
  shows "spsc_inv k (s\<lparr>queue := consume (queue s) (of_nat n), cons := CIdle, consumed := consumed s @ got\<rparr>)"
proof -
  let ?w = "length (committed s)" and ?c = "length (consumed s)"
  have c: "?c + n \<le> ?w" "got = take n (drop ?c (committed s))"
    using assms by (simp_all add: spsc_inv_def)
  have old: "consumed s = take ?c (committed s)" using assms(3) by (simp add: spsc_inv_def contents_def)
  have "consumed s @ got = take (?c + n) (committed s)"
    by (subst old, subst c(2)) (simp add: take_add)
  moreover have "prod_ok k (s\<lparr>queue := (queue s)\<lparr>read_pos := x\<rparr>, cons := CIdle, consumed := consumed s @ got\<rparr>) y"
    if "prod_ok k s y" for x y
  proof (cases y)
    case (PLoaded data rp)
    with that obtain l where "length data < 2 ^ 64" "l \<le> ?c" "rp = of_nat l" "?w - l < 2 ^ k" by auto
    with PLoaded show ?thesis by (auto intro!: exI [of _ l])
  qed (use that c(1) assms(2) in auto)
  ultimately show ?thesis
    using assms c(1) by (auto simp: spsc_inv_def shape_def contents_def consume_def)
qed

lemma inv_step:
  assumes "spsc_step s s'" "spsc_inv k s"
  shows "spsc_inv k s'"
  using assms
proof (induction rule: spsc_step.induct)
  case (produce s data)
  then have "length (consumed s) \<le> length (committed s)"
    "length (committed s) - length (consumed s) < 2 ^ k" "read_pos (queue s) = of_nat (length (consumed s))"
    by (simp_all add: spsc_inv_def shape_def contents_def)
  with produce show ?case by (auto simp: spsc_inv_def)
next
  case (refuse s data rp)
  then show ?case by (simp add: spsc_inv_def)
next
  case (reserve s data rp pos)
  then show ?case by (intro inv_reserve)
next
  case (copy_in s pos data i)
  then show ?case by (intro inv_copy_in)
next
  case (commit s pos data i)
  then show ?case by (intro inv_commit) simp_all
next
  case (look s)
  then show ?case by (auto simp: spsc_inv_def shape_def contents_def)
next
  case (nothing s wp)
  then show ?case by (simp add: spsc_inv_def)
next
  case (readable s wp pos n)
  then show ?case by (intro inv_readable)
next
  case (copy_out s pos n got)
  then show ?case by (intro inv_copy_out)
next
  case (release s pos n got)
  then show ?case by (intro inv_release)
qed

lemma inv_steps: "spsc_step\<^sup>*\<^sup>* s s' \<Longrightarrow> spsc_inv k s \<Longrightarrow> spsc_inv k s'"
  by (induction rule: rtranclp_induct) (auto intro: inv_step)

section \<open>A run\<close>

text \<open>Two bytes through a queue of four.\<close>

definition sample_end :: system where
  "sample_end = (start_system 3)\<lparr>queue := \<lparr>write_pos = 2, read_pos = 2, cap = 4, cap_mask = 3,
       ring = [7, 8, 0, 0]\<rparr>, committed := [7, 8], consumed := [7, 8]\<rparr>"

lemma sample_run: "spsc_step\<^sup>*\<^sup>* (start_system 3) sample_end"
proof -
  have q: "SpscQueue 3 = \<lparr>write_pos = 0, read_pos = 0, cap = 4, cap_mask = 3, ring = [0, 0, 0, 0]\<rparr>"
    by code_simp
  let ?s0 = "start_system 3" and ?q = "(SpscQueue 3)\<lparr>ring := [7, 8, 0, 0]\<rparr>"
  let ?s1 = "?s0\<lparr>prod := PLoaded [7, 8] 0\<rparr>" and ?s2 = "?s0\<lparr>prod := PCopying 0 [7, 8] 0\<rparr>"
  let ?s3 = "?s0\<lparr>queue := (SpscQueue 3)\<lparr>ring := [7, 0, 0, 0]\<rparr>, prod := PCopying 0 [7, 8] 1\<rparr>"
  let ?s4 = "?s0\<lparr>queue := ?q, prod := PCopying 0 [7, 8] 2\<rparr>"
  let ?s5 = "?s0\<lparr>queue := ?q\<lparr>write_pos := 2\<rparr>, committed := [7, 8]\<rparr>"
  let ?s6 = "?s5\<lparr>cons := CLoaded 2\<rparr>" and ?s7 = "?s5\<lparr>cons := CCopying 0 2 []\<rparr>"
  let ?s8 = "?s5\<lparr>cons := CCopying 0 2 [7]\<rparr>" and ?s9 = "?s5\<lparr>cons := CCopying 0 2 [7, 8]\<rparr>"
  note d = start_system_def q
  have "spsc_step ?s0 ?s1" using spsc_step.produce [of ?s0 "[7, 8]"] by (simp add: d)
  moreover have "spsc_step ?s1 ?s2"
    using spsc_step.reserve [of ?s1 "[7, 8]" 0 0] by (simp add: d prepare_at_def)
  moreover have "spsc_step ?s2 ?s3" using spsc_step.copy_in [of ?s2 0 "[7, 8]" 0] by (simp add: d)
  moreover have "spsc_step ?s3 ?s4" using spsc_step.copy_in [of ?s3 0 "[7, 8]" 1] by (simp add: d numeral_2_eq_2)
  moreover have "spsc_step ?s4 ?s5"
    using spsc_step.commit [of ?s4 0 "[7, 8]" 2] by (simp add: d commit_write_def)
  moreover have "spsc_step ?s5 ?s6" using spsc_step.look [of ?s5] by (simp add: d)
  moreover have "spsc_step ?s6 ?s7"
    using spsc_step.readable [of ?s6 2 0 2] by (simp add: d peek_at_def readable_at_def)
  moreover have "spsc_step ?s7 ?s8" using spsc_step.copy_out [of ?s7 0 2 "[]"] by (simp add: d)
  moreover have "spsc_step ?s8 ?s9" using spsc_step.copy_out [of ?s8 0 2 "[7]"] by (simp add: d)
  moreover have "spsc_step ?s9 sample_end"
    using spsc_step.release [of ?s9 0 2 "[7, 8]"] by (simp add: d consume_def sample_end_def)
  ultimately show ?thesis
    by (meson converse_rtranclp_into_rtranclp rtranclp.rtrancl_refl)
qed

section \<open>Properties\<close>

lemma inv_no_race:
  assumes "spsc_inv k s" "prod s = PCopying pos data i" "i < length data" "cons s = CCopying pos' n got" "j < n"
  shows "pos + i \<noteq> pos' + j"
proof -
  let ?w = "length (committed s)" and ?c = "length (consumed s)"
  have p: "pos = ?w mod 2 ^ k" "?w - ?c + length data < 2 ^ k" "pos + length data \<le> 2 ^ k"
    using assms(1-3) by (auto simp: spsc_inv_def)
  have c: "pos' = ?c mod 2 ^ k" "?c + n \<le> ?w" "pos' + n \<le> 2 ^ k"
    using assms(1,4) by (auto simp: spsc_inv_def)
  have "pos' + j < 2 ^ k" using c(3) assms(5) by linarith
  then have "pos' + j = (?c + j) mod 2 ^ k" unfolding c(1) by (rule mod_near)
  moreover have "(?c + j) mod 2 ^ k \<noteq> ?w mod 2 ^ k + i"
    by (rule places_differ [of ?c _ ?w "length data"]) (use p c(2) assms(3,5) in auto)
  ultimately show ?thesis using p(1) by simp
qed

lemma inv_in_ring:
  "spsc_inv k s \<Longrightarrow> prod s = PCopying pos data i \<Longrightarrow> i < length data \<Longrightarrow> pos + i < length (ring (queue s))"
  by (auto simp: spsc_inv_def shape_def)

text \<open>Property C13 (a FIFO without races). However the loads, byte copies and position updates of the
  two threads interleave, the consumer has received a prefix of what the producer committed; fewer
  bytes than the capacity are under way; and the place the producer writes next is in the ring
  and none of those the consumer is reading.\<close>
theorem spsc_fifo:
  assumes "spsc_step\<^sup>*\<^sup>* (start_system c) s" "unat c < 2 ^ 63"
  shows "prefix (consumed s) (committed s)
    \<and> length (committed s) - length (consumed s) < length (ring (queue s))
    \<and> (case (prod s, cons s) of
         (PCopying pos data i, CCopying pos' n got) \<Rightarrow>
           i < length data \<longrightarrow> pos + i < length (ring (queue s)) \<and> (\<forall>j < n. pos + i \<noteq> pos' + j)
       | _ \<Rightarrow> True)"
proof -
  obtain k where "spsc_inv k (start_system c)"
    using inv_start [OF assms(2)] by blast
  from inv_steps [OF assms(1) this] have inv: "spsc_inv k s" .
  then have "consumed s = take (length (consumed s)) (committed s)"
    "length (committed s) - length (consumed s) < length (ring (queue s))"
    by (simp_all add: spsc_inv_def shape_def contents_def)
  moreover from this(1) have "prefix (consumed s) (committed s)" by (metis take_is_prefix)
  ultimately show ?thesis
    using inv_no_race [OF inv] inv_in_ring [OF inv]
    by (auto split: producer.split consumer.split)
qed

theorem spsc_fifo_witness:
  "prefix (consumed sample_end) (committed sample_end) \<and> committed sample_end = [7, 8]"
  using spsc_fifo [OF sample_run] by (simp add: sample_end_def)

text \<open>Property C34 (a producer that waits for nothing). When a record is longer than what is left
  up to the end of the ring, \<open>prepare_write\<close> refuses it now and for as long as the producer commits
  nothing, whatever the consumer does: consuming does not help, although the header says to wait
  for the consumer. An empty queue and a record shorter than the capacity do not exclude it.\<close>
theorem spsc_stuck:
  assumes "spsc_step\<^sup>*\<^sup>* (start_system c) s" "unat c < 2 ^ 63"
    and "length (ring (queue s)) < length (committed s) mod length (ring (queue s)) + len" "len < 2 ^ 64" "0 < len"
    and "spsc_step\<^sup>*\<^sup>* s s'" "committed s' = committed s"
  shows "prepare_write (queue s') (of_nat len) = None"
proof -
  obtain k where "spsc_inv k (start_system c)"
    using inv_start [OF assms(2)] by blast
  from inv_steps [OF assms(1) this] have inv: "spsc_inv k s" .
  from inv_steps [OF assms(6) this] have inv': "spsc_inv k s'" .
  have "length (ring (queue s)) = 2 ^ k" using inv by (simp add: spsc_inv_def shape_def)
  with assms(3,7) have "2 ^ k < length (committed s') mod 2 ^ k + len" by simp
  moreover have "prepare_write (queue s') (of_nat len) =
    (if len = 0 \<or> length (committed s') - length (consumed s') + len < 2 ^ k
        \<and> length (committed s') mod 2 ^ k + len \<le> 2 ^ k
     then Some (of_nat (length (committed s') mod 2 ^ k)) else None)"
    unfolding prepare_write_def
    by (rule prepare_at_some) (use inv' assms(4) in \<open>auto simp: spsc_inv_def shape_def contents_def\<close>)
  ultimately show ?thesis using assms(5) by simp
qed

theorem spsc_stuck_witness:
  "empty (queue sample_end) \<and> 3 < capacity (queue sample_end) \<and> prepare_write (queue sample_end) 3 = None"
proof -
  have "prepare_write (queue sample_end) (of_nat 3) = None"
    by (rule spsc_stuck [OF sample_run, where s' = sample_end]) (simp_all add: sample_end_def)
  then show ?thesis by (simp add: sample_end_def empty_def capacity_def)
qed

text \<open>Property C35 (the capacity). For a requested capacity below \<open>2 ^ 63\<close> the queue gets the least
  power of two that is at least the request with its lowest bit set: a request of a power of two
  above 1 is doubled, and a request of 0 or 1 gives capacity 1, not the 2 the code promises, which
  refuses every byte.\<close>
theorem spsc_capacity:
  assumes "unat c < 2 ^ 63"
  shows "\<exists>k. capacity (SpscQueue c) = 2 ^ k \<and> unat (c OR 1) \<le> 2 ^ k
    \<and> (\<forall>j. unat (c OR 1) \<le> 2 ^ j \<longrightarrow> k \<le> j)
    \<and> (unat c \<le> 1 \<longrightarrow> k = 0 \<and> (\<forall>len. len \<noteq> 0 \<longrightarrow> prepare_write (SpscQueue c) len = None))
    \<and> (\<forall>j. unat c = 2 ^ Suc j \<longrightarrow> k = Suc (Suc j))"
proof -
  obtain k where k: "capacity (SpscQueue c) = 2 ^ k" "unat (c OR 1) \<le> 2 ^ k"
    "\<And>j. unat (c OR 1) \<le> 2 ^ j \<Longrightarrow> k \<le> j"
    by (rule inv_start [OF assms]) (simp add: start_system_def capacity_def)
  have or1: "c OR 1 = c + of_bool (even c)" by (rule or_one_eq)
  have low: "k = 0 \<and> (\<forall>len. len \<noteq> 0 \<longrightarrow> prepare_write (SpscQueue c) len = None)" if "unat c \<le> 1"
  proof -
    have "c = 0 \<or> c = 1" using that by (metis le_Suc_eq One_nat_def le_zero_eq unat_1 unat_eq_0 word_unat_eq_iff)
    then have c: "c OR 1 = 1" by auto
    then have "bit_ceil (c OR 1) = 1" by (simp add: bit_ceil_def)
    then show ?thesis
      using k(3) [of 0] c
      by (auto simp: SpscQueue_def prepare_write_def prepare_at_def Let_def word_neq_0_conv)
  qed
  have "k = Suc (Suc j)" if "unat c = 2 ^ Suc j" for j
  proof -
    have "unat (c + 1) = unat c + 1" using assms by (simp add: unat_word_ariths)
    moreover have "bit (unat c) 0 = bit c 0" by (simp add: bit_unsigned_iff del: bit_0)
    then have "even c" using that by (simp add: bit_0)
    ultimately have u: "unat (c OR 1) = 2 ^ Suc j + 1" using or1 that by simp
    have "(2 :: nat) ^ Suc j < 2 ^ k" using k(2) u by simp
    then have "Suc j < k" by (rule power_less_imp_less_exp [rotated]) simp
    moreover have "k \<le> Suc (Suc j)" using u by (intro k(3)) simp
    ultimately show ?thesis by simp
  qed
  with k low show ?thesis by blast
qed

theorem spsc_capacity_witness:
  "capacity (SpscQueue 0) = 1 \<and> prepare_write (SpscQueue 0) 1 = None \<and> capacity (SpscQueue 1024) = 2048"
proof -
  obtain k where "capacity (SpscQueue 0) = 2 ^ k" "k = 0" "prepare_write (SpscQueue 0) 1 = None"
    using spsc_capacity [of 0] by auto
  moreover obtain l where "capacity (SpscQueue 1024) = 2 ^ l" "\<forall>j. (1024 :: nat) = 2 ^ Suc j \<longrightarrow> l = Suc (Suc j)"
    using spsc_capacity [of 1024] by auto
  moreover from this(2) [rule_format, of 9] have "l = 11" by simp
  ultimately show ?thesis by simp
qed

end
