(* ===== verification/Log_Record.thy ===== *)
theory Log_Record
  imports LeKV_Prelude
begin

text \<open>
  The data the logger's two ends agree on (\<open>src/src/logger/type_tag.h\<close>, \<open>type_tag.cpp\<close>,
  \<open>log_record.h\<close>): type tags, the compile-time map from C++ types to tags, the run-time table
  of their sizes, and the record header.
\<close>

section \<open>Type tags\<close>

datatype type_tag = Int8 | Uint8 | Int16 | Uint16 | Int32 | Uint32 | Int64 | Uint64
  | Float | Double | Bool | Char | CString | StringView | StdString | UserDefined | Unknown

fun tag_code :: "type_tag \<Rightarrow> u16" where
  "tag_code Int8 = 1"
| "tag_code Uint8 = 2"
| "tag_code Int16 = 3"
| "tag_code Uint16 = 4"
| "tag_code Int32 = 5"
| "tag_code Uint32 = 6"
| "tag_code Int64 = 7"
| "tag_code Uint64 = 8"
| "tag_code Float = 9"
| "tag_code Double = 10"
| "tag_code Bool = 11"
| "tag_code Char = 12"
| "tag_code CString = 13"
| "tag_code StringView = 14"
| "tag_code StdString = 15"
| "tag_code UserDefined = 1000"
| "tag_code Unknown = 0xFFFF"

text \<open>The C++ types of log arguments, after \<open>std::remove_cvref_t\<close>.\<close>

datatype cpp_type = T_int8 | T_uint8 | T_int16 | T_uint16 | T_int32 | T_uint32 | T_int64 | T_uint64
  | T_float | T_double | T_bool | T_char | T_char_ptr | T_string_view | T_string | T_other nat

fun sizeof :: "cpp_type \<Rightarrow> nat" where
  "sizeof T_int8 = 1" | "sizeof T_uint8 = 1" | "sizeof T_int16 = 2" | "sizeof T_uint16 = 2"
| "sizeof T_int32 = 4" | "sizeof T_uint32 = 4" | "sizeof T_int64 = 8" | "sizeof T_uint64 = 8"
| "sizeof T_float = 4" | "sizeof T_double = 8" | "sizeof T_bool = 1" | "sizeof T_char = 1"
| "sizeof T_char_ptr = 8" | "sizeof T_string_view = 16" | "sizeof T_string = 32" | "sizeof (T_other n) = n"

text \<open>The specialisations of \<open>TypeTagOf\<close>; the strings have none.\<close>

fun type_tag_v :: "cpp_type \<Rightarrow> type_tag" where
  "type_tag_v T_int8 = Int8"
| "type_tag_v T_uint8 = Uint8"
| "type_tag_v T_int16 = Int16"
| "type_tag_v T_uint16 = Uint16"
| "type_tag_v T_int32 = Int32"
| "type_tag_v T_uint32 = Uint32"
| "type_tag_v T_int64 = Int64"
| "type_tag_v T_uint64 = Uint64"
| "type_tag_v T_float = Float"
| "type_tag_v T_double = Double"
| "type_tag_v T_bool = Bool"
| "type_tag_v T_char = Char"
| "type_tag_v _ = Unknown"

definition is_scalar_tag_v :: "cpp_type \<Rightarrow> bool" where
  "is_scalar_tag_v t \<longleftrightarrow> type_tag_v t \<noteq> Unknown \<and> type_tag_v t \<noteq> CString
     \<and> type_tag_v t \<noteq> StringView \<and> type_tag_v t \<noteq> StdString"

record type_tag_info =
  fixed_size :: u16
  is_string :: bool

text \<open>A tag is read from a record as 16 bits, so the query takes any of them.\<close>

definition query_type_tag_info :: "u16 \<Rightarrow> type_tag_info" where
  "query_type_tag_info tag =
     (if tag \<in> tag_code ` {Int8, Uint8, Bool, Char} then \<lparr>fixed_size = 1, is_string = False\<rparr>
      else if tag \<in> tag_code ` {Int16, Uint16} then \<lparr>fixed_size = 2, is_string = False\<rparr>
      else if tag \<in> tag_code ` {Int32, Uint32, Float} then \<lparr>fixed_size = 4, is_string = False\<rparr>
      else if tag \<in> tag_code ` {Int64, Uint64, Double} then \<lparr>fixed_size = 8, is_string = False\<rparr>
      else if tag \<in> tag_code ` {CString, StringView, StdString} then \<lparr>fixed_size = 0, is_string = True\<rparr>
      else \<lparr>fixed_size = 0, is_string = False\<rparr>)"

section \<open>Records\<close>

datatype log_level = Trace | Debug | Info | Warn | Error | Fatal | Off

record record_header =
  timestamp_ns :: u64
  thread_id :: u32
  line_no :: u32
  file_ptr :: u64
  func_ptr :: u64
  format_str :: u64
  level :: log_level
  payload_size :: u16

text \<open>The layout the ABI gives the members: sizes and alignments in order, and the size of a struct,
  rounded up to its alignment.\<close>

definition header_members :: "(nat \<times> nat) list" where
  "header_members = [(8, 8), (4, 4), (4, 4), (8, 8), (8, 8), (8, 8), (1, 1), (2, 2)]"

definition align_up :: "nat \<Rightarrow> nat \<Rightarrow> nat" where
  "align_up n a = (n + a - 1) div a * a"

definition struct_size :: "(nat \<times> nat) list \<Rightarrow> nat" where
  "struct_size ms = align_up (fold (\<lambda>(size, a) n. align_up n a + size) ms 0) (Max (set (map snd ms)))"

definition payload_offset :: nat where
  "payload_offset = struct_size header_members"

definition payload_ptr :: "u64 \<Rightarrow> u64" where
  "payload_ptr header = header + of_nat payload_offset"

text \<open>Property C38 (tags and sizes agree). For every C++ type: the tag is a scalar's exactly when the
  table gives it a size, which is then the size of the type; only types that are registered have
  a tag, no type gets one of the three string tags, so a string argument is \<open>Unknown\<close> to both
  ends; distinct tags have distinct codes; and the payload follows a header of 48 bytes.\<close>
theorem type_tags_agree:
  "(if is_scalar_tag_v t then unat (fixed_size (query_type_tag_info (tag_code (type_tag_v t)))) = sizeof t
    else type_tag_v t = Unknown \<and> fixed_size (query_type_tag_info (tag_code (type_tag_v t))) = 0)
   \<and> \<not> is_string (query_type_tag_info (tag_code (type_tag_v t)))
   \<and> (tag_code a = tag_code b) = (a = b)
   \<and> payload_offset = 48"
proof -
  have "payload_offset = 48"
    by (simp add: payload_offset_def struct_size_def header_members_def align_up_def)
  moreover have "(tag_code a = tag_code b) = (a = b)"
    by (cases a; cases b) simp_all
  ultimately show ?thesis
    by (cases t) (simp_all add: is_scalar_tag_v_def query_type_tag_info_def)
qed

end
