(* ===== verification/Config.thy ===== *)
theory Config
  imports Tablet_Store Lekv_Cli
begin

text \<open>
  The configuration file (\<open>src/src/common/common.h\<close>) and the start of a node up to its
  constructor (\<open>main\<close> of \<open>src/src/lekv.cpp\<close>) and of the client (\<open>main\<close> of \<open>src/src/lekv_cli.cpp\<close>). The JSON library is used as in
  \<open>Tablet_Store\<close>: \<open>parse\<close> is a parameter, \<open>operator[]\<close> and the conversions are modelled.
  The two ways a configuration error leaves the readers are told apart, because the code gives
  them different messages; undefined behaviour is its own outcome.
\<close>

section \<open>JSON access\<close>

datatype config_error = Runtime_error | Json_error | Bad_access

text \<open>\<open>j[key]\<close> on a mutable value inserts a null; on a constant one a missing key is undefined.\<close>

fun json_index :: "json \<Rightarrow> str \<Rightarrow> config_error + json" where
  "json_index (JObject m) k = Inr (case map_of m k of None \<Rightarrow> JNull | Some v \<Rightarrow> v)"
| "json_index JNull k = Inr JNull"
| "json_index _ k = Inl Json_error"

fun json_const_index :: "json \<Rightarrow> str \<Rightarrow> config_error + json" where
  "json_const_index (JObject m) k = (case map_of m k of None \<Rightarrow> Inl Bad_access | Some v \<Rightarrow> Inr v)"
| "json_const_index _ k = Inl Json_error"

fun as_str :: "json \<Rightarrow> config_error + str" where
  "as_str (JString s) = Inr s"
| "as_str _ = Inl Json_error"

fun as_u16 :: "json \<Rightarrow> config_error + u16" where
  "as_u16 (JUnsigned w) = Inr (ucast w)"
| "as_u16 (JInt i) = Inr (of_int i)"
| "as_u16 (JBool b) = Inr (if b then 1 else 0)"
| "as_u16 _ = Inl Json_error"

text \<open>What a range-based \<open>for\<close> visits.\<close>

fun elements :: "json \<Rightarrow> json list" where
  "elements JNull = []"
| "elements (JArray js) = js"
| "elements (JObject m) = map snd m"
| "elements j = [j]"

definition attempt :: "config_error + 'a \<Rightarrow> ('a \<Rightarrow> config_error + 'b) \<Rightarrow> config_error + 'b" where
  "attempt r f = (case r of Inl e \<Rightarrow> Inl e | Inr x \<Rightarrow> f x)"

lemma attempt_simps [simp]: "attempt (Inl e) f = Inl e" "attempt (Inr x) f = f x"
  by (simp_all add: attempt_def)

section \<open>Reading the configuration\<close>

definition MASTER_ID :: u64 where "MASTER_ID = 1"
definition MASTER_PORT :: u16 where "MASTER_PORT = 9001"
definition FOLLOWER_ID_START :: u64 where "FOLLOWER_ID_START = 2"

text \<open>\<open>file\<close> is the text of \<open>config.json\<close>, \<open>None\<close> when it does not open.\<close>

definition read_config :: "(bytes \<Rightarrow> json option) \<Rightarrow> bytes option \<Rightarrow> config_error + json" where
  "read_config parse file =
     (case file of
        None \<Rightarrow> Inl Runtime_error
      | Some text \<Rightarrow> (case parse text of None \<Rightarrow> Inl Json_error | Some j \<Rightarrow> Inr j))"

definition read_master_config :: "(bytes \<Rightarrow> json option) \<Rightarrow> bytes option \<Rightarrow> config_error + peer_info" where
  "read_master_config parse file =
     attempt (read_config parse file) (\<lambda>j.
     attempt (json_index j (lit ''MASTER_CONFIG'')) (\<lambda>m.
     attempt (json_index m (lit ''IP'')) (\<lambda>i.
     attempt (as_str i) (\<lambda>master_ip.
     attempt (json_index m (lit ''PORT'')) (\<lambda>p.
     attempt (as_u16 p) (\<lambda>master_port.
       if master_port \<noteq> MASTER_PORT then Inl Runtime_error
       else Inr \<lparr>peer_id = MASTER_ID, peer_ip = master_ip, peer_port = master_port\<rparr>))))))"

text \<open>The loop over the followers; \<open>next_id\<close> is the global \<open>FOLLOWER_ID_START\<close>, which it counts up.\<close>

fun followers_loop :: "json list \<Rightarrow> u64 \<Rightarrow> peer_info list \<Rightarrow> config_error + (peer_info list \<times> u64)" where
  "followers_loop [] next_id followers = Inr (followers, next_id)"
| "followers_loop (follower # rest) next_id followers =
     attempt (json_const_index follower (lit ''IP'')) (\<lambda>i.
     attempt (as_str i) (\<lambda>ip.
     attempt (json_const_index follower (lit ''PORT'')) (\<lambda>p.
     attempt (as_u16 p) (\<lambda>prt.
       if prt = MASTER_PORT then Inl Runtime_error
       else followers_loop rest (next_id + 1)
              (followers @ [\<lparr>peer_id = next_id, peer_ip = ip, peer_port = prt\<rparr>])))))"

definition read_followers_config ::
  "(bytes \<Rightarrow> json option) \<Rightarrow> bytes option \<Rightarrow> u64 \<Rightarrow> config_error + (peer_info list \<times> u64)" where
  "read_followers_config parse file next_id =
     attempt (read_config parse file) (\<lambda>j.
     attempt (json_index j (lit ''FOLLOWER_CONFIG'')) (\<lambda>fs. followers_loop (elements fs) next_id []))"

fun find_self_node_id :: "peer_info list \<Rightarrow> u16 \<Rightarrow> config_error + u64" where
  "find_self_node_id [] self_port = Inl Runtime_error"
| "find_self_node_id (peer # rest) self_port =
     (if peer_port peer = self_port then Inr (peer_id peer) else find_self_node_id rest self_port)"

section \<open>The start of a node\<close>

text \<open>\<open>main\<close> up to the construction of the \<open>RaftNode\<close>; \<open>args\<close> are the arguments after the program's
  name, \<open>signal_ok\<close> says whether the handler was installed.\<close>

datatype started = Exit int | Undefined | Start u64 u16 "peer_info list"

definition node_main ::
  "(bytes \<Rightarrow> json option) \<Rightarrow> bytes option \<Rightarrow> bool \<Rightarrow> str list \<Rightarrow> started" where
  "node_main parse file signal_ok args =
     (if 1 < length args then Exit 0
      else if \<not> signal_ok then Exit 1
      else (case (case args of [] \<Rightarrow> Some 9001 | a # _ \<Rightarrow> map_option (\<lambda>(p, _). ucast p) (stoull a)) of
          None \<Rightarrow> Exit 1
        | Some prt \<Rightarrow>
            (case attempt (read_master_config parse file) (\<lambda>master.
                  attempt (read_followers_config parse file FOLLOWER_ID_START) (\<lambda>(followers, _).
                  let ps = master # followers
                  in attempt (find_self_node_id ps prt) (\<lambda>nid. Inr (nid, ps)))) of
               Inl Bad_access \<Rightarrow> Undefined
             | Inl _ \<Rightarrow> Exit 1
             | Inr (nid, ps) \<Rightarrow> Start nid prt ps)))"

section \<open>The start of the client\<close>

text \<open>\<open>main\<close> of the client on the lines of its standard input: the exit status, or how it is cut short.\<close>

definition cli_main ::
  "(bytes \<Rightarrow> json option) \<Rightarrow> bytes option \<Rightarrow> ('w, 'z) os_scheme \<Rightarrow> str list \<Rightarrow> 'w
   \<Rightarrow> printed list \<times> (cli_stop + int)" where
  "cli_main parse file os lines w =
     (case read_master_config parse file of
        Inl _ \<Rightarrow> ([], Inr 1)
      | Inr master_info \<Rightarrow>
          (case cli_run os (Init (peer_ip master_info) (peer_port master_info)) lines w of
             (out, Inl e) \<Rightarrow> (out, Inl e)
           | (out, Inr _) \<Rightarrow> (out, Inr 0)))"

text \<open>Whatever the configuration says, a client that starts talks to port 9001, without a connection
  and with request ids from 1.\<close>

lemma cli_main_port:
  assumes "read_master_config parse file = Inr m"
  shows "cli_main parse file os lines w =
    (case cli_run os \<lparr>master_ip = peer_ip m, master_port = MASTER_PORT, proxy_conn = new_client, req_id = 1\<rparr> lines w of
       (out, r) \<Rightarrow> (out, map_sum id (\<lambda>_. 0) r))"
proof -
  have "peer_port m = MASTER_PORT"
    using assms by (auto simp: read_master_config_def attempt_def split: sum.splits if_splits)
  then show ?thesis
    using assms by (simp add: cli_main_def Init_def split: prod.splits sum.splits)
qed

section \<open>Who a node is\<close>

text \<open>The configuration with these followers, and the peers it stands for.\<close>

definition config_json :: "str \<Rightarrow> (str \<times> u16) list \<Rightarrow> json" where
  "config_json ip fs = JObject
     [(lit ''FOLLOWER_CONFIG'', JArray (map (\<lambda>(i, p).
         JObject [(lit ''IP'', JString i), (lit ''PORT'', JUnsigned (ucast p))]) fs)),
      (lit ''MASTER_CONFIG'', JObject [(lit ''IP'', JString ip), (lit ''PORT'', JUnsigned 9001)])]"

fun follower_peers :: "u64 \<Rightarrow> (str \<times> u16) list \<Rightarrow> peer_info list" where
  "follower_peers k [] = []"
| "follower_peers k ((i, p) # fs) = \<lparr>peer_id = k, peer_ip = i, peer_port = p\<rparr> # follower_peers (k + 1) fs"

lemma ucast_id16 [simp]: "(ucast (ucast (w :: u16) :: u64) :: u16) = w"
  by (rule bit_word_eqI) (simp add: bit_simps)

lemma keys_differ [simp]: "lit ''IP'' \<noteq> lit ''PORT''" "lit ''FOLLOWER_CONFIG'' \<noteq> lit ''MASTER_CONFIG''"
  "lit ''PORT'' \<noteq> lit ''IP''" "lit ''MASTER_CONFIG'' \<noteq> lit ''FOLLOWER_CONFIG''"
  by (simp_all add: lit_def)

lemma followers_loop_config:
  assumes "\<forall>(i, p) \<in> set fs. p \<noteq> MASTER_PORT"
  shows "followers_loop (map (\<lambda>(i, p). JObject [(lit ''IP'', JString i), (lit ''PORT'', JUnsigned (ucast p))]) fs) k ps
    = Inr (ps @ follower_peers k fs, k + of_nat (length fs))"
  using assms by (induction fs arbitrary: k ps) (auto simp del: lit_simps)

lemma nth_follower_peers:
  "i < length fs \<Longrightarrow> follower_peers k fs ! i
    = \<lparr>peer_id = k + of_nat i, peer_ip = fst (fs ! i), peer_port = snd (fs ! i)\<rparr>"
  by (induction k fs arbitrary: i rule: follower_peers.induct) (auto simp: nth_Cons' of_nat_diff)

lemma find_follower:
  assumes "i < length fs" "\<forall>j < i. snd (fs ! j) \<noteq> snd (fs ! i)"
  shows "find_self_node_id (follower_peers k fs) (snd (fs ! i)) = Inr (k + of_nat i)"
  using assms
proof (induction k fs arbitrary: i rule: follower_peers.induct)
  case (2 k ip p fs)
  show ?case
  proof (cases i)
    case (Suc l)
    have "\<forall>j < l. snd (fs ! j) \<noteq> snd (fs ! l)"
    proof (intro allI impI)
      fix j assume "j < l"
      with "2.prems"(2) [rule_format, of "Suc j"] show "snd (fs ! j) \<noteq> snd (fs ! l)"
        by (simp add: Suc)
    qed
    moreover have "p \<noteq> snd (fs ! l)" using "2.prems"(2) [rule_format, of 0] by (simp add: Suc)
    ultimately show ?thesis using "2.IH" [of l] "2.prems"(1) by (simp add: Suc)
  qed simp
qed simp

text \<open>Property C33 (a node is its port, modulo \<open>2 ^ 16\<close>). With a well-formed configuration, a node
  started with a number whose lowest 16 bits are the port of a follower runs under the id of the
  first follower with that port: a number above 65535 is not refused, and a second follower with
  the same port on another host, whose own entry has another id, also runs under the first's.\<close>
theorem node_identity:
  assumes "parse text = Some (config_json ip fs)" "\<forall>(i, p) \<in> set fs. p \<noteq> MASTER_PORT"
    and "i < length fs" "\<forall>j < i. snd (fs ! j) \<noteq> snd (fs ! i)"
    and "p mod 2 ^ 16 = unat (snd (fs ! i))" "p < 2 ^ 64" "k < length fs"
  shows "\<exists>ps. node_main parse (Some text) True [to_string p] = Start (2 + of_nat i) (snd (fs ! i)) ps
    \<and> ps ! (k + 1) = \<lparr>peer_id = 2 + of_nat k, peer_ip = fst (fs ! k), peer_port = snd (fs ! k)\<rparr>"
proof -
  let ?m = "\<lparr>peer_id = MASTER_ID, peer_ip = ip, peer_port = MASTER_PORT\<rparr>"
  let ?peers = "?m # follower_peers 2 fs"
  have rc: "read_config parse (Some text) = Inr (config_json ip fs)"
    using assms(1) by (simp add: read_config_def)
  have m: "read_master_config parse (Some text) = Inr ?m"
    by (simp add: read_master_config_def rc config_json_def MASTER_PORT_def del: lit_simps)
  have f: "read_followers_config parse (Some text) FOLLOWER_ID_START
      = Inr (follower_peers 2 fs, 2 + of_nat (length fs))"
    using followers_loop_config [OF assms(2), of 2 "[]"]
    by (simp add: read_followers_config_def rc config_json_def FOLLOWER_ID_START_def del: lit_simps)
  have "fs ! i \<in> set fs" using assms(3) by simp
  then have "snd (fs ! i) \<noteq> MASTER_PORT" using assms(2) by (auto simp: case_prod_beta)
  then have self: "find_self_node_id ?peers (snd (fs ! i)) = Inr (2 + of_nat i)"
    using find_follower [OF assms(3,4), of 2] by simp
  have "stoull (to_string p) = Some (of_nat p, [])"
    using read_number_to_string [of "[]" p] assms(6) by (simp add: stoull_def)
  moreover have "ucast (of_nat p :: u64) = snd (fs ! i)"
  proof (rule word_unat_eq_iff [THEN iffD2])
    have "unat (ucast (of_nat p :: u64) :: u16) = p mod 2 ^ 64 mod 2 ^ 16"
      by (simp add: unsigned_ucast_eq take_bit_eq_mod unat_of_nat)
    also have "\<dots> = p mod 2 ^ 16" by (rule mod_mod_cancel) simp
    finally show "unat (ucast (of_nat p :: u64) :: u16) = unat (snd (fs ! i))" using assms(5) by simp
  qed
  ultimately have "node_main parse (Some text) True [to_string p] = Start (2 + of_nat i) (snd (fs ! i)) ?peers"
    by (simp add: node_main_def m f self del: find_self_node_id.simps)
  then show ?thesis
    using nth_follower_peers [OF assms(7), of 2] by (intro exI [of _ ?peers]) simp
qed

theorem node_identity_witness:
  "\<exists>ps. node_main (\<lambda>_. Some (config_json (lit ''a'') [(lit ''b'', 9002), (lit ''c'', 9002)])) (Some []) True
      [to_string 74538] = Start 2 9002 ps
    \<and> ps ! Suc 1 = \<lparr>peer_id = 3, peer_ip = lit ''c'', peer_port = 9002\<rparr>"
  using node_identity [of "\<lambda>_. Some (config_json (lit ''a'') [(lit ''b'', 9002), (lit ''c'', 9002)])" "[]"
      "lit ''a''" "[(lit ''b'', 9002), (lit ''c'', 9002)]" 0 74538 1]
  by (simp add: MASTER_PORT_def)

end
