(* ===== verification/Lifecycle.thy ===== *)
theory Lifecycle
  imports Rpc_Server "HOL-Library.Multiset"
begin

text \<open>
  Start and stop. \<open>RpcServer::ServerStart\<close>, \<open>AcceptLoop\<close> and \<open>Stop\<close>
  (\<open>src/src/rpc/rpc_server.cpp\<close>) with the descriptor table of the process, in which a number
  that was closed can be given out again; and \<open>RaftNode::Run\<close> and \<open>Stop\<close>
  (\<open>src/src/kv/raft_node.cpp\<close>) with the two threads of \<open>main\<close> (\<open>src/src/lekv.cpp\<close>).
\<close>

section \<open>The server and the descriptors of its process\<close>

text \<open>What a descriptor stands for: the listening socket, a connection that a worker serves, or
  something else of the process, such as a file of the database or a client connection.\<close>

datatype resource = Listener | Connection | Other

record rpc_server =
  listen_fd :: int
  running :: bool
  client_fds :: "int list"
  threads :: nat              \<comment> \<open>elements of \<open>worker_threads_\<close>\<close>
  accepting :: "int option"   \<comment> \<open>accepted by \<open>AcceptLoop\<close>, not yet in \<open>client_fds_\<close>\<close>
  serving :: "int list"       \<comment> \<open>descriptors whose \<open>HandleClient\<close> has not closed them\<close>
  leaving :: "int list"       \<comment> \<open>closed by \<open>HandleClient\<close>, not yet out of \<open>client_fds_\<close>\<close>
  open_fds :: "int \<Rightarrow> resource option"
  closed :: "int list"        \<comment> \<open>calls of \<open>close\<close>, in order\<close>
  lost :: nat                 \<comment> \<open>how many of them closed a resource that is not the server's\<close>

definition close_fd :: "int \<Rightarrow> rpc_server \<Rightarrow> rpc_server" where
  "close_fd fd s = s\<lparr>open_fds := (open_fds s)(fd := None), closed := closed s @ [fd],
     lost := lost s + (if open_fds s fd = Some Other then 1 else 0)\<rparr>"

text \<open>\<open>sock\<close> is what \<open>socket()\<close> returns. A descriptor that cannot be bound stays open.\<close>

definition ServerStart :: "int \<Rightarrow> bool \<Rightarrow> bool \<Rightarrow> rpc_server \<Rightarrow> bool \<times> rpc_server" where
  "ServerStart sock bind_ok listen_ok s =
     (let s = s\<lparr>listen_fd := sock\<rparr>
      in if sock < 0 then (False, s)
      else (let s = s\<lparr>open_fds := (open_fds s)(sock \<mapsto> Listener)\<rparr>
        in if \<not> bind_ok then (False, s)
        else if \<not> listen_ok then (False, s)
        else (True, s\<lparr>running := True\<rparr>)))"

text \<open>\<open>AcceptLoop\<close>: \<open>accept\<close> returns a free number; then the connection is registered and its
  worker starts.\<close>

definition accept_client :: "int \<Rightarrow> rpc_server \<Rightarrow> rpc_server" where
  "accept_client fd s = s\<lparr>open_fds := (open_fds s)(fd \<mapsto> Connection), accepting := Some fd\<rparr>"

definition register_client :: "int \<Rightarrow> rpc_server \<Rightarrow> rpc_server" where
  "register_client fd s = s\<lparr>accepting := None, client_fds := client_fds s @ [fd],
     serving := serving s @ [fd], threads := threads s + 1\<rparr>"

text \<open>The end of \<open>HandleClient\<close>: both servers close the descriptor; the binary one, \<open>erases\<close>, then
  takes the first entry with its number out of \<open>client_fds_\<close>, the text one does not.\<close>

definition close_client :: "bool \<Rightarrow> int \<Rightarrow> rpc_server \<Rightarrow> rpc_server" where
  "close_client erases fd s = (close_fd fd s)\<lparr>serving := remove1 fd (serving s),
     leaving := (if erases then leaving s @ [fd] else leaving s)\<rparr>"

definition erase_client :: "int \<Rightarrow> rpc_server \<Rightarrow> rpc_server" where
  "erase_client fd s = s\<lparr>client_fds := remove1 fd (client_fds s), leaving := remove1 fd (leaving s)\<rparr>"

text \<open>\<open>Stop\<close> up to the joins: the listening socket, then every registered descriptor. The
  workers, woken by \<open>shutdown\<close>, then leave their loops by themselves.\<close>

definition server_stop :: "rpc_server \<Rightarrow> rpc_server" where
  "server_stop s =
     (if \<not> running s then s
      else (let s = s\<lparr>running := False\<rparr>;
                s = (if 0 \<le> listen_fd s then (close_fd (listen_fd s) s)\<lparr>listen_fd := -1\<rparr> else s)
            in (fold close_fd (client_fds s) s)\<lparr>client_fds := []\<rparr>))"

text \<open>The threads of the server and, as \<open>other_open\<close> and \<open>other_close\<close>, the rest of the process.
  \<open>accept\<close> fails once the listening socket is shut down.\<close>

inductive server_step :: "bool \<Rightarrow> rpc_server \<Rightarrow> rpc_server \<Rightarrow> bool" for erases where
  accept: "running s \<Longrightarrow> accepting s = None \<Longrightarrow> 0 \<le> fd \<Longrightarrow> open_fds s fd = None \<Longrightarrow>
    server_step erases s (accept_client fd s)"
| register: "accepting s = Some fd \<Longrightarrow> server_step erases s (register_client fd s)"
| close: "fd \<in> set (serving s) \<Longrightarrow> server_step erases s (close_client erases fd s)"
| erase: "fd \<in> set (leaving s) \<Longrightarrow> server_step erases s (erase_client fd s)"
| other_open: "open_fds s fd = None \<Longrightarrow>
    server_step erases s (s\<lparr>open_fds := (open_fds s)(fd \<mapsto> Other)\<rparr>)"
| other_close: "open_fds s fd = Some Other \<Longrightarrow>
    server_step erases s (s\<lparr>open_fds := (open_fds s)(fd := None)\<rparr>)"

text \<open>When the joins at the end of \<open>Stop\<close> have returned.\<close>

definition joined :: "rpc_server \<Rightarrow> bool" where
  "joined s \<longleftrightarrow> \<not> running s \<and> accepting s = None \<and> serving s = [] \<and> leaving s = []"

definition acceptings :: "rpc_server \<Rightarrow> int multiset" where
  "acceptings s = (case accepting s of None \<Rightarrow> {#} | Some fd \<Rightarrow> {#fd#})"

definition up_inv :: "bool \<Rightarrow> rpc_server \<Rightarrow> bool" where
  "up_inv erases s \<longleftrightarrow> running s \<and> 0 \<le> listen_fd s
     \<and> (\<forall>fd. open_fds s fd = Some Listener \<longleftrightarrow> fd = listen_fd s)
     \<and> (\<forall>fd. open_fds s fd = Some Connection \<longleftrightarrow> fd \<in> set (serving s) \<or> accepting s = Some fd)
     \<and> distinct (serving s) \<and> (\<forall>fd. accepting s = Some fd \<longrightarrow> fd \<notin> set (serving s))
     \<and> mset (serving s) + mset (leaving s) \<subseteq># mset (client_fds s)
     \<and> (erases \<longrightarrow> mset (client_fds s) = mset (serving s) + mset (leaving s))
     \<and> (\<not> erases \<longrightarrow> length (client_fds s) = threads s \<and> leaving s = [])
     \<and> length (client_fds s) \<le> threads s \<and> lost s = 0"

definition down_inv :: "int multiset \<Rightarrow> rpc_server \<Rightarrow> bool" where
  "down_inv M s \<longleftrightarrow> \<not> running s \<and> (\<forall>fd. open_fds s fd \<noteq> Some Listener)
     \<and> (\<forall>fd. open_fds s fd = Some Connection \<longrightarrow> fd \<in> set (serving s) \<or> accepting s = Some fd)
     \<and> mset (closed s) + mset (serving s) + acceptings s = M"

lemma close_fd_simps [simp]:
  "open_fds (close_fd fd s) = (open_fds s)(fd := None)" "closed (close_fd fd s) = closed s @ [fd]"
  "running (close_fd fd s) = running s" "listen_fd (close_fd fd s) = listen_fd s"
  "client_fds (close_fd fd s) = client_fds s" "serving (close_fd fd s) = serving s"
  "threads (close_fd fd s) = threads s" "accepting (close_fd fd s) = accepting s"
  "leaving (close_fd fd s) = leaving s"
  by (simp_all add: close_fd_def)

lemma fold_close_fd [simp]:
  "open_fds (fold close_fd fds s) x = (if x \<in> set fds then None else open_fds s x)"
  "closed (fold close_fd fds s) = closed s @ fds"
  "running (fold close_fd fds s) = running s" "listen_fd (fold close_fd fds s) = listen_fd s"
  "client_fds (fold close_fd fds s) = client_fds s" "serving (fold close_fd fds s) = serving s"
  "threads (fold close_fd fds s) = threads s" "accepting (fold close_fd fds s) = accepting s"
  "leaving (fold close_fd fds s) = leaving s"
  by (induction fds arbitrary: s) auto

lemma up_inv_fds:
  assumes "up_inv erases s"
  shows "open_fds s (listen_fd s) = Some Listener" "fd \<in> set (serving s) \<Longrightarrow> open_fds s fd = Some Connection"
    "accepting s = Some fd \<Longrightarrow> open_fds s fd = Some Connection"
  using assms by (simp_all add: up_inv_def)

lemma up_inv_set:
  assumes "up_inv True s"
  shows "set (client_fds s) = set (serving s) \<union> set (leaving s)"
proof -
  have "mset (client_fds s) = mset (serving s @ leaving s)" using assms by (simp add: up_inv_def)
  from mset_eq_setD [OF this] show ?thesis by simp
qed

lemmas server_ops = accept_client_def register_client_def close_client_def erase_client_def

lemma up_inv_step:
  assumes "server_step erases s s'" "up_inv erases s"
  shows "up_inv erases s'"
  using assms
proof (induction rule: server_step.induct)
  case (accept s fd)
  then have "fd \<noteq> listen_fd s" "fd \<notin> set (serving s)"
    using up_inv_fds [OF accept.prems] by fastforce+
  with accept show ?case unfolding up_inv_def server_ops by simp
next
  case (register s fd)
  then show ?case unfolding up_inv_def server_ops
    by (auto simp: add_mset_commute)
next
  case (close fd s)
  note inv = up_inv_fds [OF close.prems]
  have c: "open_fds s fd = Some Connection" using inv close.hyps by simp
  then have l: "fd \<noteq> listen_fd s" using inv(1) by fastforce
  have "\<forall>x. accepting s = Some x \<longrightarrow> x \<notin> set (serving s)" using close.prems by (simp add: up_inv_def)
  then have l2: "accepting s \<noteq> Some fd" using close.hyps by auto
  have conn: "open_fds s x = Some Connection \<longleftrightarrow> x \<in> set (serving s) \<or> accepting s = Some x"
    and listen: "open_fds s x = Some Listener \<longleftrightarrow> x = listen_fd s" for x
    using close.prems by (simp_all add: up_inv_def)
  have m: "mset (serving s) = add_mset fd (mset (remove1 fd (serving s)))"
    using close.hyps by simp
  have d: "set (remove1 fd (serving s)) = set (serving s) - {fd}"
    using close.prems by (simp add: up_inv_def set_remove1_eq)
  have "mset (serving s) + mset (leaving s) \<subseteq># mset (client_fds s)"
    using close.prems by (simp add: up_inv_def)
  then have sub: "add_mset fd (mset (remove1 fd (serving s)) + mset (leaving s)) \<subseteq># mset (client_fds s)"
    unfolding m by simp
  then have "mset (remove1 fd (serving s)) + mset (leaving s) \<subseteq># mset (client_fds s)"
    by (rule mset_subset_eq_insertD [THEN conjunct2, THEN subset_mset.less_imp_le])
  moreover have "mset (client_fds s) = mset (remove1 fd (serving s)) + add_mset fd (mset (leaving s))" if erases
    using close.prems that unfolding up_inv_def m by simp
  moreover have "((open_fds s)(fd := None)) x = Some Connection
      \<longleftrightarrow> x \<in> set (remove1 fd (serving s)) \<or> accepting s = Some x" for x
    using conn [of x] l2 unfolding d by (cases "x = fd") simp_all
  moreover have "((open_fds s)(fd := None)) x = Some Listener \<longleftrightarrow> x = listen_fd s" for x
    using listen [of x] l by (cases "x = fd") simp_all
  moreover have "distinct (remove1 fd (serving s))" "\<forall>x. accepting s = Some x \<longrightarrow> x \<notin> set (remove1 fd (serving s))"
    using close.prems unfolding up_inv_def d by simp_all
  moreover have "running s" "0 \<le> listen_fd s" "\<not> erases \<longrightarrow> length (client_fds s) = threads s \<and> leaving s = []"
    "length (client_fds s) \<le> threads s" "lost s = 0"
    using close.prems by (simp_all add: up_inv_def)
  ultimately show ?case
    using c sub unfolding up_inv_def close_client_def close_fd_def
    by (cases erases) (simp_all del: mset_remove1 set_remove1_eq fun_upd_apply)
next
  case (erase fd s)
  then have e: "erases" by (auto simp: up_inv_def)
  moreover have "fd \<in> set (client_fds s)" using erase up_inv_set [of s] e by simp
  ultimately show ?case using erase unfolding up_inv_def server_ops
    by (auto simp: length_remove1)
next
  case (other_open s fd)
  then have "fd \<noteq> listen_fd s" "fd \<notin> set (serving s)" "accepting s \<noteq> Some fd"
    using up_inv_fds [OF other_open.prems] by fastforce+
  with other_open show ?case unfolding up_inv_def by simp
next
  case (other_close s fd)
  then have "fd \<noteq> listen_fd s" "fd \<notin> set (serving s)" "accepting s \<noteq> Some fd"
    using up_inv_fds [OF other_close.prems] by fastforce+
  with other_close show ?case unfolding up_inv_def by simp
qed

lemma up_inv_steps: "(server_step erases)\<^sup>*\<^sup>* s s' \<Longrightarrow> up_inv erases s \<Longrightarrow> up_inv erases s'"
  by (induction rule: rtranclp_induct) (auto intro: up_inv_step)

lemma down_inv_step:
  assumes "server_step erases s s'" "down_inv M s"
  shows "down_inv M s'"
  using assms
proof (induction rule: server_step.induct)
  case (close fd s)
  then show ?case unfolding down_inv_def server_ops
    by (auto simp: acceptings_def in_set_remove1)
qed (auto simp: down_inv_def server_ops acceptings_def)

lemma down_inv_steps: "(server_step erases)\<^sup>*\<^sup>* s s' \<Longrightarrow> down_inv M s \<Longrightarrow> down_inv M s'"
  by (induction rule: rtranclp_induct) (auto intro: down_inv_step)

lemma down_inv_stop:
  assumes "up_inv erases s"
  shows "down_inv (mset (closed s) + {#listen_fd s#} + mset (client_fds s) + mset (serving s) + acceptings s)
    (server_stop s)"
  using assms by (auto simp: up_inv_def down_inv_def server_stop_def acceptings_def)

definition fresh_server :: "(int \<Rightarrow> resource option) \<Rightarrow> rpc_server" where
  "fresh_server t = \<lparr>listen_fd = -1, running = False, client_fds = [], threads = 0, accepting = None,
     serving = [], leaving = [], open_fds = t, closed = [], lost = 0\<rparr>"

text \<open>Property C32 (what stopping closes). Whatever connections come and go and whatever else the
  process opens, a running server closes nothing that is not its own. The binary server's list
  holds the connections that are served and those between their \<open>close\<close> and their removal; the
  text server's keeps every descriptor it ever accepted, and both keep one thread for each.
  \<open>Stop\<close> closes the listening socket and the whole list, also where a number in it belongs to
  something else by now; the workers close theirs a second time. When they are joined, exactly
  these closes have happened and no socket of the server is open.\<close>
theorem server_stop_closes:
  assumes "\<forall>fd. t fd = None \<or> t fd = Some Other" "t sock = None"
    and "ServerStart sock True True (fresh_server t) = (True, s0)" "(server_step erases)\<^sup>*\<^sup>* s0 s"
    and "(server_step erases)\<^sup>*\<^sup>* (server_stop s) s'" "joined s'"
  shows "lost s = 0 \<and> length (client_fds s) \<le> threads s
    \<and> (if erases then mset (client_fds s) = mset (serving s) + mset (leaving s)
       else length (client_fds s) = threads s)
    \<and> (\<forall>fd. open_fds s fd = Some Other \<longrightarrow> (open_fds (server_stop s) fd = None
         \<longleftrightarrow> fd \<in> set (if erases then leaving s else client_fds s)))
    \<and> mset (closed s') = mset (closed s) + {#listen_fd s#} + mset (client_fds s) + mset (serving s) + acceptings s
    \<and> (\<forall>fd. open_fds s' fd \<noteq> Some Connection \<and> open_fds s' fd \<noteq> Some Listener)"
proof -
  have "t fd \<noteq> Some Listener" "t fd \<noteq> Some Connection" for fd
    using assms(1) [rule_format, of fd] by auto
  then have "up_inv erases s0"
    using assms(2,3) by (auto simp: ServerStart_def fresh_server_def up_inv_def Let_def split: if_splits)
  then have up: "up_inv erases s" by (rule up_inv_steps [OF assms(4)])
  have "down_inv (mset (closed s) + {#listen_fd s#} + mset (client_fds s) + mset (serving s) + acceptings s) s'"
    by (rule down_inv_steps [OF assms(5) down_inv_stop [OF up]])
  with assms(6) have down: "mset (closed s') = mset (closed s) + {#listen_fd s#} + mset (client_fds s)
      + mset (serving s) + acceptings s" "\<forall>fd. open_fds s' fd \<noteq> Some Connection \<and> open_fds s' fd \<noteq> Some Listener"
    by (auto simp: down_inv_def joined_def acceptings_def)
  have "set (client_fds s) = set (serving s) \<union> set (leaving s)" if erases
    using up_inv_set [of s] up that by simp
  moreover have "fd \<noteq> listen_fd s" "fd \<notin> set (serving s)" if "open_fds s fd = Some Other" for fd
    using up_inv_fds [OF up] that by fastforce+
  moreover have "running s" "0 \<le> listen_fd s" using up by (simp_all add: up_inv_def)
  ultimately have "\<forall>fd. open_fds s fd = Some Other \<longrightarrow> (open_fds (server_stop s) fd = None
      \<longleftrightarrow> fd \<in> set (if erases then leaving s else client_fds s))"
    by (simp add: server_stop_def)
  with up down show ?thesis by (simp add: up_inv_def)
qed

text \<open>A run in which the binary server is stopped between the \<open>close\<close> of a connection and its removal,
  after the database has opened a file that was given the same number.\<close>

definition stop_run :: "rpc_server list" where
  "stop_run =
     (let s0 = snd (ServerStart 3 True True (fresh_server Map.empty));
          s1 = accept_client 4 s0;
          s2 = register_client 4 s1;
          s3 = close_client True 4 s2;
          s4 = s3\<lparr>open_fds := (open_fds s3)(4 \<mapsto> Other)\<rparr>;
          s5 = server_stop s4
      in [s0, s4, erase_client 4 s5])"

theorem server_stop_closes_witness:
  "\<exists>s0 s s'. (server_step True)\<^sup>*\<^sup>* s0 s \<and> (server_step True)\<^sup>*\<^sup>* (server_stop s) s' \<and> joined s'
     \<and> mset (closed s') = {#3, 4, 4#} \<and> open_fds s 4 = Some Other \<and> open_fds s' 4 = None \<and> lost s' = 1"
proof -
  let ?start = "stop_run ! 0" and ?up = "stop_run ! 1" and ?last = "stop_run ! 2"
  note run_simps = stop_run_def server_ops Let_def ServerStart_def fresh_server_def server_stop_def
    close_fd_def joined_def acceptings_def
  have s0: "ServerStart 3 True True (fresh_server Map.empty) = (True, ?start)"
    by (simp add: stop_run_def ServerStart_def fresh_server_def Let_def)
  have run: "(server_step True)\<^sup>*\<^sup>* ?start ?up"
  proof -
    let ?accepted = "accept_client 4 ?start"
    have "server_step True ?start ?accepted"
      by (rule server_step.accept) (simp_all add: run_simps)
    moreover have "server_step True ?accepted (register_client 4 ?accepted)"
      by (rule server_step.register) (simp add: run_simps)
    moreover have "server_step True (register_client 4 ?accepted) (close_client True 4 (register_client 4 ?accepted))"
      by (rule server_step.close) (simp add: run_simps)
    moreover have "server_step True (close_client True 4 (register_client 4 ?accepted)) ?up"
      using server_step.other_open [of "close_client True 4 (register_client 4 ?accepted)" 4 True]
      by (simp add: run_simps)
    ultimately show ?thesis
      by (meson converse_rtranclp_into_rtranclp rtranclp.rtrancl_refl)
  qed
  have down: "(server_step True)\<^sup>*\<^sup>* (server_stop ?up) ?last"
    using server_step.erase [of 4 "server_stop ?up" True] by (auto simp: run_simps)
  have "joined ?last" "lost ?last = 1" "open_fds ?up 4 = Some Other" "open_fds ?last 4 = None"
    by (simp_all add: run_simps)
  moreover have "mset (closed ?last) = {#3, 4, 4#}"
    using server_stop_closes [OF _ _ s0 run down] \<open>joined ?last\<close> by (simp add: run_simps)
  ultimately show ?thesis using run down by blast
qed

section \<open>Running and stopping a node\<close>

text \<open>The main thread: before \<open>Run\<close> starts the server; before \<open>running_ = true\<close>; before
  \<open>balancer_running_ = true\<close>; before \<open>balancer_thread_\<close> is assigned; waiting on the condition
  variable; back in \<open>main\<close>; past the join; \<open>main\<close> returned; \<open>std::terminate\<close> called. The stop
  thread: polling \<open>g_stop\<close>; about to call \<open>Stop\<close>; inside it, after each of its statements; finished.
  The balancer's \<open>std::thread\<close>: not joinable, in its loop, out of it. Stopping the server, whose parts
  are above, is one step here; the assignment of \<open>balancer_thread_\<close> and the test and join of it are one
  step each, although C++ does not define what they do to each other when they overlap.\<close>

datatype main_at = Before_start | Server_up | Running_set | Balancer_set | Waiting_stop | Run_returned
  | Scope_end | Main_done | Terminated

datatype stopper_at = Polling | Calling_stop | Stop_entered | Running_cleared | Balancer_cleared
  | Server_stopped | Thread_joined | Stopper_done

datatype balancer_at = No_thread | Looping | Left_loop

record node_life =
  main_at :: main_at
  stopper_at :: stopper_at
  balancer_at :: balancer_at
  g_stop :: bool
  running_flag :: bool
  balancer_running :: bool
  server_up :: bool
  storage_open :: bool

definition sigint_handler :: "node_life \<Rightarrow> node_life" where
  "sigint_handler s = s\<lparr>g_stop := True\<rparr>"

text \<open>\<open>RaftNode::Run\<close>, one statement at a time; \<open>None\<close> where the thread cannot go on.\<close>

definition Run_step :: "bool \<Rightarrow> bool \<Rightarrow> node_life \<Rightarrow> node_life option" where
  "Run_step is_master start_ok s =
     (case main_at s of
        Before_start \<Rightarrow>
          Some (if start_ok then s\<lparr>main_at := Server_up, server_up := True\<rparr> else s\<lparr>main_at := Run_returned\<rparr>)
      | Server_up \<Rightarrow> Some (s\<lparr>main_at := Running_set, running_flag := True\<rparr>)
      | Running_set \<Rightarrow>
          Some (if is_master then s\<lparr>main_at := Balancer_set, balancer_running := True\<rparr>
                else s\<lparr>main_at := Waiting_stop\<rparr>)
      | Balancer_set \<Rightarrow> Some (s\<lparr>main_at := Waiting_stop, balancer_at := Looping\<rparr>)
      | Waiting_stop \<Rightarrow> if running_flag s then None else Some (s\<lparr>main_at := Run_returned\<rparr>)
      | _ \<Rightarrow> None)"

text \<open>The end of \<open>main\<close>: the join of the stop thread, then the destructor of the node. That calls
  \<open>Stop\<close>, which returns at once unless the node is running, and destroys \<open>balancer_thread_\<close>: a
  thread that is still joinable makes it call \<open>std::terminate\<close>.\<close>

definition main_join :: "node_life \<Rightarrow> node_life option" where
  "main_join s = (if main_at s = Run_returned \<and> stopper_at s = Stopper_done
     then Some (s\<lparr>main_at := Scope_end\<rparr>) else None)"

definition RaftNode_destroy :: "node_life \<Rightarrow> node_life option" where
  "RaftNode_destroy s =
     (if main_at s = Scope_end then
        (let s = (if running_flag s
                  then s\<lparr>running_flag := False, balancer_running := False, server_up := False,
                         balancer_at := No_thread, storage_open := False\<rparr> else s)
         in Some (s\<lparr>main_at := if balancer_at s = No_thread then Main_done else Terminated,
                    storage_open := False\<rparr>))
      else None)"

text \<open>The stop thread of \<open>main\<close>, with \<open>RaftNode::Stop\<close> one statement at a time. The join waits until
  the thread has left its loop.\<close>

definition stop_thread :: "node_life \<Rightarrow> node_life option" where
  "stop_thread s =
     (case stopper_at s of
        Polling \<Rightarrow> if g_stop s then Some (s\<lparr>stopper_at := Calling_stop\<rparr>) else None
      | Calling_stop \<Rightarrow> Some (s\<lparr>stopper_at := if running_flag s then Stop_entered else Stopper_done\<rparr>)
      | Stop_entered \<Rightarrow> Some (s\<lparr>stopper_at := Running_cleared, running_flag := False\<rparr>)
      | Running_cleared \<Rightarrow> Some (s\<lparr>stopper_at := Balancer_cleared, balancer_running := False\<rparr>)
      | Balancer_cleared \<Rightarrow> Some (s\<lparr>stopper_at := Server_stopped, server_up := False\<rparr>)
      | Server_stopped \<Rightarrow>
          if balancer_at s = Looping then None
          else Some (s\<lparr>stopper_at := Thread_joined, balancer_at := No_thread\<rparr>)
      | Thread_joined \<Rightarrow> Some (s\<lparr>stopper_at := Stopper_done, storage_open := False\<rparr>)
      | Stopper_done \<Rightarrow> None)"

text \<open>The balancer leaves its loop when it finds \<open>balancer_running_\<close> false; a round changes nothing here.
  (One that throws ends the process; rounds are in the theories of the balancer.)\<close>

definition balancer_exit :: "node_life \<Rightarrow> node_life option" where
  "balancer_exit s = (if balancer_at s = Looping \<and> \<not> balancer_running s
     then Some (s\<lparr>balancer_at := Left_loop\<rparr>) else None)"

inductive life_step :: "bool \<Rightarrow> node_life \<Rightarrow> node_life \<Rightarrow> bool" for is_master where
  run: "Run_step is_master start_ok s = Some s' \<Longrightarrow> life_step is_master s s'"
| join: "main_join s = Some s' \<Longrightarrow> life_step is_master s s'"
| destroy: "RaftNode_destroy s = Some s' \<Longrightarrow> life_step is_master s s'"
| stop: "stop_thread s = Some s' \<Longrightarrow> life_step is_master s s'"
| exit: "balancer_exit s = Some s' \<Longrightarrow> life_step is_master s s'"
| interrupt: "\<not> g_stop s \<Longrightarrow> life_step is_master s (sigint_handler s)"

definition life_start :: node_life where
  "life_start = \<lparr>main_at = Before_start, stopper_at = Polling, balancer_at = No_thread, g_stop = False,
     running_flag = False, balancer_running = False, server_up = False, storage_open = True\<rparr>"

text \<open>A node whose stop came before it was running, and one whose stop waits for a balancer that was told
  to run after it had been told to stop.\<close>

definition lost_stop :: "node_life \<Rightarrow> bool" where
  "lost_stop s \<longleftrightarrow> main_at s = Waiting_stop \<and> running_flag s \<and> server_up s \<and> stopper_at s = Stopper_done"

definition hung_stop :: "node_life \<Rightarrow> bool" where
  "hung_stop s \<longleftrightarrow> main_at s = Run_returned \<and> stopper_at s = Server_stopped \<and> \<not> server_up s
     \<and> balancer_at s = Looping \<and> balancer_running s"

text \<open>What the steps are, by the point each thread is at.\<close>

lemma Run_step_cases:
  "Run_step is_master start_ok s = Some s' \<Longrightarrow>
     main_at s = Before_start \<and> s' = s\<lparr>main_at := Server_up, server_up := True\<rparr>
   \<or> main_at s = Before_start \<and> s' = s\<lparr>main_at := Run_returned\<rparr>
   \<or> main_at s = Server_up \<and> s' = s\<lparr>main_at := Running_set, running_flag := True\<rparr>
   \<or> main_at s = Running_set \<and> is_master \<and> s' = s\<lparr>main_at := Balancer_set, balancer_running := True\<rparr>
   \<or> main_at s = Running_set \<and> \<not> is_master \<and> s' = s\<lparr>main_at := Waiting_stop\<rparr>
   \<or> main_at s = Balancer_set \<and> s' = s\<lparr>main_at := Waiting_stop, balancer_at := Looping\<rparr>
   \<or> main_at s = Waiting_stop \<and> \<not> running_flag s \<and> s' = s\<lparr>main_at := Run_returned\<rparr>"
  by (cases "main_at s") (simp_all add: Run_step_def split: if_splits)

lemma stop_thread_cases:
  "stop_thread s = Some s' \<Longrightarrow>
     stopper_at s = Polling \<and> g_stop s \<and> s' = s\<lparr>stopper_at := Calling_stop\<rparr>
   \<or> stopper_at s = Calling_stop \<and> \<not> running_flag s \<and> s' = s\<lparr>stopper_at := Stopper_done\<rparr>
   \<or> stopper_at s = Calling_stop \<and> running_flag s \<and> s' = s\<lparr>stopper_at := Stop_entered\<rparr>
   \<or> stopper_at s = Stop_entered \<and> s' = s\<lparr>stopper_at := Running_cleared, running_flag := False\<rparr>
   \<or> stopper_at s = Running_cleared \<and> s' = s\<lparr>stopper_at := Balancer_cleared, balancer_running := False\<rparr>
   \<or> stopper_at s = Balancer_cleared \<and> s' = s\<lparr>stopper_at := Server_stopped, server_up := False\<rparr>
   \<or> stopper_at s = Server_stopped \<and> balancer_at s \<noteq> Looping
       \<and> s' = s\<lparr>stopper_at := Thread_joined, balancer_at := No_thread\<rparr>
   \<or> stopper_at s = Thread_joined \<and> s' = s\<lparr>stopper_at := Stopper_done, storage_open := False\<rparr>"
  by (cases "stopper_at s") (simp_all add: stop_thread_def split: if_splits)

lemma life_step_cases:
  "life_step is_master s s' \<Longrightarrow>
     (\<exists>start_ok. Run_step is_master start_ok s = Some s') \<or> stop_thread s = Some s'
   \<or> main_at s = Run_returned \<and> stopper_at s = Stopper_done \<and> s' = s\<lparr>main_at := Scope_end\<rparr>
   \<or> main_at s = Scope_end \<and> RaftNode_destroy s = Some s'
   \<or> balancer_at s = Looping \<and> \<not> balancer_running s \<and> s' = s\<lparr>balancer_at := Left_loop\<rparr>
   \<or> \<not> g_stop s \<and> s' = s\<lparr>g_stop := True\<rparr>"
  by (erule life_step.cases)
    (auto simp: main_join_def RaftNode_destroy_def balancer_exit_def sigint_handler_def split: if_splits)

section \<open>How a node ends\<close>

definition life_inv :: "bool \<Rightarrow> node_life \<Rightarrow> bool" where
  "life_inv is_master s \<longleftrightarrow>
     (stopper_at s \<noteq> Polling \<longrightarrow> g_stop s)
     \<and> (balancer_at s \<noteq> No_thread \<longrightarrow>
          is_master \<and> main_at s \<in> {Waiting_stop, Run_returned, Scope_end, Terminated})
     \<and> (main_at s = Balancer_set \<longrightarrow> is_master)
     \<and> (main_at s \<in> {Before_start, Server_up} \<longrightarrow> \<not> running_flag s
          \<and> (server_up s \<longleftrightarrow> main_at s = Server_up) \<and> stopper_at s \<in> {Polling, Calling_stop, Stopper_done})
     \<and> (main_at s \<in> {Running_set, Balancer_set, Waiting_stop} \<longrightarrow>
          (running_flag s \<longrightarrow> server_up s \<and> stopper_at s \<in> {Polling, Calling_stop, Stop_entered, Stopper_done})
          \<and> (\<not> running_flag s \<longrightarrow> stopper_at s \<notin> {Polling, Calling_stop, Stop_entered}
             \<and> (server_up s \<longleftrightarrow> stopper_at s \<in> {Running_cleared, Balancer_cleared})))
     \<and> (main_at s \<in> {Run_returned, Scope_end, Main_done, Terminated} \<longrightarrow> \<not> running_flag s
          \<and> stopper_at s \<noteq> Stop_entered \<and> (server_up s \<longleftrightarrow> stopper_at s \<in> {Running_cleared, Balancer_cleared}))
     \<and> (main_at s \<in> {Scope_end, Main_done, Terminated} \<longrightarrow> stopper_at s = Stopper_done)
     \<and> (main_at s = Terminated \<longrightarrow> balancer_at s \<noteq> No_thread)"

lemma life_inv_run: "Run_step is_master start_ok s = Some s' \<Longrightarrow> life_inv is_master s \<Longrightarrow> life_inv is_master s'"
  by (drule Run_step_cases, elim disjE conjE; cases "stopper_at s"; cases "running_flag s") (simp_all add: life_inv_def)

lemma life_inv_stop: "stop_thread s = Some s' \<Longrightarrow> life_inv is_master s \<Longrightarrow> life_inv is_master s'"
  by (drule stop_thread_cases, elim disjE conjE; cases "main_at s"; cases "running_flag s") (simp_all add: life_inv_def)

lemma life_inv_destroy:
  assumes "main_at s = Scope_end" "RaftNode_destroy s = Some s'" "life_inv is_master s"
  shows "life_inv is_master s'"
proof -
  have "\<not> running_flag s" "stopper_at s = Stopper_done" "\<not> server_up s" "g_stop s"
    "balancer_at s \<noteq> No_thread \<longrightarrow> is_master"
    using assms(1,3) by (simp_all add: life_inv_def)
  moreover from this assms(1,2) have "s' = s\<lparr>main_at := if balancer_at s = No_thread then Main_done else Terminated,
      storage_open := False\<rparr>" by (simp add: RaftNode_destroy_def)
  ultimately show ?thesis by (cases "balancer_at s = No_thread") (simp_all add: life_inv_def)
qed

lemma life_inv_step:
  assumes "life_step is_master s s'" "life_inv is_master s"
  shows "life_inv is_master s'"
  using life_step_cases [OF assms(1)]
proof (elim disjE exE conjE)
  fix start_ok
  assume "Run_step is_master start_ok s = Some s'"
  then show ?thesis using assms(2) by (rule life_inv_run)
next
  assume "stop_thread s = Some s'"
  then show ?thesis using assms(2) by (rule life_inv_stop)
next
  assume "main_at s = Scope_end" "RaftNode_destroy s = Some s'"
  then show ?thesis using assms(2) by (rule life_inv_destroy)
next
  assume "main_at s = Run_returned" "stopper_at s = Stopper_done" "s' = s\<lparr>main_at := Scope_end\<rparr>"
  then show ?thesis using assms(2) by (simp add: life_inv_def)
next
  assume "balancer_at s = Looping" "s' = s\<lparr>balancer_at := Left_loop\<rparr>"
  then show ?thesis using assms(2) by (cases "main_at s") (simp_all add: life_inv_def)
next
  assume "\<not> g_stop s" "s' = s\<lparr>g_stop := True\<rparr>"
  then show ?thesis using assms(2) by (cases "stopper_at s") (auto simp: life_inv_def)
qed

lemma life_inv_steps: "(life_step is_master)\<^sup>*\<^sup>* s s' \<Longrightarrow> life_inv is_master s \<Longrightarrow> life_inv is_master s'"
  by (induction rule: rtranclp_induct) (auto intro: life_inv_step)

lemma life_inv_start [simp]: "life_inv is_master life_start"
  by (simp add: life_inv_def life_start_def)

lemma lost_stop_step: "life_step is_master s s' \<Longrightarrow> lost_stop s \<Longrightarrow> lost_stop s'"
  by (drule life_step_cases, elim disjE exE conjE)
    (auto simp: lost_stop_def dest!: Run_step_cases stop_thread_cases)

lemma lost_stop_steps: "(life_step is_master)\<^sup>*\<^sup>* s s' \<Longrightarrow> lost_stop s \<Longrightarrow> lost_stop s'"
  by (induction rule: rtranclp_induct) (auto intro: lost_stop_step)

text \<open>Steps left: no run goes on for ever.\<close>

fun main_left :: "main_at \<Rightarrow> nat" where
  "main_left Before_start = 8" | "main_left Server_up = 7" | "main_left Running_set = 6"
| "main_left Balancer_set = 5" | "main_left Waiting_stop = 3" | "main_left Run_returned = 2"
| "main_left Scope_end = 1" | "main_left Main_done = 0" | "main_left Terminated = 0"

fun stopper_left :: "stopper_at \<Rightarrow> nat" where
  "stopper_left Polling = 7" | "stopper_left Calling_stop = 6" | "stopper_left Stop_entered = 5"
| "stopper_left Running_cleared = 4" | "stopper_left Balancer_cleared = 3" | "stopper_left Server_stopped = 2"
| "stopper_left Thread_joined = 1" | "stopper_left Stopper_done = 0"

definition life_left :: "node_life \<Rightarrow> nat" where
  "life_left s = main_left (main_at s) + stopper_left (stopper_at s)
     + (if g_stop s then 0 else 1) + (if balancer_at s = Looping then 1 else 0)"

lemma life_step_decreases:
  assumes "life_step is_master s s'"
  shows "life_left s' < life_left s"
  using life_step_cases [OF assms]
proof (elim disjE exE conjE)
  fix start_ok
  assume "Run_step is_master start_ok s = Some s'"
  from Run_step_cases [OF this] show ?thesis by (elim disjE conjE) (simp_all add: life_left_def)
next
  assume "stop_thread s = Some s'"
  from stop_thread_cases [OF this] show ?thesis by (elim disjE conjE) (simp_all add: life_left_def)
qed (auto simp: life_left_def RaftNode_destroy_def Let_def split: if_splits)

lemma life_left_start: "life_left life_start = 16"
  by (simp add: life_left_def life_start_def)

lemma life_steps_decrease: "(life_step is_master ^^ k) s s' \<Longrightarrow> life_left s' + k \<le> life_left s"
proof (induction k arbitrary: s')
  case (Suc k)
  then obtain t where "(life_step is_master ^^ k) s t" "life_step is_master t s'" by auto
  with Suc.IH [of t] life_step_decreases show ?case by fastforce
qed simp

text \<open>Where no thread can go on.\<close>

lemma stuck_cases:
  assumes "life_inv is_master s" "\<And>s'. \<not> life_step is_master s s'"
  shows "main_at s = Main_done \<or> main_at s = Terminated \<or> lost_stop s \<or> hung_stop s"
proof -
  have g: "g_stop s" using assms(2) life_step.interrupt [of s is_master] by blast
  have none: "stop_thread s = None" "main_join s = None" "RaftNode_destroy s = None"
    "balancer_exit s = None" "Run_step is_master True s = None"
    using assms(2) life_step.intros(1-5) by (metis not_None_eq)+
  have "stopper_at s = Stopper_done \<or> stopper_at s = Server_stopped \<and> balancer_at s = Looping"
    using none(1) g by (cases "stopper_at s") (simp_all add: stop_thread_def split: if_splits)
  moreover have "main_at s \<noteq> Scope_end" using none(3) by (auto simp: RaftNode_destroy_def Let_def)
  moreover have "main_at s = Waiting_stop \<and> running_flag s
      \<or> main_at s \<in> {Run_returned, Scope_end, Main_done, Terminated}"
    using none(5) by (cases "main_at s") (simp_all add: Run_step_def split: if_splits)
  moreover have "balancer_at s = Looping \<Longrightarrow> balancer_running s"
    using none(4) by (simp add: balancer_exit_def split: if_splits)
  moreover have "main_at s = Run_returned \<Longrightarrow> stopper_at s \<noteq> Stopper_done"
    using none(2) by (auto simp: main_join_def)
  ultimately show ?thesis
    using assms(1) by (cases "main_at s"; cases "stopper_at s") (simp_all add: life_inv_def lost_stop_def hung_stop_def)
qed

lemma stuck_outcome:
  assumes "life_inv is_master s" "\<And>s'. \<not> life_step is_master s s'"
  shows "main_at s = Main_done \<or> lost_stop s \<or> is_master \<and> (hung_stop s \<or> main_at s = Terminated)"
  using stuck_cases [OF assms]
proof (elim disjE)
  assume "main_at s = Terminated"
  with assms(1) show ?thesis by (simp add: life_inv_def)
next
  assume "hung_stop s"
  moreover from this have "is_master" using assms(1) by (simp add: life_inv_def hung_stop_def)
  ultimately show ?thesis by simp
qed simp_all

text \<open>A node whose \<open>Run\<close> had come to wait before \<open>Stop\<close> got to the balancer.\<close>

definition stopped_in_time :: "node_life \<Rightarrow> bool" where
  "stopped_in_time s \<longleftrightarrow> main_at s \<in> {Waiting_stop, Run_returned, Scope_end, Main_done}
     \<and> (main_at s \<in> {Scope_end, Main_done} \<longrightarrow> stopper_at s = Stopper_done)
     \<and> (stopper_at s \<in> {Polling, Calling_stop, Stop_entered} \<longrightarrow> running_flag s \<and> main_at s = Waiting_stop)
     \<and> (stopper_at s \<notin> {Polling, Calling_stop, Stop_entered} \<longrightarrow> \<not> running_flag s)
     \<and> (stopper_at s \<in> {Balancer_cleared, Server_stopped} \<longrightarrow> \<not> balancer_running s)
     \<and> (stopper_at s \<in> {Thread_joined, Stopper_done} \<longrightarrow> balancer_at s = No_thread)"

lemma stopped_in_time_step:
  assumes "life_step is_master s s'" "stopped_in_time s"
  shows "stopped_in_time s'"
  using life_step_cases [OF assms(1)]
proof (elim disjE exE conjE)
  fix start_ok
  assume "Run_step is_master start_ok s = Some s'"
  from Run_step_cases [OF this] show ?thesis
    using assms(2) by (elim disjE conjE; cases "stopper_at s") (simp_all add: stopped_in_time_def)
next
  assume "stop_thread s = Some s'"
  from stop_thread_cases [OF this] show ?thesis
    using assms(2) by (elim disjE conjE; cases "main_at s") (simp_all add: stopped_in_time_def)
next
  assume "main_at s = Scope_end" "RaftNode_destroy s = Some s'"
  then show ?thesis using assms(2) by (auto simp: stopped_in_time_def RaftNode_destroy_def)
next
  assume "balancer_at s = Looping" "\<not> balancer_running s" "s' = s\<lparr>balancer_at := Left_loop\<rparr>"
  then show ?thesis using assms(2)
    by (cases "main_at s"; cases "stopper_at s") (simp_all add: stopped_in_time_def)
next
  assume "main_at s = Run_returned" "stopper_at s = Stopper_done" "s' = s\<lparr>main_at := Scope_end\<rparr>"
  then show ?thesis using assms(2) by (simp add: stopped_in_time_def)
next
  assume "s' = s\<lparr>g_stop := True\<rparr>"
  moreover have "stopped_in_time (s\<lparr>g_stop := True\<rparr>) = stopped_in_time s" by (simp add: stopped_in_time_def)
  ultimately show ?thesis using assms(2) by simp
qed

lemma stopped_in_time_steps: "(life_step is_master)\<^sup>*\<^sup>* s s' \<Longrightarrow> stopped_in_time s \<Longrightarrow> stopped_in_time s'"
  by (induction rule: rtranclp_induct) (auto intro: stopped_in_time_step)

lemma stopped_in_timeI:
  assumes "life_inv is_master s" "main_at s = Waiting_stop"
    and "stopper_at s \<in> {Polling, Calling_stop, Stop_entered, Running_cleared}"
  shows "stopped_in_time s"
  using assms(1,2) assms(3) [unfolded insert_iff empty_iff]
  by (elim disjE) (simp_all add: stopped_in_time_def life_inv_def)

lemma stopped_in_time_end: "stopped_in_time s \<Longrightarrow> \<not> lost_stop s \<and> \<not> hung_stop s \<and> main_at s \<noteq> Terminated"
  by (cases "stopper_at s") (auto simp: stopped_in_time_def lost_stop_def hung_stop_def)

lemma hung_stop_stuck:
  assumes "hung_stop s" "life_inv is_master s"
  shows "\<not> life_step is_master s s'"
proof
  assume "life_step is_master s s'"
  from life_step_cases [OF this] show False
    using assms by (elim disjE exE conjE)
      (auto simp: hung_stop_def life_inv_def dest!: Run_step_cases stop_thread_cases)
qed

text \<open>Runs given by who moves next, for concrete ones.\<close>

datatype mover = Main_moves bool | Main_joins | Main_destroys | Stop_moves | Balancer_exits | Interrupt

fun move :: "bool \<Rightarrow> mover \<Rightarrow> node_life \<Rightarrow> node_life option" where
  "move is_master (Main_moves start_ok) s = Run_step is_master start_ok s"
| "move is_master Main_joins s = main_join s"
| "move is_master Main_destroys s = RaftNode_destroy s"
| "move is_master Stop_moves s = stop_thread s"
| "move is_master Balancer_exits s = balancer_exit s"
| "move is_master Interrupt s = (if g_stop s then None else Some (sigint_handler s))"

fun life_run :: "bool \<Rightarrow> mover list \<Rightarrow> node_life \<Rightarrow> node_life option" where
  "life_run is_master [] s = Some s"
| "life_run is_master (m # ms) s = (case move is_master m s of None \<Rightarrow> None | Some s \<Rightarrow> life_run is_master ms s)"

lemma move_step: "move is_master m s = Some s' \<Longrightarrow> life_step is_master s s'"
  by (cases m) (auto intro: life_step.intros split: if_splits)

lemma life_run_steps: "life_run is_master ms s = Some s' \<Longrightarrow> (life_step is_master)\<^sup>*\<^sup>* s s'"
proof (induction ms arbitrary: s)
  case (Cons m ms)
  then obtain t where "move is_master m s = Some t" "life_run is_master ms t = Some s'"
    by (auto split: option.splits)
  with Cons.IH move_step show ?case by (metis converse_rtranclp_into_rtranclp)
qed simp

text \<open>Property C31 (the end of a process). Every run of the threads takes at most sixteen steps, rounds of
  the balancer apart. Where none can go on, \<open>main\<close> has returned with the server stopped and no
  balancer thread left, or the stop request came while \<open>Run\<close> was starting up. Before \<open>running_\<close>
  was set, \<open>Stop\<close> did nothing, nobody will call it again, and the server goes on for ever. On a
  master it can also come between \<open>running_ = true\<close> and the start of the balancer's thread: then
  \<open>Stop\<close> waits for ever for a balancer that was told to run after it had been told to stop, or it
  found no thread to join, \<open>Run\<close> started one all the same, and the destructor of the node ends the
  process in \<open>std::terminate\<close>. A node that waits in \<open>Run\<close> when \<open>Stop\<close> has not yet got to the
  balancer does not get into any of this.\<close>
theorem shutdown_outcome:
  assumes "(life_step is_master)\<^sup>*\<^sup>* life_start s"
  shows "(\<forall>k. (life_step is_master ^^ k) life_start s \<longrightarrow> k \<le> 16)
    \<and> ((\<forall>s'. \<not> life_step is_master s s') \<longrightarrow>
         main_at s = Main_done \<or> lost_stop s \<or> is_master \<and> (hung_stop s \<or> main_at s = Terminated))
    \<and> (main_at s = Main_done \<longrightarrow> \<not> server_up s \<and> balancer_at s = No_thread)
    \<and> (main_at s = Terminated \<longrightarrow> \<not> server_up s \<and> balancer_at s \<noteq> No_thread)
    \<and> (\<forall>s'. (life_step is_master)\<^sup>*\<^sup>* s s' \<longrightarrow>
         (lost_stop s \<longrightarrow> main_at s' = Waiting_stop \<and> server_up s')
         \<and> (hung_stop s \<longrightarrow> s' = s)
         \<and> (main_at s = Waiting_stop \<and> stopper_at s \<in> {Polling, Calling_stop, Stop_entered, Running_cleared} \<longrightarrow>
              \<not> lost_stop s' \<and> \<not> hung_stop s' \<and> main_at s' \<noteq> Terminated))"
proof (intro conjI allI impI)
  have inv: "life_inv is_master s" by (rule life_inv_steps [OF assms]) simp
  show "k \<le> 16" if "(life_step is_master ^^ k) life_start s" for k
    using life_steps_decrease [OF that] by (simp add: life_left_start)
  show "main_at s = Main_done \<or> lost_stop s \<or> is_master \<and> (hung_stop s \<or> main_at s = Terminated)"
    if "\<forall>s'. \<not> life_step is_master s s'"
    by (rule stuck_outcome [OF inv]) (use that in blast)
  show "\<not> server_up s" "balancer_at s = No_thread" if "main_at s = Main_done"
    using inv that by (auto simp: life_inv_def)
  show "\<not> server_up s" "balancer_at s \<noteq> No_thread" if "main_at s = Terminated"
    using inv that by (auto simp: life_inv_def)
  fix s'
  assume steps: "(life_step is_master)\<^sup>*\<^sup>* s s'"
  show "main_at s' = Waiting_stop" "server_up s'" if "lost_stop s"
    using lost_stop_steps [OF steps that] by (simp_all add: lost_stop_def)
  show "s' = s" if "hung_stop s"
    using steps hung_stop_stuck [OF that inv] by (auto elim: converse_rtranclpE)
  assume "main_at s = Waiting_stop \<and> stopper_at s \<in> {Polling, Calling_stop, Stop_entered, Running_cleared}"
  then have "stopped_in_time s" by (intro stopped_in_timeI [OF inv]) simp_all
  from stopped_in_time_end [OF stopped_in_time_steps [OF steps this]]
  show "\<not> lost_stop s'" "\<not> hung_stop s'" "main_at s' \<noteq> Terminated" by simp_all
qed

text \<open>A master that is interrupted early comes to each of the bad ends.\<close>

definition lost_run :: "mover list" where
  "lost_run = [Main_moves True, Interrupt, Stop_moves, Stop_moves, Main_moves True, Main_moves True, Main_moves True]"

definition hung_run :: "mover list" where
  "hung_run = [Main_moves True, Main_moves True, Interrupt, Stop_moves, Stop_moves, Stop_moves, Stop_moves,
     Main_moves True, Main_moves True, Stop_moves, Main_moves True]"

definition terminated_run :: "mover list" where
  "terminated_run = [Main_moves True, Main_moves True, Interrupt] @ replicate 7 Stop_moves
     @ [Main_moves True, Main_moves True, Main_moves True, Main_joins, Main_destroys]"

theorem shutdown_outcome_witness:
  "(\<exists>s. (life_step True)\<^sup>*\<^sup>* life_start s \<and> lost_stop s \<and> (\<forall>s'. (life_step True)\<^sup>*\<^sup>* s s' \<longrightarrow> server_up s'))
   \<and> (\<exists>s. (life_step True)\<^sup>*\<^sup>* life_start s \<and> hung_stop s \<and> (\<forall>s'. (life_step True)\<^sup>*\<^sup>* s s' \<longrightarrow> s' = s))
   \<and> (\<exists>s. (life_step True)\<^sup>*\<^sup>* life_start s \<and> main_at s = Terminated \<and> balancer_at s \<noteq> No_thread)"
proof -
  have "(case life_run True lost_run life_start of Some s \<Rightarrow> lost_stop s | None \<Rightarrow> False)" by code_simp
  then obtain s1 where "life_run True lost_run life_start = Some s1" and lost: "lost_stop s1"
    by (auto split: option.splits)
  then have r1: "(life_step True)\<^sup>*\<^sup>* life_start s1" by (intro life_run_steps)
  have "(case life_run True hung_run life_start of Some s \<Rightarrow> hung_stop s | None \<Rightarrow> False)" by code_simp
  then obtain s2 where "life_run True hung_run life_start = Some s2" and hung: "hung_stop s2"
    by (auto split: option.splits)
  then have r2: "(life_step True)\<^sup>*\<^sup>* life_start s2" by (intro life_run_steps)
  have "(case life_run True terminated_run life_start of Some s \<Rightarrow> main_at s = Terminated | None \<Rightarrow> False)"
    by code_simp
  then obtain s3 where "life_run True terminated_run life_start = Some s3" and terminated: "main_at s3 = Terminated"
    by (auto split: option.splits)
  then have r3: "(life_step True)\<^sup>*\<^sup>* life_start s3" by (intro life_run_steps)
  note later = conjunct2 [OF conjunct2 [OF conjunct2 [OF conjunct2 [OF shutdown_outcome]]], rule_format]
  have "server_up s'" if "(life_step True)\<^sup>*\<^sup>* s1 s'" for s' using later [OF r1 that] lost by simp
  moreover have "s' = s2" if "(life_step True)\<^sup>*\<^sup>* s2 s'" for s' using later [OF r2 that] hung by simp
  moreover have "balancer_at s3 \<noteq> No_thread"
    using conjunct1 [OF conjunct2 [OF conjunct2 [OF conjunct2 [OF shutdown_outcome [OF r3]]]]] terminated by simp
  ultimately show ?thesis using r1 r2 r3 lost hung terminated by (intro conjI exI [of _ s1] exI [of _ s2] exI [of _ s3]) simp_all
qed

end
